(* ===== verification/Prelude.thy ===== *)
theory Prelude
  imports Main "HOL-Library.Word"
begin

text \<open>
  Shared vocabulary of the development: the machine integers of the sources
  as words, results as sums (\<open>Inl\<close> the error, \<open>Inr\<close> the value), the
  library functions of the source language that several components call, and
  the generic lemmas on lists, sums and words that carry their proofs.
\<close>

unbundle bit_operations_syntax

type_synonym u8 = "8 word"
type_synonym u32 = "32 word"
type_synonym u64 = "64 word"
type_synonym u128 = "128 word"

section \<open>Results\<close>

text \<open>The \<open>?\<close> operator of the source language: stop at the first error.\<close>

definition bindR :: "'e + 'a \<Rightarrow> ('a \<Rightarrow> 'e + 'b) \<Rightarrow> 'e + 'b" where
  "bindR r f = (case r of Inl e \<Rightarrow> Inl e | Inr x \<Rightarrow> f x)"

lemma bindR_simps [simp]:
  "bindR (Inl e) f = Inl e"
  "bindR (Inr x) f = f x"
  by (simp_all add: bindR_def)

lemma bindR_eq_Inr [simp]: "bindR r f = Inr y \<longleftrightarrow> (\<exists>x. r = Inr x \<and> f x = Inr y)"
  by (cases r) simp_all

lemma bindR_eq_Inl [simp]:
  "bindR r f = Inl e \<longleftrightarrow> r = Inl e \<or> (\<exists>x. r = Inr x \<and> f x = Inl e)"
  by (cases r) simp_all

text \<open>\<open>Option::ok_or\<close>.\<close>

definition ok_or :: "'a option \<Rightarrow> 'e \<Rightarrow> 'e + 'a" where
  "ok_or x e = (case x of None \<Rightarrow> Inl e | Some y \<Rightarrow> Inr y)"

lemma ok_or_simps [simp]: "ok_or None e = Inl e" "ok_or (Some y) e = Inr y"
  by (simp_all add: ok_or_def)

lemma ok_or_eq_Inr [simp]: "ok_or x e = Inr y \<longleftrightarrow> x = Some y"
  by (cases x) simp_all

lemma ok_or_eq_Inl [simp]: "ok_or x e = Inl e' \<longleftrightarrow> x = None \<and> e' = e"
  by (cases x) auto

section \<open>Words\<close>

text \<open>\<open>u32::checked_sub\<close> and \<open>u32::checked_add\<close>.\<close>

definition checked_sub32 :: "u32 \<Rightarrow> u32 \<Rightarrow> u32 option" where
  "checked_sub32 a b = (if b \<le> a then Some (a - b) else None)"

definition checked_add32 :: "u32 \<Rightarrow> u32 \<Rightarrow> u32 option" where
  "checked_add32 a b = (if uint a + uint b < 2 ^ 32 then Some (a + b) else None)"

lemma checked_sub32_Some: "checked_sub32 a b = Some c \<longleftrightarrow> unat b \<le> unat a \<and> c = a - b"
  by (auto simp: checked_sub32_def word_le_nat_alt)

lemma uint_add_less32: "uint (a :: u32) + uint (b :: u32) < 4294967296 \<longleftrightarrow> unat a + unat b < 4294967296"
  using of_nat_less_iff [where 'a = int, of "unat a + unat b" 4294967296] by simp

lemma checked_add32_unat:
  "checked_add32 a b = (if unat a + unat b < 2 ^ 32 then Some (a + b) else None)"
  by (simp add: checked_add32_def uint_add_less32)

lemma unat_lt32 [simp]: "unat (w :: u32) < 4294967296"
  using unsigned_less [of w] by simp

lemma unat_add32: "unat (a + b :: u32) = (unat a + unat b) mod 4294967296"
  by (simp add: unat_word_ariths)

lemma unat_add32_small:
  "unat a + unat b < 4294967296 \<Longrightarrow> unat (a + b :: u32) = unat a + unat b"
  by (simp add: unat_add32)

lemma unat_sub32: "unat b \<le> unat a \<Longrightarrow> unat (a - b :: u32) = unat a - unat b"
  by (simp add: unat_sub_if_size)

lemma unat_of_nat32: "n < 4294967296 \<Longrightarrow> unat (of_nat n :: u32) = n"
  by (simp add: unat_of_nat take_bit_nat_eq_self)

section \<open>Little-endian bytes\<close>

text \<open>\<open>u64::to_le_bytes\<close> and \<open>u64::from_le_bytes\<close>.\<close>

definition to_le_bytes :: "u64 \<Rightarrow> u8 list" where
  "to_le_bytes v = map (\<lambda>i. ucast (drop_bit (8 * i) v)) [0..<8]"

definition from_le_bytes :: "u8 list \<Rightarrow> u64" where
  "from_le_bytes bs = foldr (\<lambda>b acc. ucast b OR push_bit 8 acc) bs 0"

lemma length_to_le_bytes [simp]: "length (to_le_bytes v) = 8"
  by (simp add: to_le_bytes_def)

lemma upt_8: "[0..<8] = [0, 1, 2, 3, 4, 5, 6, 7::nat]"
  by (simp add: upt_rec)

lemma bit_from_le_bytes:
  "bit (from_le_bytes bs) n \<longleftrightarrow> n < 64 \<and> n div 8 < length bs \<and> bit (bs ! (n div 8)) (n mod 8)"
proof (induction bs arbitrary: n)
  case Nil
  then show ?case by (simp add: from_le_bytes_def)
next
  case (Cons b bs)
  have step: "from_le_bytes (b # bs) = ucast b OR push_bit 8 (from_le_bytes bs)"
    by (simp add: from_le_bytes_def)
  show ?case
  proof (cases "n < 8")
    case True
    then show ?thesis by (simp add: step bit_simps)
  next
    case False
    then obtain k where k: "n = 8 + k" by (metis le_add_diff_inverse not_less)
    have "\<not> bit b (8 + k)"
      using bit_imp_le_length [of b "8 + k"] by auto
    moreover have "(8 + k) div 8 = Suc (k div 8)" by simp
    ultimately show ?thesis
      unfolding step k by (auto simp: bit_simps Cons.IH simp del: div_add_self1)
  qed
qed

lemma from_to_le_bytes [simp]: "from_le_bytes (to_le_bytes v) = v"
proof (rule bit_word_eqI)
  fix n assume n: "n < LENGTH(64)"
  then have "n div 8 < 8" by simp
  then show "bit (from_le_bytes (to_le_bytes v)) n = bit v n"
    using n by (simp add: bit_from_le_bytes to_le_bytes_def bit_simps mult.commute)
qed

section \<open>Slices\<close>

text \<open>\<open>memory[start..end]\<close> and \<open>memory[start..end].copy_from_slice(data)\<close>,
  for a range inside the slice.\<close>

definition subslice :: "'a list \<Rightarrow> nat \<Rightarrow> nat \<Rightarrow> 'a list" where
  "subslice xs i n = take n (drop i xs)"

definition overwrite :: "'a list \<Rightarrow> nat \<Rightarrow> 'a list \<Rightarrow> 'a list" where
  "overwrite xs i ys = take i xs @ ys @ drop (i + length ys) xs"

lemma length_subslice [simp]: "i + n \<le> length xs \<Longrightarrow> length (subslice xs i n) = n"
  by (simp add: subslice_def)

lemma length_overwrite [simp]: "i + length ys \<le> length xs \<Longrightarrow> length (overwrite xs i ys) = length xs"
  by (simp add: overwrite_def)

lemma subslice_overwrite_same [simp]:
  "i + length ys \<le> length xs \<Longrightarrow> n = length ys \<Longrightarrow> subslice (overwrite xs i ys) i n = ys"
  by (simp add: subslice_def overwrite_def)

lemma subslice_overwrite_other:
  assumes "i + length ys \<le> length xs" "j + n \<le> i \<or> i + length ys \<le> j"
  shows "subslice (overwrite xs i ys) j n = subslice xs j n"
  using assms by (auto simp: subslice_def overwrite_def drop_take min_def)

end
