(* ===== verification/Freeing_Bump.thy ===== *)
theory Freeing_Bump
  imports Prelude
begin

text \<open>
  The freeing-bump heap allocator of the Wasm executor
  (\<open>client/allocator/src/freeing_bump.rs\<close>): orders, links, headers, the
  free lists, the bump pointer, \<open>allocate\<close> and \<open>deallocate\<close>, over the
  \<open>Memory\<close> trait, which is a dictionary of operations here. Machine
  integers are words, so \<open>+\<close> wraps as it does in a release build. A failed
  \<open>assert!\<close> or \<open>expect\<close> is the error \<open>Panic\<close>.
\<close>

section \<open>Errors, constants, orders\<close>

datatype alloc_error =
    RequestedAllocationTooLarge
  | AllocatorOutOfSpace
  | MemoryShrinked
  | Other string
  | Panic

definition ALIGNMENT :: u32 where "ALIGNMENT = 8"
definition HEADER_SIZE :: u32 where "HEADER_SIZE = 8"
definition N_ORDERS :: nat where "N_ORDERS = 23"
definition MIN_POSSIBLE_ALLOCATION :: u32 where "MIN_POSSIBLE_ALLOCATION = 8"
definition MAX_POSSIBLE_ALLOCATION :: u32 where "MAX_POSSIBLE_ALLOCATION = 33554432"
definition NIL_MARKER :: u32 where "NIL_MARKER = 4294967295"

datatype order = Order (order_into_raw: u32)

definition order_from_raw :: "u32 \<Rightarrow> alloc_error + order" where
  "order_from_raw ord =
     (if ord < of_nat N_ORDERS then Inr (Order ord) else Inl (Other ''invalid order''))"

text \<open>\<open>u32::trailing_zeros\<close> and \<open>u32::next_power_of_two\<close>: the position of the
  lowest set bit (32 for zero), and the least power of two that is not below the
  argument (an overflow wraps to 0).\<close>

definition trailing_zeros :: "u32 \<Rightarrow> u32" where
  "trailing_zeros x =
     (case find (\<lambda>i. bit x i) [0..<32] of Some i \<Rightarrow> of_nat i | None \<Rightarrow> 32)"

definition next_power_of_two :: "u32 \<Rightarrow> u32" where
  "next_power_of_two x =
     (case find (\<lambda>i. uint x \<le> 2 ^ i) [0..<32] of Some i \<Rightarrow> push_bit i 1 | None \<Rightarrow> 0)"

definition order_from_size :: "u32 \<Rightarrow> alloc_error + order" where
  "order_from_size sz =
     (if sz > MAX_POSSIBLE_ALLOCATION then Inl RequestedAllocationTooLarge
      else
        let clamped_size = (if sz < MIN_POSSIBLE_ALLOCATION then MIN_POSSIBLE_ALLOCATION else sz);
            power_of_two_size = next_power_of_two clamped_size;
            ord = trailing_zeros power_of_two_size - trailing_zeros MIN_POSSIBLE_ALLOCATION
        in Inr (Order ord))"

definition order_size :: "order \<Rightarrow> u32" where
  "order_size ord = push_bit (unat (order_into_raw ord)) MIN_POSSIBLE_ALLOCATION"

section \<open>Links and headers\<close>

datatype link = Link_Nil | Link_Ptr u32

definition link_from_raw :: "u32 \<Rightarrow> link" where
  "link_from_raw raw = (if raw \<noteq> NIL_MARKER then Link_Ptr raw else Link_Nil)"

fun link_into_raw :: "link \<Rightarrow> u32" where
  "link_into_raw Link_Nil = NIL_MARKER"
| "link_into_raw (Link_Ptr ptr) = ptr"

datatype header = Free link | Occupied order

text \<open>The \<open>Memory\<close> trait as a dictionary. \<open>size\<close> panics on a slice of
  \<open>2^32\<close> bytes or more, so it is fallible.\<close>

record 'm memory_ops =
  read_le_u64 :: "'m \<Rightarrow> u32 \<Rightarrow> alloc_error + u64"
  write_le_u64 :: "'m \<Rightarrow> u32 \<Rightarrow> u64 \<Rightarrow> alloc_error + 'm"
  msize :: "'m \<Rightarrow> alloc_error + u32"

definition header_decode :: "u64 \<Rightarrow> alloc_error + header" where
  "header_decode raw_header =
     (let occupied = (raw_header AND 0x0000000100000000 \<noteq> 0);
          header_data = ucast raw_header :: u32
      in if occupied then bindR (order_from_raw header_data) (\<lambda>ord. Inr (Occupied ord))
         else Inr (Free (link_from_raw header_data)))"

definition header_read_from :: "'m memory_ops \<Rightarrow> 'm \<Rightarrow> u32 \<Rightarrow> alloc_error + header" where
  "header_read_from M mem header_ptr = bindR (read_le_u64 M mem header_ptr) header_decode"

fun header_encode :: "header \<Rightarrow> u64" where
  "header_encode (Occupied ord) = ucast (order_into_raw ord) OR 0x0000000100000000"
| "header_encode (Free l) = ucast (link_into_raw l) OR 0x0000000000000000"

definition header_write_into ::
  "'m memory_ops \<Rightarrow> header \<Rightarrow> 'm \<Rightarrow> u32 \<Rightarrow> alloc_error + 'm" where
  "header_write_into M h mem header_ptr = write_le_u64 M mem header_ptr (header_encode h)"

fun into_occupied :: "header \<Rightarrow> order option" where
  "into_occupied (Occupied ord) = Some ord"
| "into_occupied _ = None"

fun into_free :: "header \<Rightarrow> link option" where
  "into_free (Free l) = Some l"
| "into_free _ = None"

section \<open>Free lists and the allocator state\<close>

type_synonym free_lists = "link list"

definition free_lists_new :: free_lists where
  "free_lists_new = replicate N_ORDERS Link_Nil"

text \<open>Indexing the array of heads panics out of range.\<close>

definition free_lists_index :: "free_lists \<Rightarrow> order \<Rightarrow> alloc_error + link" where
  "free_lists_index heads ord =
     (let i = unat (order_into_raw ord)
      in if i < length heads then Inr (heads ! i) else Inl Panic)"

definition free_lists_replace :: "free_lists \<Rightarrow> order \<Rightarrow> link \<Rightarrow> alloc_error + link \<times> free_lists" where
  "free_lists_replace heads ord new =
     bindR (free_lists_index heads ord)
       (\<lambda>prev. Inr (prev, heads[unat (order_into_raw ord) := new]))"

record allocation_stats =
  bytes_allocated :: u32
  bytes_allocated_peak :: u32
  bytes_allocated_sum :: u128
  address_space_used :: u32

record allocator =
  original_heap_base :: u32
  bumper :: u32
  free_lists :: free_lists
  poisoned :: bool
  last_observed_memory_size :: u32
  stats :: allocation_stats

definition allocator_new :: "u32 \<Rightarrow> allocator" where
  "allocator_new heap_base =
     (let aligned_heap_base = (heap_base + ALIGNMENT - 1) div ALIGNMENT * ALIGNMENT
      in \<lparr>original_heap_base = aligned_heap_base, bumper = aligned_heap_base,
          free_lists = free_lists_new, poisoned = False, last_observed_memory_size = 0,
          stats = \<lparr>bytes_allocated = 0, bytes_allocated_peak = 0,
                   bytes_allocated_sum = 0, address_space_used = 0\<rparr>\<rparr>)"

definition bump :: "u32 \<Rightarrow> u32 \<Rightarrow> u32 \<Rightarrow> alloc_error + u32 \<times> u32" where
  "bump bumper0 sz heap_end =
     (if bumper0 + sz > heap_end then Inl AllocatorOutOfSpace
      else Inr (bumper0, bumper0 + sz))"

definition observe_memory_size :: "'m memory_ops \<Rightarrow> u32 \<Rightarrow> 'm \<Rightarrow> alloc_error + u32" where
  "observe_memory_size M last_observed mem =
     bindR (msize M mem) (\<lambda>sz. if sz < last_observed then Inl MemoryShrinked else Inr sz)"

text \<open>Dropping an armed \<open>PoisonBomb\<close>.\<close>

definition poison :: "allocator \<Rightarrow> allocator" where
  "poison a = a\<lparr>poisoned := True\<rparr>"

text \<open>The \<open>match self.free_lists[order]\<close> of \<open>allocate\<close>: reuse the head of the
  free list or bump. State changes made before an error stay.\<close>

definition take_header ::
  "'m memory_ops \<Rightarrow> allocator \<Rightarrow> 'm \<Rightarrow> order \<Rightarrow> (alloc_error + u32) \<times> allocator" where
  "take_header M a mem ord =
     (case free_lists_index (free_lists a) ord of
        Inl e \<Rightarrow> (Inl e, a)
      | Inr (Link_Ptr header_ptr) \<Rightarrow>
          (case msize M mem of
             Inl e \<Rightarrow> (Inl e, a)
           | Inr sz \<Rightarrow>
               if \<not> header_ptr + order_size ord + HEADER_SIZE \<le> sz then (Inl Panic, a)
               else
                 (case bindR (header_read_from M mem header_ptr)
                         (\<lambda>h. ok_or (into_free h) (Other ''free list points to a occupied header'')) of
                    Inl e \<Rightarrow> (Inl e, a)
                  | Inr next_free \<Rightarrow>
                      (Inr header_ptr,
                       a\<lparr>free_lists := (free_lists a)[unat (order_into_raw ord) := next_free]\<rparr>)))
      | Inr Link_Nil \<Rightarrow>
          (case bindR (msize M mem) (\<lambda>sz. bump (bumper a) (order_size ord + HEADER_SIZE) sz) of
             Inl e \<Rightarrow> (Inl e, a)
           | Inr (res, bumper') \<Rightarrow> (Inr res, a\<lparr>bumper := bumper'\<rparr>)))"

definition stats_after_allocate :: "allocator \<Rightarrow> order \<Rightarrow> allocation_stats" where
  "stats_after_allocate a ord =
     (let s = stats a;
          ba = bytes_allocated s + (order_size ord + HEADER_SIZE)
      in \<lparr>bytes_allocated = ba,
          bytes_allocated_peak = max (bytes_allocated_peak s) ba,
          bytes_allocated_sum = bytes_allocated_sum s + ucast (order_size ord + HEADER_SIZE),
          address_space_used = bumper a - original_heap_base a\<rparr>)"

definition allocate ::
  "'m memory_ops \<Rightarrow> allocator \<Rightarrow> 'm \<Rightarrow> u32 \<Rightarrow> (alloc_error + u32) \<times> allocator \<times> 'm" where
  "allocate M a mem sz =
     (if poisoned a then (Inl (Other ''the allocator has been poisoned''), a, mem)
      else case observe_memory_size M (last_observed_memory_size a) mem of
        Inl e \<Rightarrow> (Inl e, poison a, mem)
      | Inr observed \<Rightarrow>
          let a1 = a\<lparr>last_observed_memory_size := observed\<rparr> in
          (case order_from_size sz of
             Inl e \<Rightarrow> (Inl e, poison a1, mem)
           | Inr ord \<Rightarrow>
               (case take_header M a1 mem ord of
                  (Inl e, a2) \<Rightarrow> (Inl e, poison a2, mem)
                | (Inr header_ptr, a2) \<Rightarrow>
                    (case header_write_into M (Occupied ord) mem header_ptr of
                       Inl e \<Rightarrow> (Inl e, poison a2, mem)
                     | Inr mem' \<Rightarrow>
                         (Inr (header_ptr + HEADER_SIZE),
                          a2\<lparr>stats := stats_after_allocate a2 ord\<rparr>, mem')))))"

definition deallocate ::
  "'m memory_ops \<Rightarrow> allocator \<Rightarrow> 'm \<Rightarrow> u32 \<Rightarrow> (alloc_error + unit) \<times> allocator \<times> 'm" where
  "deallocate M a mem ptr =
     (if poisoned a then (Inl (Other ''the allocator has been poisoned''), a, mem)
      else case observe_memory_size M (last_observed_memory_size a) mem of
        Inl e \<Rightarrow> (Inl e, poison a, mem)
      | Inr observed \<Rightarrow>
          let a1 = a\<lparr>last_observed_memory_size := observed\<rparr> in
          (case ok_or (checked_sub32 ptr HEADER_SIZE) (Other ''Invalid pointer for deallocation'') of
             Inl e \<Rightarrow> (Inl e, poison a1, mem)
           | Inr header_ptr \<Rightarrow>
               (case bindR (header_read_from M mem header_ptr)
                       (\<lambda>h. ok_or (into_occupied h) (Other ''the allocation points to an empty header'')) of
                  Inl e \<Rightarrow> (Inl e, poison a1, mem)
                | Inr ord \<Rightarrow>
                    (case free_lists_replace (free_lists a1) ord (Link_Ptr header_ptr) of
                       Inl e \<Rightarrow> (Inl e, poison a1, mem)
                     | Inr (prev_head, fl) \<Rightarrow>
                         let a2 = a1\<lparr>free_lists := fl\<rparr> in
                         (case header_write_into M (Free prev_head) mem header_ptr of
                            Inl e \<Rightarrow> (Inl e, poison a2, mem)
                          | Inr mem' \<Rightarrow>
                              (case checked_sub32 (bytes_allocated (stats a2))
                                      (order_size ord + HEADER_SIZE) of
                                 None \<Rightarrow>
                                   (Inl (Other ''underflow of the currently allocated bytes count''),
                                    poison a2, mem')
                               | Some ba \<Rightarrow>
                                   (Inr (), a2\<lparr>stats := (stats a2)\<lparr>bytes_allocated := ba\<rparr>\<rparr>,
                                    mem')))))))"

section \<open>The byte slice as a memory\<close>

definition heap_range :: "u32 \<Rightarrow> u32 \<Rightarrow> nat \<Rightarrow> (nat \<times> nat) option" where
  "heap_range offset len heap_len =
     (case checked_add32 offset len of
        None \<Rightarrow> None
      | Some e \<Rightarrow> if unat e \<le> heap_len then Some (unat offset, unat e) else None)"

definition slice_read_le_u64 :: "u8 list \<Rightarrow> u32 \<Rightarrow> alloc_error + u64" where
  "slice_read_le_u64 mem ptr =
     bindR (ok_or (heap_range ptr 8 (length mem)) (Other ''read out of heap bounds''))
       (\<lambda>(s, e). Inr (from_le_bytes (subslice mem s (e - s))))"

definition slice_write_le_u64 :: "u8 list \<Rightarrow> u32 \<Rightarrow> u64 \<Rightarrow> alloc_error + u8 list" where
  "slice_write_le_u64 mem ptr val =
     bindR (ok_or (heap_range ptr 8 (length mem)) (Other ''write out of heap bounds''))
       (\<lambda>(s, e). Inr (overwrite mem s (to_le_bytes val)))"

definition slice_size :: "u8 list \<Rightarrow> alloc_error + u32" where
  "slice_size mem = (if int (length mem) < 2 ^ 32 then Inr (of_nat (length mem)) else Inl Panic)"

definition slice_memory :: "u8 list memory_ops" where
  "slice_memory = \<lparr>read_le_u64 = slice_read_le_u64, write_le_u64 = slice_write_le_u64,
                   msize = slice_size\<rparr>"

section \<open>Orders and headers: bounds and round trips\<close>

lemmas alloc_consts = ALIGNMENT_def HEADER_SIZE_def N_ORDERS_def MIN_POSSIBLE_ALLOCATION_def
  MAX_POSSIBLE_ALLOCATION_def NIL_MARKER_def

lemma find_upt_Some:
  "find P [0..<n] = Some i \<longleftrightarrow> i < n \<and> P i \<and> (\<forall>j<i. \<not> P j)"
  by (auto simp: find_Some_iff)

lemma trailing_zeros_push_bit: "i < 32 \<Longrightarrow> trailing_zeros (push_bit i 1) = of_nat i"
proof -
  assume i: "i < 32"
  have "find (bit (push_bit i 1 :: u32)) [0..<32] = Some i"
    using i by (auto simp: find_upt_Some bit_simps)
  then show ?thesis by (simp add: trailing_zeros_def)
qed

lemma trailing_zeros_min: "trailing_zeros MIN_POSSIBLE_ALLOCATION = 3"
  using trailing_zeros_push_bit [of 3] by (simp add: alloc_consts)

lemma next_power_of_two_eq:
  assumes "unat x \<le> 2 ^ i" "i < 32" "\<forall>j<i. 2 ^ j < unat x"
  shows "next_power_of_two x = push_bit i 1"
proof -
  have "uint x \<le> 2 ^ j \<longleftrightarrow> unat x \<le> 2 ^ j" for j
    using of_nat_le_iff [where 'a = int, of "unat x" "2 ^ j"] by simp
  then have "find (\<lambda>i. uint x \<le> 2 ^ i) [0..<32] = Some i"
    using assms by (auto simp: find_upt_Some not_le)
  then show ?thesis by (simp add: next_power_of_two_def)
qed

lemma order_size_nat:
  assumes "k < 23"
  shows "unat (order_size (Order (of_nat k))) = 8 * 2 ^ k"
proof -
  have k: "unat (of_nat k :: u32) = k" using assms by (simp add: unat_of_nat32)
  have "(2::nat) ^ k \<le> 2 ^ 22" using assms by (intro power_increasing) simp_all
  then have "8 * 2 ^ k < (4294967296 :: nat)" by simp
  moreover have "order_size (Order (of_nat k)) = of_nat (8 * 2 ^ k)"
    by (simp add: order_size_def alloc_consts k push_bit_eq_mult mult.commute)
  ultimately show ?thesis by (simp only: unat_of_nat32)
qed

lemma least_power_of_two:
  assumes "8 \<le> n" "n \<le> 33554432"
  obtains i where "3 \<le> i" "i \<le> 25" "n \<le> 2 ^ i" "\<forall>j<i. 2 ^ j < (n::nat)"
proof -
  define i where "i = (LEAST i. n \<le> 2 ^ i)"
  have ex: "n \<le> 2 ^ 25" using assms by simp
  have "n \<le> 2 ^ i" unfolding i_def by (rule LeastI [of _ 25]) (rule ex)
  moreover have "i \<le> 25" unfolding i_def by (rule Least_le) (rule ex)
  moreover have least: "\<forall>j<i. 2 ^ j < n" unfolding i_def by (metis not_less_Least not_le)
  moreover have "3 \<le> i"
  proof (rule ccontr)
    assume "\<not> 3 \<le> i"
    then have "(2::nat) ^ i \<le> 2 ^ 2" by (intro power_increasing) simp_all
    with \<open>n \<le> 2 ^ i\<close> assms show False by simp
  qed
  ultimately show ?thesis using that by blast
qed

lemma order_from_size_Inr:
  assumes "order_from_size sz = Inr ord"
  obtains k where "k < 23" "ord = Order (of_nat k)" "unat sz \<le> 8 * 2 ^ k"
    "k = 0 \<or> 8 * 2 ^ (k - 1) < unat sz"
proof -
  define c where "c = (if sz < MIN_POSSIBLE_ALLOCATION then MIN_POSSIBLE_ALLOCATION else sz)"
  from assms have sz: "unat sz \<le> 33554432"
    by (auto simp: order_from_size_def alloc_consts Let_def word_less_nat_alt split: if_splits)
  have c: "8 \<le> unat c" "unat c \<le> 33554432" "unat sz \<le> unat c" "unat c = 8 \<or> c = sz"
    using sz by (auto simp: c_def alloc_consts word_less_nat_alt)
  obtain i where i: "3 \<le> i" "i \<le> 25" "unat c \<le> 2 ^ i" "\<forall>j<i. 2 ^ j < unat c"
    using c by (blast intro: least_power_of_two)
  have "next_power_of_two c = push_bit i 1"
    using i by (intro next_power_of_two_eq) auto
  then have "trailing_zeros (next_power_of_two c) = of_nat i"
    using trailing_zeros_push_bit [of i] i by (simp del: push_bit_of_1)
  with assms have ord: "ord = Order (of_nat i - 3)"
    by (auto simp: order_from_size_def Let_def c_def trailing_zeros_min split: if_splits)
  obtain k where k: "i = k + 3" using i(1) by (metis add.commute le_iff_add)
  have "8 * 2 ^ (k - 1) < unat sz" if "k \<noteq> 0"
  proof -
    from that obtain j where j: "k = Suc j" by (cases k) auto
    have "2 ^ (j + 3) < unat c" using i(4) k j by simp
    moreover have "(8::nat) \<le> 2 ^ (j + 3)" by (simp add: power_add)
    ultimately have "2 ^ (j + 3) < unat c" "unat c \<noteq> 8" by linarith+
    then show ?thesis using c(4) j by (auto simp: power_add)
  qed
  with i c k ord show ?thesis by (intro that [of k]) (auto simp: power_add)
qed

lemma order_from_size_bounds:
  assumes "order_from_size sz = Inr (Order (of_nat k))" "k < 23"
  shows "unat sz \<le> 8 * 2 ^ k" "k = 0 \<or> 8 * 2 ^ (k - 1) < unat sz"
proof -
  obtain j where j: "j < 23" "Order (of_nat k) = Order (of_nat j)" "unat sz \<le> 8 * 2 ^ j"
      "j = 0 \<or> 8 * 2 ^ (j - 1) < unat sz"
    by (rule order_from_size_Inr [OF assms(1)])
  then have "unat (of_nat k :: u32) = unat (of_nat j :: u32)" by simp
  then have "k = j" using assms(2) j(1) by (simp only: unat_of_nat32)
  with j show "unat sz \<le> 8 * 2 ^ k" "k = 0 \<or> 8 * 2 ^ (k - 1) < unat sz" by simp_all
qed

lemma order_from_size_Inl:
  "order_from_size sz = Inl e \<longleftrightarrow> e = RequestedAllocationTooLarge \<and> unat sz > 33554432"
  by (auto simp: order_from_size_def alloc_consts Let_def word_less_nat_alt split: if_splits)

fun header_valid :: "header \<Rightarrow> bool" where
  "header_valid (Occupied ord) = (unat (order_into_raw ord) < N_ORDERS)"
| "header_valid (Free l) = (l \<noteq> Link_Ptr NIL_MARKER)"

lemma bit_occupied_mask: "bit (0x100000000 :: int) n \<longleftrightarrow> n = 32"
proof -
  have "bit (2 ^ 32 :: int) n \<longleftrightarrow> n = 32"
    by (simp only: bit_simps) auto
  then show ?thesis by simp
qed

lemma ucast_or_mask: "ucast ((ucast x :: u64) OR 0x100000000) = (x :: u32)"
  by (rule bit_word_eqI) (auto simp: bit_simps bit_occupied_mask)

lemma and_mask: "((ucast (x :: u32) :: u64) AND 0x100000000) = 0"
    "(((ucast x :: u64) OR 0x100000000) AND 0x100000000) = 0x100000000"
  by (rule bit_word_eqI, auto simp: bit_simps bit_occupied_mask dest: bit_imp_le_length)+

lemma ucast_down_up [simp]: "ucast (ucast (x :: u32) :: u64) = x"
  by (rule bit_word_eqI) (auto simp: bit_simps)

lemma header_decode_encode:
  assumes "header_valid h"
  shows "header_decode (header_encode h) = Inr h"
proof (cases h)
  case (Free l)
  with assms show ?thesis
    by (cases l) (auto simp: header_decode_def and_mask link_from_raw_def Let_def)
next
  case (Occupied ord)
  with assms show ?thesis
    by (auto simp: header_decode_def and_mask ucast_or_mask order_from_raw_def
        word_less_nat_alt N_ORDERS_def)
qed


section \<open>Heap layout\<close>

text \<open>
  The heap between the base and the bump pointer is a sequence of chunks, an
  8-byte header followed by \<open>8 * 2^k\<close> bytes for a chunk of order \<open>k\<close>.
  \<open>place b ks\<close> lists the chunks of orders \<open>ks\<close> from address \<open>b\<close> on.
\<close>

definition csize :: "nat \<Rightarrow> nat" where
  "csize k = 8 * 2 ^ k + 8"

fun place :: "nat \<Rightarrow> nat list \<Rightarrow> (nat \<times> nat) list" where
  "place b [] = []"
| "place b (k # ks) = (b, k) # place (b + csize k) ks"

definition chunks_disjoint :: "nat \<times> nat \<Rightarrow> nat \<times> nat \<Rightarrow> bool" where
  "chunks_disjoint c d \<longleftrightarrow>
     fst c + csize (snd c) \<le> fst d \<or> fst d + csize (snd d) \<le> fst c"

lemma csize_ge: "16 \<le> csize k"
  by (simp add: csize_def)

lemma csize_le: "k < 23 \<Longrightarrow> csize k \<le> 33554440"
  using power_increasing [of k 22 "2::nat"] by (simp add: csize_def)

lemma csize_dvd [simp]: "8 dvd csize k"
  by (simp add: csize_def dvd_add)

lemma place_append: "place b (ks @ [k]) = place b ks @ [(b + sum_list (map csize ks), k)]"
  by (induction ks arbitrary: b) (auto simp: add.assoc)

lemma place_bounds:
  "(p, k) \<in> set (place b ks) \<Longrightarrow>
     b \<le> p \<and> p + csize k \<le> b + sum_list (map csize ks) \<and> k \<in> set ks"
  by (induction ks arbitrary: b) fastforce+

lemma place_dvd: "(p, k) \<in> set (place b ks) \<Longrightarrow> 8 dvd b \<Longrightarrow> 8 dvd p"
  by (induction ks arbitrary: b) (auto simp: dvd_add)

lemma place_disjoint:
  "c \<in> set (place b ks) \<Longrightarrow> d \<in> set (place b ks) \<Longrightarrow> c \<noteq> d \<Longrightarrow> chunks_disjoint c d"
proof (induction ks arbitrary: b)
  case (Cons k ks)
  have tl: "b + csize k \<le> fst e" if "e \<in> set (place (b + csize k) ks)" for e
    using place_bounds [of "fst e" "snd e"] that by simp
  from Cons show ?case
    by (auto simp: chunks_disjoint_def dest: tl)
qed simp

lemma distinct_place: "distinct (place b ks)"
proof (induction ks arbitrary: b)
  case (Cons k ks)
  have "(b, k) \<notin> set (place (b + csize k) ks)"
    using place_bounds [of b k "b + csize k" ks] csize_ge [of k] by auto
  with Cons show ?case by simp
qed simp

lemma sum_place: "(\<Sum>c\<in>set (place b ks). csize (snd c)) = sum_list (map csize ks)"
proof -
  have "map (\<lambda>c. csize (snd c)) (place b ks) = map csize ks"
    by (induction ks arbitrary: b) auto
  then show ?thesis
    by (simp add: sum.distinct_set_conv_list distinct_place)
qed

text \<open>A free list: the links stored in the headers lead through the chunks
  at \<open>ps\<close> and end in the nil marker.\<close>

fun chain :: "(nat \<Rightarrow> u64) \<Rightarrow> link \<Rightarrow> nat list \<Rightarrow> bool" where
  "chain w l [] \<longleftrightarrow> l = Link_Nil"
| "chain w l (p # ps) \<longleftrightarrow>
     l = Link_Ptr (of_nat p) \<and>
     (case header_decode (w p) of Inr (Free l') \<Rightarrow> chain w l' ps | _ \<Rightarrow> False)"

lemma chain_cong: "(\<And>p. p \<in> set ps \<Longrightarrow> w' p = w p) \<Longrightarrow> chain w' l ps = chain w l ps"
  by (induction ps arbitrary: l) (auto split: sum.splits header.splits)

lemma chain_free: "chain w l ps \<Longrightarrow> p \<in> set ps \<Longrightarrow> \<exists>l'. header_decode (w p) = Inr (Free l')"
  by (induction ps arbitrary: l) (auto split: sum.splits header.splits)

definition free_chunks :: "(nat \<Rightarrow> nat list) \<Rightarrow> (nat \<times> nat) set" where
  "free_chunks fr = {(p, k). k < N_ORDERS \<and> p \<in> set (fr k)}"

text \<open>
  The heap invariant: \<open>n\<close> is the size of the memory, \<open>w\<close> the 64-bit word
  at an address, \<open>ks\<close> the orders of all chunks ever bumped, \<open>live\<close> the
  chunks handed out and not returned, \<open>fr k\<close> the addresses on the free
  list of order \<open>k\<close>.
\<close>

definition heap_inv ::
  "allocator \<Rightarrow> nat \<Rightarrow> (nat \<Rightarrow> u64) \<Rightarrow> nat list \<Rightarrow> (nat \<times> nat) set \<Rightarrow> (nat \<Rightarrow> nat list) \<Rightarrow> bool" where
  "heap_inv a n w ks live fr \<longleftrightarrow>
     \<not> poisoned a \<and> length (free_lists a) = N_ORDERS \<and>
     8 dvd unat (original_heap_base a) \<and>
     unat (bumper a) = unat (original_heap_base a) + sum_list (map csize ks) \<and>
     unat (bumper a) \<le> n \<and> unat (last_observed_memory_size a) \<le> n \<and>
     (\<forall>k\<in>set ks. k < N_ORDERS) \<and>
     set (place (unat (original_heap_base a)) ks) = live \<union> free_chunks fr \<and>
     live \<inter> free_chunks fr = {} \<and>
     (\<forall>k<N_ORDERS. distinct (fr k) \<and> chain w (free_lists a ! k) (fr k)) \<and>
     (\<forall>(p, k)\<in>live. header_decode (w p) = Inr (Occupied (Order (of_nat k)))) \<and>
     unat (bytes_allocated (stats a)) = (\<Sum>c\<in>live. csize (snd c))"


lemma heap_inv_chunks:
  "heap_inv a n w ks live fr \<Longrightarrow>
     live \<union> free_chunks fr = set (place (unat (original_heap_base a)) ks)"
  by (simp add: heap_inv_def)

lemma heap_inv_chunk:
  assumes "heap_inv a n w ks live fr" "(p, k) \<in> live \<union> free_chunks fr"
  shows "k < 23" "p + csize k \<le> unat (bumper a)" "p + csize k \<le> n" "8 dvd p"
    "unat (original_heap_base a) \<le> p"
proof -
  have c: "(p, k) \<in> set (place (unat (original_heap_base a)) ks)"
    using assms by (simp add: heap_inv_def)
  then show "p + csize k \<le> unat (bumper a)" "unat (original_heap_base a) \<le> p"
    using assms(1) by (auto simp: heap_inv_def dest: place_bounds)
  then show "p + csize k \<le> n" using assms(1) by (simp add: heap_inv_def)
  show "8 dvd p" using assms(1) c by (auto simp: heap_inv_def dest: place_dvd)
  have "k \<in> set ks" using place_bounds [OF c] by simp
  then show "k < 23" using assms(1) by (simp add: heap_inv_def N_ORDERS_def)
qed

lemma heap_inv_disjoint:
  assumes "heap_inv a n w ks live fr" "c \<in> live \<union> free_chunks fr" "d \<in> live \<union> free_chunks fr"
    "c \<noteq> d"
  shows "chunks_disjoint c d"
  using assms(2-4) unfolding heap_inv_chunks [OF assms(1)] by (rule place_disjoint)

lemma heap_inv_finite: "heap_inv a n w ks live fr \<Longrightarrow> finite (live \<union> free_chunks fr)"
  by (metis heap_inv_def finite_set)

lemma heap_inv_sum:
  assumes "heap_inv a n w ks live fr"
  shows "(\<Sum>c\<in>live. csize (snd c)) \<le> sum_list (map csize ks)"
proof -
  have "(\<Sum>c\<in>live. csize (snd c)) \<le> (\<Sum>c\<in>live \<union> free_chunks fr. csize (snd c))"
    using heap_inv_finite [OF assms] by (intro sum_mono2) auto
  also have "\<dots> = sum_list (map csize ks)"
    unfolding heap_inv_chunks [OF assms] by (rule sum_place)
  finally show ?thesis .
qed

lemma heap_inv_sum_insert:
  assumes "heap_inv a n w ks live fr" "c \<in> free_chunks fr"
  shows "(\<Sum>c\<in>live. csize (snd c)) + csize (snd c) \<le> sum_list (map csize ks)"
proof -
  have fin: "finite (live \<union> free_chunks fr)" by (rule heap_inv_finite [OF assms(1)])
  have "c \<notin> live" using assms by (auto simp: heap_inv_def)
  then have "(\<Sum>c\<in>live. csize (snd c)) + csize (snd c) = (\<Sum>c\<in>insert c live. csize (snd c))"
    using fin by simp
  also have "\<dots> \<le> (\<Sum>c\<in>live \<union> free_chunks fr. csize (snd c))"
    using fin assms by (intro sum_mono2) auto
  also have "\<dots> = sum_list (map csize ks)"
    unfolding heap_inv_chunks [OF assms(1)] by (rule sum_place)
  finally show ?thesis .
qed

text \<open>Only the size of the memory and the words in the chunk headers matter:
  a client may grow the memory and write anything between the headers.\<close>

lemma heap_inv_frame:
  assumes "heap_inv a n w ks live fr" "n \<le> n'"
    "\<And>p k. (p, k) \<in> live \<union> free_chunks fr \<Longrightarrow> w' p = w p"
  shows "heap_inv a n' w' ks live fr"
proof -
  have "chain w' (free_lists a ! k) (fr k) = chain w (free_lists a ! k) (fr k)" if "k < N_ORDERS" for k
    using assms(3) that by (intro chain_cong) (auto simp: free_chunks_def)
  moreover have "\<forall>(p, k)\<in>live. header_decode (w' p) = Inr (Occupied (Order (of_nat k)))"
    using assms(1,3) by (fastforce simp: heap_inv_def)
  ultimately show ?thesis
    using assms(1,2) unfolding heap_inv_def by (meson order_trans)
qed

text \<open>Words at the headers of the other chunks survive a write to one header.\<close>

definition writes_only :: "nat \<Rightarrow> nat \<Rightarrow> (nat \<Rightarrow> u64) \<Rightarrow> (nat \<Rightarrow> u64) \<Rightarrow> bool" where
  "writes_only p n w w' \<longleftrightarrow> (\<forall>q. (q + 8 \<le> p \<or> p + 8 \<le> q) \<and> q + 8 \<le> n \<longrightarrow> w' q = w q)"

lemma heap_inv_other_header:
  assumes "heap_inv a n w ks live fr" "(p, k) \<in> live \<union> free_chunks fr"
    "(q, j) \<in> live \<union> free_chunks fr" "(q, j) \<noteq> (p, k)" "writes_only p n w w'"
  shows "w' q = w q" "q \<noteq> p"
proof -
  have "chunks_disjoint (q, j) (p, k)" by (rule heap_inv_disjoint [OF assms(1,3,2,4)])
  then have "q + 8 \<le> p \<or> p + 8 \<le> q"
    using csize_ge [of j] csize_ge [of k] by (auto simp: chunks_disjoint_def)
  moreover have "q + 8 \<le> n"
    using heap_inv_chunk(3) [OF assms(1,3)] csize_ge [of j] by linarith
  ultimately show "w' q = w q" "q \<noteq> p" using assms(5) by (auto simp: writes_only_def)
qed

lemma unat_csize: "k < 23 \<Longrightarrow> unat (order_size (Order (of_nat k)) + HEADER_SIZE) = csize k"
  using csize_le [of k] by (simp add: unat_add32 order_size_nat csize_def alloc_consts)

lemma unat_add_csize:
  "k < 23 \<Longrightarrow> unat b + csize k < 4294967296 \<Longrightarrow>
     unat (b + (order_size (Order (of_nat k)) + HEADER_SIZE)) = unat b + csize k"
  using unat_add32_small [of b "order_size (Order (of_nat k)) + HEADER_SIZE"] by (simp add: unat_csize)

lemma heap_inv_alloc_reuse:
  assumes inv: "heap_inv a n w ks live fr" and n: "n < 2 ^ 32" and k: "k < 23" "fr k = p # ps"
    and l: "chain w l ps" and w': "writes_only p n w w'"
      "header_decode (w' p) = Inr (Occupied (Order (of_nat k)))"
    and a': "a' = a\<lparr>free_lists := (free_lists a)[k := l], stats := s\<rparr>"
      "bytes_allocated s = bytes_allocated (stats a) + (order_size (Order (of_nat k)) + HEADER_SIZE)"
  shows "heap_inv a' n w' ks (insert (p, k) live) (fr(k := ps))"
proof -
  have c: "(p, k) \<in> free_chunks fr" using k by (simp add: free_chunks_def N_ORDERS_def)
  have notlive: "(p, k) \<notin> live" using inv c by (auto simp: heap_inv_def)
  have dist: "p \<notin> set ps" using inv k by (auto simp: heap_inv_def N_ORDERS_def)
  have fc: "free_chunks fr = insert (p, k) (free_chunks (fr(k := ps)))" "(p, k) \<notin> free_chunks (fr(k := ps))"
    using k dist by (auto simp: free_chunks_def N_ORDERS_def split: if_splits)
  have other: "w' q = w q" if "(q, j) \<in> live \<union> free_chunks (fr(k := ps))" for q j
    using heap_inv_other_header [OF inv _ _ _ w'(1)] c that fc notlive by (metis UnCI UnE insert_iff)
  have chains: "\<forall>j<N_ORDERS. chain w' (free_lists a' ! j) ((fr(k := ps)) j)"
  proof (intro allI impI)
    fix j assume j: "j < N_ORDERS"
    have "chain w (free_lists a' ! j) ((fr(k := ps)) j)"
      using inv l j k by (auto simp: a' heap_inv_def nth_list_update)
    moreover have "(q, j) \<in> free_chunks (fr(k := ps))" if "q \<in> set ((fr(k := ps)) j)" for q
      using that j by (simp add: free_chunks_def)
    ultimately show "chain w' (free_lists a' ! j) ((fr(k := ps)) j)"
      using other chain_cong by (metis UnI2)
  qed
  have sum: "unat (bytes_allocated s) = (\<Sum>c\<in>insert (p, k) live. csize (snd c))"
  proof -
    have "(\<Sum>c\<in>live. csize (snd c)) + csize k < 4294967296"
      using heap_inv_sum_insert [OF inv c] inv n by (simp add: heap_inv_def)
    moreover have "finite live" using heap_inv_finite [OF inv] by simp
    ultimately show ?thesis
      using inv notlive by (simp add: a'(2) unat_add_csize [OF k(1)] heap_inv_def)
  qed
  have "\<forall>(q, j)\<in>insert (p, k) live. header_decode (w' q) = Inr (Occupied (Order (of_nat j)))"
    using w'(2) other inv by (fastforce simp: heap_inv_def)
  moreover have "distinct ((fr(k := ps)) j)" if "j < N_ORDERS" for j
    using inv k that by (auto simp: heap_inv_def)
  moreover have "insert (p, k) live \<inter> free_chunks (fr(k := ps)) = {}"
    using inv fc by (auto simp: heap_inv_def)
  moreover have "set (place (unat (original_heap_base a)) ks) = insert (p, k) live \<union> free_chunks (fr(k := ps))"
    using heap_inv_chunks [OF inv] fc(1) by auto
  ultimately show ?thesis
    using inv chains sum by (simp add: heap_inv_def a'(1))
qed

lemma heap_inv_alloc_bump:
  assumes inv: "heap_inv a n w ks live fr" and n: "n < 2 ^ 32" and k: "k < 23"
    and p: "p = unat (bumper a)" "p + csize k \<le> n" and w': "writes_only p n w w'"
      "header_decode (w' p) = Inr (Occupied (Order (of_nat k)))"
    and a': "a' = a\<lparr>bumper := b, stats := s\<rparr>" "unat b = p + csize k"
      "bytes_allocated s = bytes_allocated (stats a) + (order_size (Order (of_nat k)) + HEADER_SIZE)"
  shows "heap_inv a' n w' (ks @ [k]) (insert (p, k) live) fr" "(p, k) \<notin> live \<union> free_chunks fr"
proof -
  have old: "w' q = w q \<and> q \<noteq> p" if "(q, j) \<in> live \<union> free_chunks fr" for q j
    using heap_inv_chunk(2,3) [OF inv that] csize_ge [of j] p w'(1) by (auto simp: writes_only_def)
  then show new: "(p, k) \<notin> live \<union> free_chunks fr" by blast
  have inv': "heap_inv a n w' ks live fr" by (rule heap_inv_frame [OF inv]) (use old in auto)
  have pl: "set (place (unat (original_heap_base a)) (ks @ [k])) = insert (p, k) live \<union> free_chunks fr"
    using heap_inv_chunks [OF inv] inv by (auto simp: place_append p heap_inv_def)
  have "unat (bytes_allocated s) = (\<Sum>c\<in>insert (p, k) live. csize (snd c))"
  proof -
    have "(\<Sum>c\<in>live. csize (snd c)) + csize k < 4294967296"
      using heap_inv_sum [OF inv] inv n p by (simp add: heap_inv_def)
    moreover have "finite live" using heap_inv_finite [OF inv] by simp
    ultimately show ?thesis
      using inv new by (simp add: a'(3) heap_inv_def unat_add_csize [OF k])
  qed
  then show "heap_inv a' n w' (ks @ [k]) (insert (p, k) live) fr"
    using inv' new pl k p w'(2) by (auto simp: heap_inv_def a' N_ORDERS_def)
qed

lemma free_head_valid:
  assumes "heap_inv a n w ks live fr" "n < 2 ^ 32" "k < 23"
  shows "header_valid (Free (free_lists a ! k))"
proof (cases "fr k")
  case Nil
  then show ?thesis using assms by (auto simp: heap_inv_def N_ORDERS_def)
next
  case (Cons q qs)
  then have "(q, k) \<in> live \<union> free_chunks fr" using assms by (simp add: free_chunks_def N_ORDERS_def)
  then have "q < 4294967295" using heap_inv_chunk(3) [OF assms(1)] csize_ge [of k] assms(2) by fastforce
  then have "(of_nat q :: u32) \<noteq> NIL_MARKER"
    using unat_of_nat32 [of q] by (auto simp: alloc_consts dest: arg_cong [of _ _ unat])
  moreover have "free_lists a ! k = Link_Ptr (of_nat q)"
    using assms Cons by (auto simp: heap_inv_def N_ORDERS_def)
  ultimately show ?thesis by simp
qed

lemma heap_inv_dealloc:
  assumes inv: "heap_inv a n w ks live fr" and n: "n < 2 ^ 32" and pk: "(p, k) \<in> live"
    and w': "writes_only p n w w'" "header_decode (w' p) = Inr (Free (free_lists a ! k))"
    and a': "a' = a\<lparr>free_lists := (free_lists a)[k := Link_Ptr (of_nat p)], stats := s\<rparr>"
      "bytes_allocated s = bytes_allocated (stats a) - (order_size (Order (of_nat k)) + HEADER_SIZE)"
  shows "heap_inv a' n w' ks (live - {(p, k)}) (fr(k := p # fr k))"
    "csize k \<le> unat (bytes_allocated (stats a))"
proof -
  have k: "k < 23" using heap_inv_chunk(1) [OF inv] pk by blast
  have c: "(p, k) \<notin> free_chunks fr" using inv pk by (auto simp: heap_inv_def)
  then have pfr: "p \<notin> set (fr k)" using k by (simp add: free_chunks_def N_ORDERS_def)
  have fc: "free_chunks (fr(k := p # fr k)) = insert (p, k) (free_chunks fr)"
    using k by (auto simp: free_chunks_def N_ORDERS_def split: if_splits)
  have other: "w' q = w q" if "(q, j) \<in> live \<union> free_chunks fr" "(q, j) \<noteq> (p, k)" for q j
    using heap_inv_other_header [OF inv _ that w'(1)] pk by blast
  have fin: "finite live" using heap_inv_finite [OF inv] by simp
  have sum: "(\<Sum>c\<in>live. csize (snd c)) = csize k + (\<Sum>c\<in>live - {(p, k)}. csize (snd c))"
    using fin pk by (simp add: sum.remove)
  then show le: "csize k \<le> unat (bytes_allocated (stats a))"
    using inv by (simp add: heap_inv_def)
  have "unat (bytes_allocated s) = (\<Sum>c\<in>live - {(p, k)}. csize (snd c))"
    using le sum inv by (simp add: a'(2) unat_sub32 unat_csize [OF k] heap_inv_def)
  moreover have "chain w' (free_lists a' ! j) ((fr(k := p # fr k)) j)" if j: "j < N_ORDERS" for j
  proof -
    have w: "chain w (free_lists a ! j) (fr j)" using inv j by (simp add: heap_inv_def)
    have "chain w' (free_lists a ! j) (fr j) = chain w (free_lists a ! j) (fr j)"
      using other j c by (intro chain_cong) (auto simp: free_chunks_def)
    with w show ?thesis
      using inv w'(2) j by (auto simp: a'(1) heap_inv_def nth_list_update)
  qed
  moreover have "distinct ((fr(k := p # fr k)) j)" if "j < N_ORDERS" for j
    using inv that pfr by (auto simp: heap_inv_def)
  moreover have "\<forall>(q, j)\<in>live - {(p, k)}. header_decode (w' q) = Inr (Occupied (Order (of_nat j)))"
    using other inv by (fastforce simp: heap_inv_def)
  moreover have "(live - {(p, k)}) \<inter> free_chunks (fr(k := p # fr k)) = {}"
    using inv fc by (auto simp: heap_inv_def)
  moreover have "set (place (unat (original_heap_base a)) ks) =
      (live - {(p, k)}) \<union> free_chunks (fr(k := p # fr k))"
    using heap_inv_chunks [OF inv] fc pk by auto
  ultimately show "heap_inv a' n w' ks (live - {(p, k)}) (fr(k := p # fr k))"
    using inv by (simp add: heap_inv_def a'(1))
qed

section \<open>The memory interface\<close>

text \<open>What the allocator relies on of a \<open>Memory\<close>: accesses inside the memory
  succeed, a write changes the word it writes and no word apart from it, an
  access out of bounds fails.\<close>

locale linear_memory =
  fixes M :: "'m memory_ops"
    and len :: "'m \<Rightarrow> nat"
    and word_at :: "'m \<Rightarrow> nat \<Rightarrow> u64"
  assumes size_ok: "len m < 2 ^ 32 \<Longrightarrow> msize M m = Inr (of_nat (len m))"
    and size_too_big: "2 ^ 32 \<le> len m \<Longrightarrow> msize M m = Inl Panic"
    and read_ok: "unat p + 8 \<le> len m \<Longrightarrow> unat p + 8 < 2 ^ 32 \<Longrightarrow>
          read_le_u64 M m p = Inr (word_at m (unat p))"
    and read_out: "len m < unat p + 8 \<Longrightarrow> \<exists>e. read_le_u64 M m p = Inl e"
    and write_ok: "unat p + 8 \<le> len m \<Longrightarrow> unat p + 8 < 2 ^ 32 \<Longrightarrow>
          \<exists>m'. write_le_u64 M m p v = Inr m' \<and> len m' = len m \<and> word_at m' (unat p) = v \<and>
            (\<forall>q. (q + 8 \<le> unat p \<or> unat p + 8 \<le> q) \<and> q + 8 \<le> len m \<longrightarrow> word_at m' q = word_at m q)"
    and write_out: "len m < unat p + 8 \<Longrightarrow> \<exists>e. write_le_u64 M m p v = Inl e"
begin

lemma header_write:
  assumes "p + 8 \<le> len m" "len m < 2 ^ 32"
  obtains m' where "header_write_into M h m (of_nat p) = Inr m'" "len m' = len m"
    "word_at m' p = header_encode h"
    "\<And>q. q + 8 \<le> p \<or> p + 8 \<le> q \<Longrightarrow> q + 8 \<le> len m \<Longrightarrow> word_at m' q = word_at m q"
proof -
  have p: "unat (of_nat p :: u32) = p" using assms by (intro unat_of_nat32) simp
  show ?thesis
    using write_ok [of "of_nat p" m "header_encode h"] that assms
    by (auto simp: header_write_into_def p)
qed

lemma header_read:
  "p + 8 \<le> len m \<Longrightarrow> len m < 2 ^ 32 \<Longrightarrow>
     header_read_from M m (of_nat p) = header_decode (word_at m p)"
  using read_ok [of "of_nat p" m] unat_of_nat32 [of p] by (simp add: header_read_from_def)

lemma observe_ok:
  assumes "len m < 2 ^ 32" "unat lo \<le> len m"
  shows "observe_memory_size M lo m = Inr (of_nat (len m))"
  using assms unat_of_nat32 [of "len m"]
  by (simp add: observe_memory_size_def size_ok word_less_nat_alt)

lemma take_header_reuse:
  assumes inv: "heap_inv a (len m) (word_at m) ks live fr" and len: "len m < 2 ^ 32"
    and k: "k < 23" "fr k = p # ps"
  obtains l where "chain (word_at m) l ps"
    "take_header M a m (Order (of_nat k)) =
       (Inr (of_nat p), a\<lparr>free_lists := (free_lists a)[k := l]\<rparr>)"
proof -
  have c: "(p, k) \<in> live \<union> free_chunks fr" using k by (simp add: free_chunks_def N_ORDERS_def)
  have pk: "p + csize k \<le> len m" by (rule heap_inv_chunk [OF inv c])
  have "chain (word_at m) (free_lists a ! k) (p # ps)"
    using inv k by (auto simp: heap_inv_def N_ORDERS_def)
  then obtain l where l: "free_lists a ! k = Link_Ptr (of_nat p)" "chain (word_at m) l ps"
      "header_decode (word_at m p) = Inr (Free l)"
    by (auto split: sum.splits header.splits)
  have len_fl: "length (free_lists a) = 23" using inv by (simp add: heap_inv_def N_ORDERS_def)
  have uk: "unat (of_nat k :: u32) = k" using k by (simp add: unat_of_nat32)
  have "unat (of_nat p + order_size (Order (of_nat k)) + HEADER_SIZE) = p + csize k"
    using pk len k(1) by (simp add: unat_add32 unat_of_nat32 order_size_nat csize_def alloc_consts)
  then have "of_nat p + order_size (Order (of_nat k)) + HEADER_SIZE \<le> (of_nat (len m) :: u32)"
    using pk len by (simp add: word_le_nat_alt unat_of_nat32)
  moreover have "header_read_from M m (of_nat p) = Inr (Free l)"
    using header_read [of p m] pk len l(3) csize_ge [of k] by simp
  ultimately show ?thesis
    using l len_fl uk k(1) size_ok [OF len]
    by (intro that [of l]) (simp_all add: take_header_def free_lists_index_def)
qed

lemma take_header_bump:
  assumes inv: "heap_inv a (len m) (word_at m) ks live fr" and len: "len m + 33554440 < 2 ^ 32"
    and k: "k < 23" "fr k = []"
  shows "take_header M a m (Order (of_nat k)) =
     (if unat (bumper a) + csize k \<le> len m
      then (Inr (bumper a), a\<lparr>bumper := bumper a + (order_size (Order (of_nat k)) + HEADER_SIZE)\<rparr>)
      else (Inl AllocatorOutOfSpace, a))"
    and "unat (bumper a + (order_size (Order (of_nat k)) + HEADER_SIZE)) = unat (bumper a) + csize k"
proof -
  have nil: "free_lists a ! k = Link_Nil"
    using inv k by (auto simp: heap_inv_def N_ORDERS_def)
  have len_fl: "length (free_lists a) = 23" using inv by (simp add: heap_inv_def N_ORDERS_def)
  have uk: "unat (of_nat k :: u32) = k" using k by (simp add: unat_of_nat32)
  have "unat (bumper a) \<le> len m" using inv by (simp add: heap_inv_def)
  then have "unat (bumper a) + csize k < 4294967296" using len csize_le [OF k(1)] by simp
  then show sum: "unat (bumper a + (order_size (Order (of_nat k)) + HEADER_SIZE)) = unat (bumper a) + csize k"
    using unat_add_csize [OF k(1)] by simp
  have len32: "len m < 2 ^ 32" using len by simp
  then have "unat (of_nat (len m) :: u32) = len m" by (simp add: unat_of_nat32)
  then show "take_header M a m (Order (of_nat k)) =
     (if unat (bumper a) + csize k \<le> len m
      then (Inr (bumper a), a\<lparr>bumper := bumper a + (order_size (Order (of_nat k)) + HEADER_SIZE)\<rparr>)
      else (Inl AllocatorOutOfSpace, a))"
    using nil len_fl uk k(1) size_ok [OF len32] sum
    by (simp add: take_header_def free_lists_index_def bump_def word_less_nat_alt not_le)
qed

lemma heap_inv_observe:
  "heap_inv a n w ks live fr \<Longrightarrow> n < 2 ^ 32 \<Longrightarrow>
     heap_inv (a\<lparr>last_observed_memory_size := of_nat n\<rparr>) n w ks live fr"
  using unat_of_nat32 [of n] by (simp add: heap_inv_def)

lemma allocate_reuse:
  assumes inv: "heap_inv a (len m) (word_at m) ks live fr" and len: "len m < 2 ^ 32"
    and ord: "order_from_size sz = Inr (Order (of_nat k))" and k: "k < 23" "fr k = p # ps"
  obtains a' m' where "allocate M a m sz = (Inr (of_nat p + HEADER_SIZE), a', m')"
    "heap_inv a' (len m') (word_at m') ks (insert (p, k) live) (fr(k := ps))"
    "(p, k) \<in> free_chunks fr" "len m' = len m"
    "\<And>q. q + 8 \<le> p \<or> p + 8 \<le> q \<Longrightarrow> q + 8 \<le> len m \<Longrightarrow> word_at m' q = word_at m q"
proof -
  let ?a1 = "a\<lparr>last_observed_memory_size := of_nat (len m)\<rparr>"
  have inv1: "heap_inv ?a1 (len m) (word_at m) ks live fr" by (rule heap_inv_observe [OF inv len])
  obtain l where l: "chain (word_at m) l ps" and th: "take_header M ?a1 m (Order (of_nat k)) =
       (Inr (of_nat p), ?a1\<lparr>free_lists := (free_lists ?a1)[k := l]\<rparr>)"
    using take_header_reuse [OF inv1 len k] by metis
  let ?a2 = "?a1\<lparr>free_lists := (free_lists ?a1)[k := l]\<rparr>"
  have c: "(p, k) \<in> free_chunks fr" using k by (simp add: free_chunks_def N_ORDERS_def)
  have "p + csize k \<le> len m" using heap_inv_chunk [OF inv] c by blast
  then have "p + 8 \<le> len m" using csize_ge [of k] by linarith
  then obtain m' where m': "header_write_into M (Occupied (Order (of_nat k))) m (of_nat p) = Inr m'"
    "len m' = len m" "word_at m' p = header_encode (Occupied (Order (of_nat k)))"
    and frame: "\<And>q. q + 8 \<le> p \<or> p + 8 \<le> q \<Longrightarrow> q + 8 \<le> len m \<Longrightarrow> word_at m' q = word_at m q"
    using header_write [OF _ len] by metis
  let ?a3 = "?a2\<lparr>stats := stats_after_allocate ?a2 (Order (of_nat k))\<rparr>"
  have "\<not> poisoned a" "unat (last_observed_memory_size a) \<le> len m" using inv by (auto simp: heap_inv_def)
  then have eq: "allocate M a m sz = (Inr (of_nat p + HEADER_SIZE), ?a3, m')"
    using observe_ok [OF len] ord th m' by (simp add: allocate_def)
  have "header_decode (word_at m' p) = Inr (Occupied (Order (of_nat k)))"
    unfolding m'(3) using k(1) by (intro header_decode_encode) (simp add: N_ORDERS_def unat_of_nat32)
  then have "heap_inv ?a3 (len m') (word_at m') ks (insert (p, k) live) (fr(k := ps))"
    unfolding m'(2) using inv1 len k l frame
    by (intro heap_inv_alloc_reuse [where a = ?a1 and w = "word_at m"])
      (auto simp: writes_only_def stats_after_allocate_def Let_def)
  with eq c m'(2) frame show ?thesis using that by blast
qed

lemma allocate_bump:
  assumes inv: "heap_inv a (len m) (word_at m) ks live fr" and len: "len m + 33554440 < 2 ^ 32"
    and ord: "order_from_size sz = Inr (Order (of_nat k))" and k: "k < 23" "fr k = []"
    and room: "unat (bumper a) + csize k \<le> len m"
  obtains a' m' where "allocate M a m sz = (Inr (bumper a + HEADER_SIZE), a', m')"
    "heap_inv a' (len m') (word_at m') (ks @ [k]) (insert (unat (bumper a), k) live) fr"
    "(unat (bumper a), k) \<notin> live \<union> free_chunks fr" "len m' = len m"
proof -
  let ?a1 = "a\<lparr>last_observed_memory_size := of_nat (len m)\<rparr>"
  let ?p = "unat (bumper a)" and ?b = "bumper a + (order_size (Order (of_nat k)) + HEADER_SIZE)"
  have len32: "len m < 2 ^ 32" using len by simp
  have inv1: "heap_inv ?a1 (len m) (word_at m) ks live fr" by (rule heap_inv_observe [OF inv len32])
  have th: "take_header M ?a1 m (Order (of_nat k)) = (Inr (bumper a), ?a1\<lparr>bumper := ?b\<rparr>)"
    and b: "unat ?b = ?p + csize k"
    using take_header_bump [OF inv1 len k] room by simp_all
  let ?a2 = "?a1\<lparr>bumper := ?b\<rparr>"
  let ?a3 = "?a2\<lparr>stats := stats_after_allocate ?a2 (Order (of_nat k))\<rparr>"
  have bb: "of_nat ?p = bumper a" by simp
  have "?p + 8 \<le> len m" using room csize_ge [of k] by linarith
  then obtain m' where m': "header_write_into M (Occupied (Order (of_nat k))) m (bumper a) = Inr m'"
    "len m' = len m" "word_at m' ?p = header_encode (Occupied (Order (of_nat k)))"
    and frame: "\<And>q. q + 8 \<le> ?p \<or> ?p + 8 \<le> q \<Longrightarrow> q + 8 \<le> len m \<Longrightarrow> word_at m' q = word_at m q"
    using header_write [OF _ len32, of ?p] bb by metis
  have "\<not> poisoned a" "unat (last_observed_memory_size a) \<le> len m" using inv by (auto simp: heap_inv_def)
  then have eq: "allocate M a m sz = (Inr (bumper a + HEADER_SIZE), ?a3, m')"
    using observe_ok [OF len32] ord th m' by (simp add: allocate_def)
  have dec: "header_decode (word_at m' ?p) = Inr (Occupied (Order (of_nat k)))"
    unfolding m'(3) using k(1) by (intro header_decode_encode) (simp add: N_ORDERS_def unat_of_nat32)
  have wo: "writes_only ?p (len m) (word_at m) (word_at m')" using frame by (simp add: writes_only_def)
  have "heap_inv ?a3 (len m) (word_at m') (ks @ [k]) (insert (?p, k) live) fr \<and>
      (?p, k) \<notin> live \<union> free_chunks fr"
    using heap_inv_alloc_bump [where a = ?a1 and b = ?b and
        s = "stats_after_allocate ?a2 (Order (of_nat k))", OF inv1 len32 k(1) _ room wo dec refl]
    by (simp add: b stats_after_allocate_def Let_def)
  then have "heap_inv ?a3 (len m') (word_at m') (ks @ [k]) (insert (?p, k) live) fr"
    "(?p, k) \<notin> live \<union> free_chunks fr"
    unfolding m'(2) by simp_all
  with eq m'(2) show ?thesis using that by blast
qed

lemma allocate_too_large:
  assumes inv: "heap_inv a (len m) (word_at m) ks live fr" and len: "len m < 2 ^ 32"
    and sz: "unat sz > 33554432"
  shows "allocate M a m sz =
    (Inl RequestedAllocationTooLarge, poison (a\<lparr>last_observed_memory_size := of_nat (len m)\<rparr>), m)"
  using inv order_from_size_Inl [of sz RequestedAllocationTooLarge] sz observe_ok [OF len]
  by (simp add: allocate_def heap_inv_def)

lemma allocate_out_of_space:
  assumes inv: "heap_inv a (len m) (word_at m) ks live fr" and len: "len m + 33554440 < 2 ^ 32"
    and ord: "order_from_size sz = Inr (Order (of_nat k))" and k: "k < 23" "fr k = []"
    and room: "len m < unat (bumper a) + csize k"
  shows "allocate M a m sz =
    (Inl AllocatorOutOfSpace, poison (a\<lparr>last_observed_memory_size := of_nat (len m)\<rparr>), m)"
proof -
  have len32: "len m < 2 ^ 32" using len by simp
  note inv1 = heap_inv_observe [OF inv len32]
  show ?thesis
    using inv ord observe_ok [OF len32] take_header_bump(1) [OF inv1 len k] room
    by (simp add: allocate_def heap_inv_def)
qed

text \<open>Every call of \<open>allocate\<close> on a sound heap is one of four cases.\<close>

lemma allocate_cases:
  assumes inv: "heap_inv a (len m) (word_at m) ks live fr" and len: "len m + 33554440 < 2 ^ 32"
  obtains (too_large) "unat sz > 33554432"
      "allocate M a m sz = (Inl RequestedAllocationTooLarge,
         poison (a\<lparr>last_observed_memory_size := of_nat (len m)\<rparr>), m)"
  | (reuse) k p ps a' m' where "k < 23" "order_from_size sz = Inr (Order (of_nat k))" "fr k = p # ps"
      "allocate M a m sz = (Inr (of_nat p + HEADER_SIZE), a', m')" "len m' = len m"
      "(p, k) \<in> free_chunks fr"
      "heap_inv a' (len m') (word_at m') ks (insert (p, k) live) (fr(k := ps))"
  | (bump) k a' m' where "k < 23" "order_from_size sz = Inr (Order (of_nat k))" "fr k = []"
      "allocate M a m sz = (Inr (bumper a + HEADER_SIZE), a', m')" "len m' = len m"
      "(unat (bumper a), k) \<notin> live \<union> free_chunks fr"
      "heap_inv a' (len m') (word_at m') (ks @ [k]) (insert (unat (bumper a), k) live) fr"
  | (no_space) k where "k < 23" "order_from_size sz = Inr (Order (of_nat k))"
      "fr k = []" "len m < unat (bumper a) + csize k"
      "allocate M a m sz = (Inl AllocatorOutOfSpace,
         poison (a\<lparr>last_observed_memory_size := of_nat (len m)\<rparr>), m)"
proof -
  have len32: "len m < 2 ^ 32" using len by simp
  show thesis
  proof (cases "order_from_size sz")
    case (Inl e)
    then show thesis
      using allocate_too_large [OF inv len32] order_from_size_Inl [of sz] too_large by blast
  next
    case (Inr ord)
    then obtain k where k: "k < 23" "ord = Order (of_nat k)"
      by (rule order_from_size_Inr)
    show thesis
    proof (cases "fr k")
      case (Cons p ps)
      with allocate_reuse [OF inv len32 _ k(1) Cons] Inr k reuse show thesis by metis
    next
      case Nil
      with allocate_bump [OF inv len _ k(1) Nil] allocate_out_of_space [OF inv len _ k(1) Nil]
        Inr k bump no_space show thesis by (metis not_le)
    qed
  qed
qed

text \<open>Freeing a live chunk succeeds, and pushes it on its free list.\<close>

lemma deallocate_live:
  assumes inv: "heap_inv a (len m) (word_at m) ks live fr" and len: "len m < 2 ^ 32"
    and pk: "(p, k) \<in> live"
  obtains a' m' where "deallocate M a m (of_nat p + HEADER_SIZE) = (Inr (), a', m')"
    "heap_inv a' (len m') (word_at m') ks (live - {(p, k)}) (fr(k := p # fr k))" "len m' = len m"
    "writes_only p (len m) (word_at m) (word_at m')"
proof -
  let ?a1 = "a\<lparr>last_observed_memory_size := of_nat (len m)\<rparr>"
  let ?o = "Order (of_nat k)" and ?hd = "free_lists a ! k"
  let ?a2 = "?a1\<lparr>free_lists := (free_lists a)[k := Link_Ptr (of_nat p)]\<rparr>"
  let ?s = "(stats a)\<lparr>bytes_allocated := bytes_allocated (stats a) - (order_size ?o + HEADER_SIZE)\<rparr>"
  have inv1: "heap_inv ?a1 (len m) (word_at m) ks live fr" by (rule heap_inv_observe [OF inv len])
  have k: "k < 23" and pn: "p + csize k \<le> len m" using heap_inv_chunk [OF inv] pk by blast+
  then have p8: "p + 8 \<le> len m" using csize_ge [of k] by linarith
  have up: "unat (of_nat p + HEADER_SIZE :: u32) = p + 8"
    using p8 len by (simp add: unat_add32 unat_of_nat32 alloc_consts)
  have sub: "checked_sub32 (of_nat p + HEADER_SIZE) HEADER_SIZE = Some (of_nat p)"
    by (simp add: checked_sub32_Some up) (simp add: alloc_consts)
  have rd: "header_read_from M m (of_nat p) = Inr (Occupied ?o)"
    using header_read [OF p8 len] inv pk by (auto simp: heap_inv_def)
  have uk: "unat (of_nat k :: u32) = k" using k by (simp add: unat_of_nat32)
  have fl: "free_lists_replace (free_lists a) ?o (Link_Ptr (of_nat p)) =
      Inr (?hd, (free_lists a)[k := Link_Ptr (of_nat p)])"
    using inv k uk by (simp add: free_lists_replace_def free_lists_index_def heap_inv_def N_ORDERS_def)
  obtain m' where m': "header_write_into M (Free ?hd) m (of_nat p) = Inr m'"
    "len m' = len m" "word_at m' p = header_encode (Free ?hd)"
    and frame: "\<And>q. q + 8 \<le> p \<or> p + 8 \<le> q \<Longrightarrow> q + 8 \<le> len m \<Longrightarrow> word_at m' q = word_at m q"
    using header_write [OF p8 len] by metis
  have wo: "writes_only p (len m) (word_at m) (word_at m')" using frame by (simp add: writes_only_def)
  have dec: "header_decode (word_at m' p) = Inr (Free (free_lists ?a1 ! k))"
    using header_decode_encode [OF free_head_valid [OF inv len k]] by (simp add: m'(3))
  have step: "heap_inv (?a2\<lparr>stats := ?s\<rparr>) (len m) (word_at m') ks (live - {(p, k)}) (fr(k := p # fr k)) \<and>
      csize k \<le> unat (bytes_allocated (stats a))"
    using heap_inv_dealloc [where a = ?a1 and s = ?s, OF inv1 len pk wo dec refl] by simp
  then have cs: "checked_sub32 (bytes_allocated (stats a)) (order_size ?o + HEADER_SIZE) =
      Some (bytes_allocated ?s)"
    using unat_csize [OF k] by (simp add: checked_sub32_Some)
  have "\<not> poisoned a" "unat (last_observed_memory_size a) \<le> len m" using inv by (auto simp: heap_inv_def)
  then have "deallocate M a m (of_nat p + HEADER_SIZE) = (Inr (), ?a2\<lparr>stats := ?s\<rparr>, m')"
    using observe_ok [OF len] sub rd fl m'(1) cs by (simp add: deallocate_def Let_def)
  with step m'(2) wo show ?thesis using that by simp
qed

text \<open>Freeing a chunk that is already free is detected.\<close>

lemma deallocate_free:
  assumes inv: "heap_inv a (len m) (word_at m) ks live fr" and len: "len m < 2 ^ 32"
    and pk: "(p, k) \<in> free_chunks fr"
  shows "deallocate M a m (of_nat p + HEADER_SIZE) =
    (Inl (Other ''the allocation points to an empty header''),
     poison (a\<lparr>last_observed_memory_size := of_nat (len m)\<rparr>), m)"
proof -
  have pn: "p + csize k \<le> len m" using heap_inv_chunk [OF inv] pk by blast+
  then have p8: "p + 8 \<le> len m" using csize_ge [of k] by linarith
  have up: "unat (of_nat p + HEADER_SIZE :: u32) = p + 8"
    using p8 len by (simp add: unat_add32 unat_of_nat32 alloc_consts)
  have sub: "checked_sub32 (of_nat p + HEADER_SIZE) HEADER_SIZE = Some (of_nat p)"
    by (simp add: checked_sub32_Some up) (simp add: alloc_consts)
  have "k < N_ORDERS" "p \<in> set (fr k)" using pk by (auto simp: free_chunks_def)
  then obtain l where "header_decode (word_at m p) = Inr (Free l)"
    using inv chain_free [of "word_at m" "free_lists a ! k" "fr k" p] by (auto simp: heap_inv_def)
  then have rd: "header_read_from M m (of_nat p) = Inr (Free l)"
    using header_read [OF p8 len] by simp
  have "\<not> poisoned a" "unat (last_observed_memory_size a) \<le> len m" using inv by (auto simp: heap_inv_def)
  then show ?thesis
    using observe_ok [OF len] sub rd by (simp add: deallocate_def Let_def)
qed

end

text \<open>An allocator that has returned an error refuses every later request.\<close>

lemma allocate_poisons: "allocate M a m sz = (Inl e, a', m') \<Longrightarrow> poisoned a'"
  by (auto simp: allocate_def poison_def Let_def split: if_splits sum.splits prod.splits)

lemma deallocate_poisons: "deallocate M a m p = (Inl e, a', m') \<Longrightarrow> poisoned a'"
  by (auto simp: deallocate_def poison_def Let_def
      split: if_splits sum.splits prod.splits option.splits)

lemma poisoned_refuses:
  assumes "poisoned a"
  shows "allocate M a m sz = (Inl (Other ''the allocator has been poisoned''), a, m)"
    "deallocate M a m p = (Inl (Other ''the allocator has been poisoned''), a, m)"
  using assms by (simp_all add: allocate_def deallocate_def)

section \<open>The byte slice implements the memory interface\<close>

lemma heap_range_8:
  "heap_range p 8 n = (if unat p + 8 < 2 ^ 32 \<and> unat p + 8 \<le> n then Some (unat p, unat p + 8) else None)"
  by (auto simp: heap_range_def checked_add32_unat unat_add32_small split: option.splits if_splits)

interpretation slice: linear_memory slice_memory length "\<lambda>m p. from_le_bytes (subslice m p 8)"
proof (unfold_locales, goal_cases)
  case (5 p m v)
  then show ?case
    by (auto simp: slice_memory_def slice_write_le_u64_def heap_range_8 subslice_overwrite_other)
qed (auto simp: slice_memory_def slice_size_def slice_read_le_u64_def slice_write_le_u64_def heap_range_8)


lemma subslice_append: "q + n \<le> length m \<Longrightarrow> subslice (m @ zs) q n = subslice m q n"
  by (simp add: subslice_def)

section \<open>Sessions of a guest with the allocator\<close>

text \<open>
  What a guest may do with the heap: allocate, free what it holds, write inside
  what it holds, grow the memory. The third component records the pointers the
  guest holds with the sizes it asked for. The memory stays at least one maximal
  chunk below 4 GiB.
\<close>

type_synonym session = "allocator \<times> u8 list \<times> (u32 \<times> u32) set"

inductive heap_step :: "session \<Rightarrow> session \<Rightarrow> bool" where
  alloc: "allocate slice_memory a m sz = (Inr ptr, a', m') \<Longrightarrow>
     heap_step (a, m, L) (a', m', insert (ptr, sz) L)"
| alloc_fail: "allocate slice_memory a m sz = (Inl e, a', m') \<Longrightarrow>
     heap_step (a, m, L) (a', m', L)"
| dealloc: "(ptr, sz) \<in> L \<Longrightarrow> deallocate slice_memory a m ptr = (Inr (), a', m') \<Longrightarrow>
     heap_step (a, m, L) (a', m', L - {(ptr, sz)})"
| dealloc_fail: "deallocate slice_memory a m ptr = (Inl e, a', m') \<Longrightarrow>
     heap_step (a, m, L) (a', m', L)"
| guest_write: "(ptr, sz) \<in> L \<Longrightarrow> off + length bs \<le> unat sz \<Longrightarrow>
     heap_step (a, m, L) (a, overwrite m (unat ptr + off) bs, L)"
| grow: "length m + n + 33554440 < 2 ^ 32 \<Longrightarrow>
     heap_step (a, m, L) (a, m @ replicate n 0, L)"

inductive heap_reach :: "session \<Rightarrow> bool" where
  start: "unat heap_base + 7 \<le> length m \<Longrightarrow> length m + 33554440 < 2 ^ 32 \<Longrightarrow>
     heap_reach (allocator_new heap_base, m, {})"
| step: "heap_reach s \<Longrightarrow> heap_step s t \<Longrightarrow> heap_reach t"

abbreviation words :: "u8 list \<Rightarrow> nat \<Rightarrow> u64" where
  "words m p \<equiv> from_le_bytes (subslice m p 8)"

definition holds_chunks :: "(u32 \<times> u32) set \<Rightarrow> (nat \<times> nat) set \<Rightarrow> bool" where
  "holds_chunks L live \<longleftrightarrow>
     (\<forall>(ptr, sz)\<in>L. \<exists>k. 8 \<le> unat ptr \<and> (unat ptr - 8, k) \<in> live \<and> k < 23 \<and>
        order_from_size sz = Inr (Order (of_nat k))) \<and>
     (\<forall>(ptr, sz)\<in>L. \<forall>(ptr', sz')\<in>L. ptr = ptr' \<longrightarrow> sz = sz')"

definition regions_ok :: "(u32 \<times> u32) set \<Rightarrow> nat \<Rightarrow> bool" where
  "regions_ok L n \<longleftrightarrow>
     (\<forall>(p, s)\<in>L. 8 dvd unat p \<and> unat p + unat s \<le> n) \<and>
     (\<forall>(p, s)\<in>L. \<forall>(q, t)\<in>L. (p, s) \<noteq> (q, t) \<longrightarrow>
        unat p + unat s \<le> unat q \<or> unat q + unat t \<le> unat p)"

fun session_inv :: "session \<Rightarrow> bool" where
  "session_inv (a, m, L) \<longleftrightarrow>
     length m + 33554440 < 2 ^ 32 \<and> regions_ok L (length m) \<and>
     (poisoned a \<or>
       (\<exists>ks live fr. heap_inv a (length m) (words m) ks live fr \<and> holds_chunks L live))"

lemma regions_ok_subset: "regions_ok L n \<Longrightarrow> L' \<subseteq> L \<Longrightarrow> regions_ok L' n"
  unfolding regions_ok_def by blast

lemma holds_chunks_subset: "holds_chunks L live \<Longrightarrow> L' \<subseteq> L \<Longrightarrow> holds_chunks L' live"
  unfolding holds_chunks_def by blast

lemma holds_chunksE:
  assumes "holds_chunks L live" "(p, s) \<in> L"
  obtains k where "8 \<le> unat p" "(unat p - 8, k) \<in> live" "unat s \<le> 8 * 2 ^ k" "k < 23"
    "order_from_size s = Inr (Order (of_nat k))"
  using assms order_from_size_bounds(1) unfolding holds_chunks_def by blast

lemma holds_chunks_inj: "holds_chunks L live \<Longrightarrow> (p, s) \<in> L \<Longrightarrow> (p, t) \<in> L \<Longrightarrow> s = t"
  unfolding holds_chunks_def by blast

lemma chunk_region:
  assumes "8 \<le> p" "chunks_disjoint (p - 8, k) (q - 8, j)" "8 \<le> q" "s \<le> 8 * 2 ^ k" "t \<le> 8 * 2 ^ j"
  shows "p + s \<le> q \<or> q + t \<le> p"
  using assms unfolding chunks_disjoint_def csize_def fst_conv snd_conv by linarith

lemma regions_ok_holds:
  assumes inv: "heap_inv a n w ks live fr" and L: "holds_chunks L live"
  shows "regions_ok L n"
proof -
  have "8 dvd unat p \<and> unat p + unat s \<le> n" if mem: "(p, s) \<in> L" for p s
  proof -
    obtain k where k: "8 \<le> unat p" "(unat p - 8, k) \<in> live" "unat s \<le> 8 * 2 ^ k"
      by (rule holds_chunksE [OF L mem])
    then have "8 dvd unat p - 8" "unat p - 8 + csize k \<le> n"
      using heap_inv_chunk [OF inv] by blast+
    moreover from this(1) have "8 dvd unat p" using k(1) by (meson dvd_diffD dvd_refl)
    ultimately show ?thesis using k unfolding csize_def by linarith
  qed
  moreover have "unat p + unat s \<le> unat q \<or> unat q + unat t \<le> unat p"
    if mem: "(p, s) \<in> L" "(q, t) \<in> L" "(p, s) \<noteq> (q, t)" for p s q t
  proof -
    obtain k where k: "8 \<le> unat p" "(unat p - 8, k) \<in> live" "unat s \<le> 8 * 2 ^ k"
      by (rule holds_chunksE [OF L mem(1)])
    obtain j where j: "8 \<le> unat q" "(unat q - 8, j) \<in> live" "unat t \<le> 8 * 2 ^ j"
      by (rule holds_chunksE [OF L mem(2)])
    have "p \<noteq> q" using holds_chunks_inj [OF L] mem by blast
    then have "unat p \<noteq> unat q" by (simp only: word_unat_eq_iff not_False_eq_True)
    then have "(unat p - 8, k) \<noteq> (unat q - 8, j)" using k(1) j(1) by auto
    then have "chunks_disjoint (unat p - 8, k) (unat q - 8, j)"
      using heap_inv_disjoint [OF inv] k j by blast
    then show ?thesis by (rule chunk_region [OF k(1) _ j(1) k(3) j(3)])
  qed
  ultimately show ?thesis unfolding regions_ok_def by blast
qed

lemma session_inv_start:
  assumes "unat heap_base + 7 \<le> length m" "length m + 33554440 < 2 ^ 32"
  shows "session_inv (allocator_new heap_base, m, {})"
proof -
  let ?b = "(heap_base + ALIGNMENT - 1) div ALIGNMENT * ALIGNMENT"
  have "unat (heap_base + ALIGNMENT - 1) = unat heap_base + 7"
    using assms unat_add32_small [of 7 heap_base] by (simp add: alloc_consts)
  then have b: "unat ?b = (unat heap_base + 7) div 8 * 8"
    using assms by (simp add: alloc_consts unat_word_ariths unat_div)
  then have b8: "8 dvd unat ?b" "unat ?b \<le> length m"
    using assms by (simp, linarith)
  have "heap_inv (allocator_new heap_base) (length m) (words m) [] {} (\<lambda>_. [])"
    using b8 by (auto simp: heap_inv_def allocator_new_def Let_def free_lists_new_def free_chunks_def)
  then show ?thesis
    using assms by (auto simp: regions_ok_def holds_chunks_def)
qed


lemma holds_chunks_insert:
  assumes "holds_chunks L live" "unat ptr = p + 8" "k < 23"
    "order_from_size sz = Inr (Order (of_nat k))" "\<And>j. (p, j) \<notin> live"
  shows "holds_chunks (insert (ptr, sz) L) (insert (p, k) live)"
proof -
  have "ptr' \<noteq> ptr" if mem: "(ptr', sz') \<in> L" for ptr' sz'
  proof
    assume "ptr' = ptr"
    obtain j where "8 \<le> unat ptr'" "(unat ptr' - 8, j) \<in> live"
      by (rule holds_chunksE [OF assms(1) mem])
    then show False using \<open>ptr' = ptr\<close> assms(2,5) by simp
  qed
  moreover have "\<exists>i. 8 \<le> unat ptr' \<and> (unat ptr' - 8, i) \<in> insert (p, k) live \<and> i < 23 \<and>
      order_from_size sz' = Inr (Order (of_nat i))"
    if "(ptr', sz') \<in> insert (ptr, sz) L" for ptr' sz'
    using that assms(2-4) by (auto elim: holds_chunksE [OF assms(1)])
  ultimately show ?thesis
    using holds_chunks_inj [OF assms(1)] unfolding holds_chunks_def by blast
qed

lemma holds_chunks_remove:
  assumes "holds_chunks L live" "(ptr, sz) \<in> L" "unat ptr = p + 8"
  shows "holds_chunks (L - {(ptr, sz)}) (live - {(p, k)})"
proof -
  have "unat ptr' - 8 \<noteq> p" if mem: "(ptr', sz') \<in> L - {(ptr, sz)}" for ptr' sz'
  proof
    assume "unat ptr' - 8 = p"
    moreover obtain j where "8 \<le> unat ptr'"
      using mem by (blast intro: holds_chunksE [OF assms(1)])
    ultimately have "unat ptr' = unat ptr" using assms(3) by simp
    then have "ptr' = ptr" by (simp only: word_unat_eq_iff)
    then show False using holds_chunks_inj [OF assms(1)] mem assms(2) by blast
  qed
  then show ?thesis
    using assms(1) unfolding holds_chunks_def by fastforce
qed

lemma session_alloc:
  assumes inv: "session_inv (a, m, L)" and al: "allocate slice_memory a m sz = (Inr ptr, a', m')"
  shows "session_inv (a', m', insert (ptr, sz) L)"
proof -
  have "\<not> poisoned a" using al poisoned_refuses(1) [of a slice_memory m sz] by auto
  then obtain ks live fr where hi: "heap_inv a (length m) (words m) ks live fr"
    and hc: "holds_chunks L live" and len: "length m + 33554440 < 2 ^ 32"
    using inv by auto
  obtain p k ks' fr' where new: "unat ptr = p + 8" "k < 23" "order_from_size sz = Inr (Order (of_nat k))"
      "(p, k) \<notin> live"
    and len': "length m' = length m"
    and hi': "heap_inv a' (length m') (words m') ks' (insert (p, k) live) fr'"
    using hi len
  proof (cases rule: slice.allocate_cases [where sz = sz])
    case (reuse k p ps a'' m'')
    have "p + csize k \<le> length m" using heap_inv_chunk(3) [OF hi] reuse(6) by blast
    then have "unat (of_nat p + HEADER_SIZE :: u32) = p + 8"
      using len csize_ge [of k] by (simp add: unat_add32 unat_of_nat32 alloc_consts)
    moreover have "(p, k) \<notin> live" using hi reuse(6) by (auto simp: heap_inv_def)
    ultimately show thesis using that reuse al by auto
  next
    case (bump k a'' m'')
    have "unat (bumper a) \<le> length m" using hi by (simp add: heap_inv_def)
    then have "unat (bumper a + HEADER_SIZE) = unat (bumper a) + 8"
      using len by (simp add: unat_add32 alloc_consts)
    then show thesis using that bump al by auto
  qed (use al in auto)
  have "(p, j) \<notin> live" for j
  proof
    assume j: "(p, j) \<in> live"
    then have "(p, j) \<noteq> (p, k)" using new(4) by auto
    then have "chunks_disjoint (p, j) (p, k)" using heap_inv_disjoint [OF hi'] j by blast
    then show False using csize_ge [of j] csize_ge [of k] by (simp add: chunks_disjoint_def)
  qed
  then have "holds_chunks (insert (ptr, sz) L) (insert (p, k) live)"
    using holds_chunks_insert [OF hc new(1,2,3)] by blast
  with hi' regions_ok_holds [OF hi'] len len' show ?thesis by auto
qed

lemma session_dealloc:
  assumes inv: "session_inv (a, m, L)" and mem: "(ptr, sz) \<in> L"
    and de: "deallocate slice_memory a m ptr = (Inr (), a', m')"
  shows "session_inv (a', m', L - {(ptr, sz)})"
proof -
  have "\<not> poisoned a" using de poisoned_refuses(2) [of a slice_memory m ptr] by auto
  then obtain ks live fr where hi: "heap_inv a (length m) (words m) ks live fr"
    and hc: "holds_chunks L live" and len: "length m + 33554440 < 2 ^ 32"
    using inv by auto
  obtain k where k: "8 \<le> unat ptr" "(unat ptr - 8, k) \<in> live"
    by (rule holds_chunksE [OF hc mem])
  have ptr: "of_nat (unat ptr - 8) + HEADER_SIZE = ptr"
    using k(1) by (simp add: alloc_consts)
  have "length m < 2 ^ 32" using len by simp
  then obtain a'' m'' where "deallocate slice_memory a m ptr = (Inr (), a'', m'')"
    "heap_inv a'' (length m'') (words m'') ks (live - {(unat ptr - 8, k)}) (fr(k := (unat ptr - 8) # fr k))"
    "length m'' = length m"
    using slice.deallocate_live [OF hi _ k(2)] unfolding ptr by metis
  with de have hi': "heap_inv a' (length m') (words m') ks (live - {(unat ptr - 8, k)})
      (fr(k := (unat ptr - 8) # fr k))" "length m' = length m" by auto
  have "holds_chunks (L - {(ptr, sz)}) (live - {(unat ptr - 8, k)})"
    using holds_chunks_remove [OF hc mem] k(1) by simp
  with hi' regions_ok_holds [OF hi'(1)] len show ?thesis by auto
qed


lemma session_write:
  assumes inv: "session_inv (a, m, L)" and mem: "(ptr, sz) \<in> L" and off: "off + length bs \<le> unat sz"
  shows "session_inv (a, overwrite m (unat ptr + off) bs, L)"
proof -
  let ?m = "overwrite m (unat ptr + off) bs"
  have "unat ptr + unat sz \<le> length m" using inv mem by (auto simp: regions_ok_def)
  then have in_mem: "unat ptr + off + length bs \<le> length m" using off by simp
  have "heap_inv a (length ?m) (words ?m) ks live fr"
    if hi: "heap_inv a (length m) (words m) ks live fr" and hc: "holds_chunks L live" for ks live fr
  proof -
    obtain k where k: "8 \<le> unat ptr" "(unat ptr - 8, k) \<in> live" "unat sz \<le> 8 * 2 ^ k"
      by (rule holds_chunksE [OF hc mem])
    have "words ?m q = words m q" if c: "(q, j) \<in> live \<union> free_chunks fr" for q j
    proof -
      have "q + 8 \<le> unat ptr \<or> unat ptr + 8 * 2 ^ k \<le> q"
      proof (cases "(q, j) = (unat ptr - 8, k)")
        case False
        then have "chunks_disjoint (q, j) (unat ptr - 8, k)"
          using heap_inv_disjoint [OF hi c] k(2) by blast
        then show ?thesis
          using k(1) csize_ge [of j] by (auto simp: chunks_disjoint_def csize_def)
      qed (use k(1) in simp)
      then have "q + 8 \<le> unat ptr + off \<or> unat ptr + off + length bs \<le> q"
        using off k(3) by linarith
      then show ?thesis by (simp add: subslice_overwrite_other [OF in_mem])
    qed
    then show ?thesis using heap_inv_frame [OF hi] in_mem by simp
  qed
  moreover have "length ?m = length m" using in_mem by simp
  ultimately show ?thesis using inv unfolding session_inv.simps by metis
qed

lemma session_grow:
  assumes inv: "session_inv (a, m, L)" and n: "length m + n + 33554440 < 2 ^ 32"
  shows "session_inv (a, m @ replicate n 0, L)"
proof -
  let ?m = "m @ replicate n 0"
  have "heap_inv a (length ?m) (words ?m) ks live fr"
    if hi: "heap_inv a (length m) (words m) ks live fr" for ks live fr
  proof (rule heap_inv_frame [OF hi])
    fix q j assume "(q, j) \<in> live \<union> free_chunks fr"
    then have "q + 8 \<le> length m" using heap_inv_chunk(3) [OF hi] csize_ge [of j] by fastforce
    then show "words ?m q = words m q" by (simp add: subslice_append)
  qed simp
  moreover have "regions_ok L (length ?m)"
    using inv by (fastforce simp: regions_ok_def)
  moreover have "length ?m + 33554440 < 2 ^ 32" using n by simp
  ultimately show ?thesis using inv unfolding session_inv.simps by metis
qed

lemma session_fail:
  assumes "session_inv (a, m, L)" "poisoned a'" "length m' = length m"
  shows "session_inv (a', m', L)"
  using assms by auto

lemma header_write_slice_length:
  "header_write_into slice_memory h m p = Inr m' \<Longrightarrow> length m' = length m"
  by (auto simp: header_write_into_def slice_memory_def slice_write_le_u64_def heap_range_8 split: if_splits)

lemma allocate_length: "allocate slice_memory a m sz = (r, a', m') \<Longrightarrow> length m' = length m"
  by (auto simp: allocate_def Let_def dest: header_write_slice_length
      split: if_splits sum.splits prod.splits)

lemma deallocate_length: "deallocate slice_memory a m p = (r, a', m') \<Longrightarrow> length m' = length m"
  by (auto simp: deallocate_def Let_def dest: header_write_slice_length
      split: if_splits sum.splits prod.splits option.splits)

lemma session_inv_step: "heap_step s t \<Longrightarrow> session_inv s \<Longrightarrow> session_inv t"
proof (induction rule: heap_step.induct)
  case (alloc_fail a m sz e a' m' L)
  then show ?case using session_fail allocate_poisons allocate_length by metis
next
  case (dealloc_fail a m ptr e a' m' L)
  then show ?case using session_fail deallocate_poisons deallocate_length by metis
qed (blast intro: session_alloc session_dealloc session_write session_grow)+

lemma heap_reach_inv: "heap_reach s \<Longrightarrow> session_inv s"
  by (induction rule: heap_reach.induct) (blast intro: session_inv_start session_inv_step)+

section \<open>Properties of the allocator\<close>

lemma session_sound:
  assumes "heap_reach (a, m, L)" "\<not> poisoned a"
  obtains ks live fr where "heap_inv a (length m) (words m) ks live fr" "holds_chunks L live"
    "length m + 33554440 < 2 ^ 32"
  using heap_reach_inv [OF assms(1)] assms(2) by auto

text \<open>C8: In every session of a guest with the allocator (any sequence of
  allocations, frees, failed requests, writes inside held regions and memory
  growth), the regions the guest holds are 8-byte aligned, lie inside the
  memory, and are pairwise disjoint.\<close>

theorem guest_regions_disjoint:
  assumes "heap_reach (a, m, L)" "(p, s) \<in> L" "(q, t) \<in> L" "(p, s) \<noteq> (q, t)"
  shows "8 dvd unat p \<and> unat p + unat s \<le> length m \<and>
    (unat p + unat s \<le> unat q \<or> unat q + unat t \<le> unat p)"
proof -
  have "regions_ok L (length m)" using heap_reach_inv [OF assms(1)] by simp
  with assms(2-) show ?thesis unfolding regions_ok_def by fast
qed

text \<open>Two allocations on a fresh 64-byte memory.\<close>

theorem guest_regions_disjoint_witness:
  "\<exists>a m. heap_reach (a, m, {(8, 1), (24, 5)}) \<and> 8 dvd unat (8 :: u32) \<and>
     unat (8 :: u32) + unat (1 :: u32) \<le> length m \<and>
     (unat (8 :: u32) + unat (1 :: u32) \<le> unat (24 :: u32) \<or>
      unat (24 :: u32) + unat (5 :: u32) \<le> unat (8 :: u32))"
proof -
  let ?m = "replicate 64 0" and ?a = "allocator_new 0"
  let ?r1 = "allocate slice_memory ?a ?m 1"
  have "fst ?r1 = Inr 8" by code_simp
  then obtain a1 m1 where r1: "?r1 = (Inr 8, a1, m1)" by (metis prod.collapse)
  have "fst (allocate slice_memory (fst (snd ?r1)) (snd (snd ?r1)) 5) = Inr 24" by code_simp
  then obtain a2 m2 where r2: "allocate slice_memory a1 m1 5 = (Inr 24, a2, m2)"
    unfolding r1 fst_conv snd_conv by (metis prod.collapse)
  have "heap_reach (?a, ?m, {})" by (rule heap_reach.start) simp_all
  then have "heap_reach (a1, m1, {(8, 1)})"
    by (rule heap_reach.step) (rule heap_step.alloc [OF r1])
  then have "heap_reach (a2, m2, {(24, 5), (8, 1)})"
    by (rule heap_reach.step) (rule heap_step.alloc [OF r2])
  then have s: "heap_reach (a2, m2, {(8, 1), (24, 5)})" by (simp only: insert_commute)
  have "8 dvd unat (8 :: u32) \<and> unat (8 :: u32) + unat (1 :: u32) \<le> length m2 \<and>
     (unat (8 :: u32) + unat (1 :: u32) \<le> unat (24 :: u32) \<or>
      unat (24 :: u32) + unat (5 :: u32) \<le> unat (8 :: u32))"
    by (rule guest_regions_disjoint [OF s]) simp_all
  with s show ?thesis by (intro exI conjI) (assumption | elim conjE)+
qed

lemma allocate_fits:
  assumes "heap_reach (a, m, L)" "\<not> poisoned a" "unat sz \<le> 33554432"
    "unat (bumper a) + 8 + 2 * max 8 (unat sz) \<le> length m"
  shows "\<exists>ptr a' m'. allocate slice_memory a m sz = (Inr ptr, a', m') \<and> \<not> poisoned a'"
proof -
  obtain ks live fr where hi: "heap_inv a (length m) (words m) ks live fr"
    and len: "length m + 33554440 < 2 ^ 32"
    using session_sound [OF assms(1,2)] by metis
  show ?thesis
    using hi len
  proof (cases rule: slice.allocate_cases [where sz = sz])
    case (no_space k)
    have "csize k \<le> 8 + 2 * max 8 (unat sz)"
      using order_from_size_bounds(2) [OF no_space(2,1)] by (cases k) (auto simp: csize_def)
    then show ?thesis using no_space assms(4) by simp
  qed (use assms(3) in \<open>auto simp: heap_inv_def\<close>)
qed

text \<open>C20: The allocator does not fail without reason: from any reachable state that
  is not poisoned, a request of at most 32 MiB succeeds whenever twice the requested
  size (at least 16 bytes) and a header fit above the bump pointer.\<close>

theorem allocate_succeeds:
  assumes "heap_reach (a, m, L)" "\<not> poisoned a" "unat sz \<le> 33554432"
    "unat (bumper a) + 8 + 2 * max 8 (unat sz) \<le> length m"
  shows "\<exists>ptr a' m'. allocate slice_memory a m sz = (Inr ptr, a', m') \<and> \<not> poisoned a'"
  by (rule allocate_fits [OF assms])

theorem allocate_succeeds_witness:
  "\<exists>ptr a' m'. allocate slice_memory (allocator_new 3) (replicate 40 0) 9 = (Inr ptr, a', m') \<and>
     \<not> poisoned a'"
proof (rule allocate_succeeds [where L = "{}"])
  show "heap_reach (allocator_new 3, replicate 40 0, {})" by (rule heap_reach.start) simp_all
qed (simp_all add: allocator_new_def alloc_consts)

text \<open>C33: Freeing a region and asking again for the same size returns the same pointer:
  the free lists are last-in first-out.\<close>

theorem free_then_allocate:
  assumes "heap_reach (a, m, L)" "\<not> poisoned a" "(ptr, sz) \<in> L"
  shows "\<exists>a1 m1 a2 m2. deallocate slice_memory a m ptr = (Inr (), a1, m1) \<and>
    allocate slice_memory a1 m1 sz = (Inr ptr, a2, m2)"
proof -
  obtain ks live fr where hi: "heap_inv a (length m) (words m) ks live fr"
    and hc: "holds_chunks L live" and len: "length m + 33554440 < 2 ^ 32"
    by (rule session_sound [OF assms(1,2)])
  obtain k where k: "8 \<le> unat ptr" "(unat ptr - 8, k) \<in> live" "k < 23"
      "order_from_size sz = Inr (Order (of_nat k))"
    by (rule holds_chunksE [OF hc assms(3)])
  have ptr: "of_nat (unat ptr - 8) + HEADER_SIZE = ptr" using k(1) by (simp add: alloc_consts)
  have len32: "length m < 2 ^ 32" using len by simp
  obtain a1 m1 where d: "deallocate slice_memory a m ptr = (Inr (), a1, m1)"
    and hi1: "heap_inv a1 (length m1) (words m1) ks (live - {(unat ptr - 8, k)})
      (fr(k := (unat ptr - 8) # fr k))" and l1: "length m1 = length m"
    using slice.deallocate_live [OF hi len32 k(2)] unfolding ptr by metis
  have "length m1 < 2 ^ 32" using len32 l1 by simp
  then obtain a2 m2 where al: "allocate slice_memory a1 m1 sz = (Inr ptr, a2, m2)"
    using slice.allocate_reuse [OF hi1 _ k(4,3), of "unat ptr - 8" "fr k"] unfolding ptr
    by (metis fun_upd_same)
  show ?thesis using d al by simp
qed

theorem free_then_allocate_witness:
  "\<exists>a m. heap_reach (a, m, {(8, 9)}) \<and> (\<exists>a1 m1 a2 m2.
     deallocate slice_memory a m 8 = (Inr (), a1, m1) \<and>
     allocate slice_memory a1 m1 9 = (Inr 8, a2, m2))"
proof -
  let ?r = "allocate slice_memory (allocator_new 0) (replicate 40 0) 9"
  have c: "fst ?r = Inr 8 \<and> \<not> poisoned (fst (snd ?r))" by code_simp
  obtain a m where r: "?r = (Inr 8, a, m)" using c by (metis prod.collapse)
  have "heap_reach (allocator_new 0, replicate 40 0, {})" by (rule heap_reach.start) simp_all
  then have s: "heap_reach (a, m, {(8, 9)})"
    by (rule heap_reach.step) (rule heap_step.alloc [OF r])
  moreover have "\<not> poisoned a" using c unfolding r by simp
  ultimately show ?thesis using free_then_allocate [of a m "{(8, 9)}" 8 9] by blast
qed

text \<open>C34: Freeing a region twice is detected: the second free reports the empty header,
  leaves the memory as it is and poisons the allocator.\<close>

theorem double_free_detected:
  assumes "heap_reach (a, m, L)" "\<not> poisoned a" "(ptr, sz) \<in> L"
  shows "\<exists>a1 m1 a2. deallocate slice_memory a m ptr = (Inr (), a1, m1) \<and>
    deallocate slice_memory a1 m1 ptr =
      (Inl (Other ''the allocation points to an empty header''), a2, m1) \<and> poisoned a2"
proof -
  obtain ks live fr where hi: "heap_inv a (length m) (words m) ks live fr"
    and hc: "holds_chunks L live" and len: "length m + 33554440 < 2 ^ 32"
    by (rule session_sound [OF assms(1,2)])
  obtain k where k: "8 \<le> unat ptr" "(unat ptr - 8, k) \<in> live" "k < 23"
    by (rule holds_chunksE [OF hc assms(3)])
  have ptr: "of_nat (unat ptr - 8) + HEADER_SIZE = ptr" using k(1) by (simp add: alloc_consts)
  have len32: "length m < 2 ^ 32" using len by simp
  obtain a1 m1 where d: "deallocate slice_memory a m ptr = (Inr (), a1, m1)"
    and hi1: "heap_inv a1 (length m1) (words m1) ks (live - {(unat ptr - 8, k)})
      (fr(k := (unat ptr - 8) # fr k))" and l1: "length m1 = length m"
    using slice.deallocate_live [OF hi len32 k(2)] unfolding ptr by metis
  have "length m1 < 2 ^ 32" using len32 l1 by simp
  moreover have "(unat ptr - 8, k) \<in> free_chunks (fr(k := (unat ptr - 8) # fr k))"
    using k(3) by (simp add: free_chunks_def N_ORDERS_def)
  ultimately show ?thesis
    using d slice.deallocate_free [OF hi1, of "unat ptr - 8" k] unfolding ptr
    by (simp add: poison_def)
qed

theorem double_free_detected_witness:
  "\<exists>a m. heap_reach (a, m, {(8, 9)}) \<and> (\<exists>a1 m1 a2.
     deallocate slice_memory a m 8 = (Inr (), a1, m1) \<and>
     deallocate slice_memory a1 m1 8 =
       (Inl (Other ''the allocation points to an empty header''), a2, m1) \<and> poisoned a2)"
proof -
  let ?r = "allocate slice_memory (allocator_new 0) (replicate 40 0) 9"
  have c: "fst ?r = Inr 8 \<and> \<not> poisoned (fst (snd ?r))" by code_simp
  obtain a m where r: "?r = (Inr 8, a, m)" using c by (metis prod.collapse)
  have "heap_reach (allocator_new 0, replicate 40 0, {})" by (rule heap_reach.start) simp_all
  then have s: "heap_reach (a, m, {(8, 9)})"
    by (rule heap_reach.step) (rule heap_step.alloc [OF r])
  moreover have "\<not> poisoned a" using c unfolding r by simp
  ultimately show ?thesis using double_free_detected [of a m "{(8, 9)}" 8 9] by blast
qed

lemma poisoned_step:
  "heap_step s t \<Longrightarrow> poisoned (fst s) \<Longrightarrow> poisoned (fst t) \<and> snd (snd t) \<subseteq> snd (snd s)"
  by (induction rule: heap_step.induct) (auto simp: poisoned_refuses)

lemma poisoned_steps:
  "heap_step\<^sup>*\<^sup>* s t \<Longrightarrow> poisoned (fst s) \<Longrightarrow> poisoned (fst t) \<and> snd (snd t) \<subseteq> snd (snd s)"
proof (induction rule: rtranclp_induct)
  case (step t u)
  then have "poisoned (fst t)" "snd (snd t) \<subseteq> snd (snd s)" by blast+
  with poisoned_step [OF step.hyps(2)] show ?case by (meson order_trans)
qed simp

text \<open>C35: Failure is final: once a call has failed, whatever the guest does
  afterwards, the allocator stays poisoned and hands out no further region.\<close>

theorem poisoned_forever:
  assumes "allocate slice_memory a m sz = (Inl e, a1, m1)"
    "heap_step\<^sup>*\<^sup>* (a1, m1, L) (a2, m2, L2)"
  shows "poisoned a2 \<and> L2 \<subseteq> L \<and>
    allocate slice_memory a2 m2 sz2 = (Inl (Other ''the allocator has been poisoned''), a2, m2)"
proof -
  have "poisoned a2" "L2 \<subseteq> L"
    using poisoned_steps [OF assms(2)] allocate_poisons [OF assms(1)] by simp_all
  then show ?thesis by (simp add: poisoned_refuses)
qed

text \<open>A request that does not fit fails; growing the memory afterwards does not help.\<close>

theorem poisoned_forever_witness:
  "\<exists>a1 m1. allocate slice_memory (allocator_new 0) (replicate 40 0) 33 =
       (Inl AllocatorOutOfSpace, a1, m1) \<and>
     allocate slice_memory a1 (m1 @ replicate 64 0) 1 =
       (Inl (Other ''the allocator has been poisoned''), a1, m1 @ replicate 64 0)"
proof -
  let ?r = "allocate slice_memory (allocator_new 0) (replicate 40 0) 33"
  have c: "fst ?r = Inl AllocatorOutOfSpace \<and> length (snd (snd ?r)) = 40" by code_simp
  obtain a1 m1 where r: "?r = (Inl AllocatorOutOfSpace, a1, m1)"
    using c by (metis prod.collapse)
  have "heap_step (a1, m1, {}) (a1, m1 @ replicate 64 0, {})"
    using c unfolding r by (intro heap_step.grow) simp
  then have "heap_step\<^sup>*\<^sup>* (a1, m1, {}) (a1, m1 @ replicate 64 0, {})" by (rule r_into_rtranclp)
  from poisoned_forever [OF r this, of 1] r show ?thesis by simp
qed

text \<open>The bump test is exact below 4 GiB, and above it the sum has wrapped around:
  the request is then accepted whenever the wrapped end is inside the memory,
  although the region itself is not.\<close>

theorem bump_characterised:
  "bump b sz heap_end = Inr r \<longleftrightarrow> r = (b, b + sz) \<and>
     (unat b + unat sz \<le> unat heap_end \<or>
      (2 ^ 32 \<le> unat b + unat sz \<and> unat b + unat sz - 2 ^ 32 \<le> unat heap_end))"
proof -
  have b: "bump b sz heap_end = Inr r \<longleftrightarrow> r = (b, b + sz) \<and> unat (b + sz) \<le> unat heap_end"
    by (auto simp: bump_def word_less_nat_alt not_less)
  have lt: "unat b < 4294967296" "unat sz < 4294967296" "unat heap_end < 4294967296"
    using unat_lt32 [of b] unat_lt32 [of sz] unat_lt32 [of heap_end] by simp_all
  have "unat b + unat sz - 4294967296 < 4294967296" using lt by linarith
  then have "unat (b + sz) = (if unat b + unat sz < 4294967296 then unat b + unat sz
    else unat b + unat sz - 4294967296)"
    unfolding unat_add32 by (simp add: le_mod_geq)
  with lt show ?thesis unfolding b by (cases "unat b + unat sz < 4294967296") (simp_all, linarith+)
qed

end
