(* ===== verification/Wasmedge.thy ===== *)
theory Wasmedge
  imports Freeing_Bump "HOL-Library.AList"
begin

text \<open>
  The WasmEdge executor (\<open>client/executor/wasmedge\<close> with the parts of
  \<open>client/executor/common\<close> it uses): value conversions, bounds-checked memory
  access, the host context, the instance wrapper, the registration of host
  functions, the call protocol and the two instance strategies. The WasmEdge SDK
  is not part of the sources: its operations are the fields of the record
  \<open>sdk\<close>, which every definition that uses them takes as an argument.
\<close>

section \<open>Values\<close>

text \<open>\<open>sp_wasm_interface::Value\<close> and \<open>ValueType\<close>; signed integers are words, read
  signed where their sign matters.\<close>

datatype wvalue = I32 "32 word" | I64 "64 word" | F32 u32 | F64 u64

datatype value_type = T_I32 | T_I64 | T_F32 | T_F64

fun type_of_value :: "wvalue \<Rightarrow> value_type" where
  "type_of_value (I32 _) = T_I32"
| "type_of_value (I64 _) = T_I64"
| "type_of_value (F32 _) = T_F32"
| "type_of_value (F64 _) = T_F64"

text \<open>The values and value types of the SDK. A float is its IEEE 754 bit pattern.\<close>

datatype val_type = Ty_I32 | Ty_I64 | Ty_F32 | Ty_F64 | Ty_V128 | Ty_FuncRef | Ty_ExternRef

datatype 'f val =
  Val_I32 "32 word" | Val_I64 "64 word" | Val_F32 u32 | Val_F64 u64
| Val_V128 u128 | Val_FuncRef "'f option" | Val_ExternRef

fun val_ty :: "'f val \<Rightarrow> val_type" where
  "val_ty (Val_I32 _) = Ty_I32"
| "val_ty (Val_I64 _) = Ty_I64"
| "val_ty (Val_F32 _) = Ty_F32"
| "val_ty (Val_F64 _) = Ty_F64"
| "val_ty (Val_V128 _) = Ty_V128"
| "val_ty (Val_FuncRef _) = Ty_FuncRef"
| "val_ty Val_ExternRef = Ty_ExternRef"

text \<open>
  The language's numeric casts between a float of \<open>p\<close> mantissa and \<open>e\<close> exponent
  bits, given by its bit pattern \<open>b\<close>, and an unsigned integer of \<open>w\<close> bits: float to
  integer truncates and saturates, and NaN gives 0; integer to float rounds to
  nearest, ties to even.
\<close>

definition float_as_uint :: "nat \<Rightarrow> nat \<Rightarrow> nat \<Rightarrow> int \<Rightarrow> int" where
  "float_as_uint p e w b =
     (let m = b mod 2 ^ p;
          ex = b div 2 ^ p mod 2 ^ e;
          negative = b div 2 ^ (p + e) mod 2 = 1;
          bias = 2 ^ (e - 1) - 1;
          sig = 2 ^ p + m
      in if ex = 2 ^ e - 1 \<and> m \<noteq> 0 then 0
         else if negative then 0
         else if ex = 2 ^ e - 1 then 2 ^ w - 1
         else if ex < bias then 0
         else if ex - bias \<ge> int p then min (sig * 2 ^ nat (ex - bias - int p)) (2 ^ w - 1)
         else min (sig div 2 ^ nat (int p - (ex - bias))) (2 ^ w - 1))"

function bit_length :: "int \<Rightarrow> int" where
  "bit_length n = (if n \<le> 0 then 0 else 1 + bit_length (n div 2))"
  by pat_completeness auto
termination by (relation "measure nat") auto

definition uint_as_float :: "nat \<Rightarrow> nat \<Rightarrow> int \<Rightarrow> int" where
  "uint_as_float p e n =
     (if n = 0 then 0
      else
        let k = bit_length n - 1;
            bias = 2 ^ (e - 1) - 1;
            base = (k + bias) * 2 ^ p
        in if k \<le> int p then base + (n * 2 ^ nat (int p - k) - 2 ^ p)
           else
             let sh = nat (k - int p);
                 q = n div 2 ^ sh;
                 r = n mod 2 ^ sh;
                 half = 2 ^ (sh - 1)
             in base + ((if r > half \<or> r = half \<and> q mod 2 = 1 then q + 1 else q) - 2 ^ p))"

definition f32_as_u32 :: "u32 \<Rightarrow> u32" where "f32_as_u32 v = of_int (float_as_uint 23 8 32 (uint v))"
definition f64_as_u64 :: "u64 \<Rightarrow> u64" where "f64_as_u64 v = of_int (float_as_uint 52 11 64 (uint v))"
definition u32_as_f32 :: "u32 \<Rightarrow> u32" where "u32_as_f32 n = of_int (uint_as_float 23 8 (uint n))"
definition u64_as_f64 :: "u64 \<Rightarrow> u64" where "u64_as_f64 n = of_int (uint_as_float 52 11 (uint n))"

text \<open>\<open>util.rs\<close>: the four conversions. An unsupported value is a panic (\<open>None\<close>).\<close>

fun from_wasmedge_val :: "'f val \<Rightarrow> wvalue option" where
  "from_wasmedge_val (Val_I32 v) = Some (I32 v)"
| "from_wasmedge_val (Val_I64 v) = Some (I64 v)"
| "from_wasmedge_val (Val_F32 v) = Some (F32 (f32_as_u32 v))"
| "from_wasmedge_val (Val_F64 v) = Some (F64 (f64_as_u64 v))"
| "from_wasmedge_val _ = None"

fun into_wasmedge_val :: "wvalue \<Rightarrow> 'f val" where
  "into_wasmedge_val (I32 v) = Val_I32 v"
| "into_wasmedge_val (I64 v) = Val_I64 v"
| "into_wasmedge_val (F32 f_bits) = Val_F32 (u32_as_f32 f_bits)"
| "into_wasmedge_val (F64 f_bits) = Val_F64 (u64_as_f64 f_bits)"

fun into_wasmedge_val_type :: "value_type \<Rightarrow> val_type" where
  "into_wasmedge_val_type T_I32 = Ty_I32"
| "into_wasmedge_val_type T_I64 = Ty_I64"
| "into_wasmedge_val_type T_F32 = Ty_F32"
| "into_wasmedge_val_type T_F64 = Ty_F64"

text \<open>A \<open>WasmValue\<close> is read by its type tag; it carries the same data as a \<open>Val\<close>.\<close>

definition from_wasmedge_value :: "'f val \<Rightarrow> wvalue option" where
  "from_wasmedge_value v =
     (case val_ty v of
        Ty_I32 \<Rightarrow> from_wasmedge_val v
      | Ty_I64 \<Rightarrow> from_wasmedge_val v
      | Ty_F32 \<Rightarrow> from_wasmedge_val v
      | Ty_F64 \<Rightarrow> from_wasmedge_val v
      | _ \<Rightarrow> None)"

definition into_wasmedge_value :: "wvalue \<Rightarrow> 'f val" where
  "into_wasmedge_value v =
     (case v of
        I32 x \<Rightarrow> Val_I32 x
      | I64 x \<Rightarrow> Val_I64 x
      | F32 f_bits \<Rightarrow> Val_F32 (u32_as_f32 f_bits)
      | F64 f_bits \<Rightarrow> Val_F64 (u64_as_f64 f_bits))"

section \<open>Packed pointers\<close>

definition pack_ptr_and_len :: "u32 \<Rightarrow> u32 \<Rightarrow> u64" where
  "pack_ptr_and_len ptr len = push_bit 32 (ucast len) OR ucast ptr"

definition unpack_ptr_and_len :: "u64 \<Rightarrow> u32 \<times> u32" where
  "unpack_ptr_and_len v = (ucast (v AND 0xFFFFFFFF), ucast (drop_bit 32 v))"

section \<open>Errors\<close>

text \<open>\<open>sc_executor_common::error\<close>: the errors the executor produces. \<open>Exec_Panic\<close>
  stands for a failed \<open>expect\<close>, \<open>panic!\<close> or index out of bounds.\<close>

datatype wasm_error = WasmError_Other string

record message_with_backtrace =
  message :: string
  backtrace :: string

datatype exec_error =
  Exec_Other string
| Exec_Allocator alloc_error
| NoTable
| NoTableEntryWithIndex u32
| FunctionRefIsNull u32
| RuntimeConstruction wasm_error
| SharedMemUnsupported
| ImportedGlobalsUnsupported
| InitializerHasTooManyExpressions
| InvalidInitializerExpression string
| AbortedDueToPanic message_with_backtrace
| AbortedDueToTrap message_with_backtrace
| Exec_Panic

definition wasm_other :: "string \<Rightarrow> exec_error" where
  "wasm_other s = RuntimeConstruction (WasmError_Other s)"

section \<open>Bounds-checked memory access\<close>

text \<open>\<open>checked_range\<close> of \<open>common/src/util.rs\<close>; \<open>usize\<close> has 64 bits.\<close>

definition checked_range :: "nat \<Rightarrow> nat \<Rightarrow> nat \<Rightarrow> (nat \<times> nat) option" where
  "checked_range offset len mx =
     (if int (offset + len) < 2 ^ 64 \<and> offset + len \<le> mx then Some (offset, offset + len)
      else None)"

definition read_memory_into :: "u8 list \<Rightarrow> u32 \<Rightarrow> u8 list \<Rightarrow> exec_error + u8 list" where
  "read_memory_into mem address dest =
     bindR (ok_or (checked_range (unat address) (length dest) (length mem))
              (Exec_Other ''memory read is out of bounds''))
       (\<lambda>(s, e). Inr (subslice mem s (e - s)))"

definition write_memory_from :: "u8 list \<Rightarrow> u32 \<Rightarrow> u8 list \<Rightarrow> exec_error + u8 list" where
  "write_memory_from mem address data =
     bindR (ok_or (checked_range (unat address) (length data) (length mem))
              (Exec_Other ''memory write is out of bounds''))
       (\<lambda>(s, e). Inr (overwrite mem s data))"

definition read_memory :: "u8 list \<Rightarrow> u32 \<Rightarrow> nat \<Rightarrow> exec_error + u8 list" where
  "read_memory mem source_addr sz =
     bindR (ok_or (checked_range (unat source_addr) sz (length mem))
              (Exec_Other ''memory read is out of bounds''))
       (\<lambda>(s, e). read_memory_into mem source_addr (replicate (e - s) 0))"

section \<open>Host state and the SDK\<close>

record host_state =
  hs_allocator :: allocator
  panic_message :: "string option"

definition host_state_new :: "allocator \<Rightarrow> host_state" where
  "host_state_new a = \<lparr>hs_allocator = a, panic_message = None\<rparr>"

definition take_panic_message :: "host_state \<Rightarrow> string option \<times> host_state" where
  "take_panic_message h = (panic_message h, h\<lparr>panic_message := None\<rparr>)"

text \<open>An instance: its exported functions, tables and globals. Its linear memory is
  the \<open>memory\<close> field of the wrapper, the only handle through which it is used.\<close>

record 'f wasm_instance =
  inst_funcs :: "string \<rightharpoonup> 'f"
  inst_tables :: "string \<rightharpoonup> 'f val list"
  inst_globals :: "string \<rightharpoonup> 'f val"

record 'f wrapper =
  instance_of :: "'f wasm_instance option"
  memory :: "u8 list option"
  host_state :: "host_state option"

text \<open>
  The SDK operations the executor calls: instantiation of a module (its instance and
  exported memories), the type of a function, running a function (which may call back
  into the host functions and so change the whole wrapper), setting a global from its
  old value, the check of a data pointer, and the raw 64-bit reading of a value.
\<close>

record ('m, 'f) sdk =
  register_active_module :: "'m \<Rightarrow> string + ('f wasm_instance \<times> (string \<rightharpoonup> u8 list))"
  func_ty :: "'f \<Rightarrow> string + (val_type list option \<times> val_type list option)"
  func_call :: "'f \<Rightarrow> 'f val list \<Rightarrow> 'f wrapper \<Rightarrow> (string + 'f val list) \<times> 'f wrapper"
  global_set_value :: "'f val \<Rightarrow> 'f val \<Rightarrow> 'f val option"
  data_pointer :: "u8 list \<Rightarrow> nat \<Rightarrow> nat \<Rightarrow> bool"
  to_i64 :: "'f val \<Rightarrow> u64"

text \<open>\<open>memory.size() * 64 * 1024\<close>: the size in pages is a \<open>u32\<close>, and so is the product.\<close>

definition memory_size :: "u8 list \<Rightarrow> u32" where
  "memory_size m = of_nat (length m div 65536)"

definition memory_slice_len :: "u8 list \<Rightarrow> nat" where
  "memory_slice_len m = unat (memory_size m * 64 * 1024)"

definition memory_slice :: "('m, 'f) sdk \<Rightarrow> u8 list \<Rightarrow> exec_error + u8 list" where
  "memory_slice S m =
     (if data_pointer S m 0 1 then Inr (take (memory_slice_len m) m) else Inl Exec_Panic)"

text \<open>Writing back a slice that was borrowed mutably.\<close>

definition put_slice :: "u8 list \<Rightarrow> u8 list \<Rightarrow> u8 list" where
  "put_slice m sl = overwrite m 0 sl"

section \<open>The host context\<close>

text \<open>\<open>HostContext\<close> of \<open>host.rs\<close>: the memory and the host state a host function works on.
  Errors cross the boundary as strings (\<open>e.to_string()\<close>); a panic unwinds.\<close>

datatype host_error = Host_Error string | Host_Panic

fun alloc_error_string :: "alloc_error \<Rightarrow> string" where
  "alloc_error_string RequestedAllocationTooLarge = ''Requested allocation size is too large''"
| "alloc_error_string AllocatorOutOfSpace = ''Allocator ran out of space''"
| "alloc_error_string MemoryShrinked = ''Shrinking of the underlying memory is observed''"
| "alloc_error_string (Other s) = ''Other: '' @ s"
| "alloc_error_string Panic = ''''"

definition alloc_to_host :: "alloc_error \<Rightarrow> host_error" where
  "alloc_to_host e = (if e = Panic then Host_Panic else Host_Error (alloc_error_string e))"

text \<open>Only memory-access errors reach this conversion.\<close>

fun exec_to_host :: "exec_error \<Rightarrow> host_error" where
  "exec_to_host (Exec_Other s) = Host_Error (''Other: '' @ s)"
| "exec_to_host _ = Host_Panic"

record host_context =
  ctx_memory :: "u8 list"
  ctx_host_state :: host_state

definition ctx_read_memory_into ::
  "('m, 'f) sdk \<Rightarrow> host_context \<Rightarrow> u32 \<Rightarrow> u8 list \<Rightarrow> host_error + u8 list" where
  "ctx_read_memory_into S c address dest =
     (case bindR (memory_slice S (ctx_memory c)) (\<lambda>sl. read_memory_into sl address dest) of
        Inl e \<Rightarrow> Inl (exec_to_host e) | Inr bs \<Rightarrow> Inr bs)"

definition ctx_write_memory ::
  "('m, 'f) sdk \<Rightarrow> host_context \<Rightarrow> u32 \<Rightarrow> u8 list \<Rightarrow> (host_error + unit) \<times> host_context" where
  "ctx_write_memory S c address data =
     (case bindR (memory_slice S (ctx_memory c)) (\<lambda>sl. write_memory_from sl address data) of
        Inl e \<Rightarrow> (Inl (exec_to_host e), c)
      | Inr sl \<Rightarrow> (Inr (), c\<lparr>ctx_memory := put_slice (ctx_memory c) sl\<rparr>))"

definition ctx_allocate_memory ::
  "('m, 'f) sdk \<Rightarrow> host_context \<Rightarrow> u32 \<Rightarrow> (host_error + u32) \<times> host_context" where
  "ctx_allocate_memory S c sz =
     (case memory_slice S (ctx_memory c) of
        Inl e \<Rightarrow> (Inl Host_Panic, c)
      | Inr sl \<Rightarrow>
          (case allocate slice_memory (hs_allocator (ctx_host_state c)) sl sz of
             (r, a, sl') \<Rightarrow>
               (case r of Inl e \<Rightarrow> Inl (alloc_to_host e) | Inr p \<Rightarrow> Inr p,
                \<lparr>ctx_memory = put_slice (ctx_memory c) sl',
                 ctx_host_state = (ctx_host_state c)\<lparr>hs_allocator := a\<rparr>\<rparr>)))"

definition ctx_deallocate_memory ::
  "('m, 'f) sdk \<Rightarrow> host_context \<Rightarrow> u32 \<Rightarrow> (host_error + unit) \<times> host_context" where
  "ctx_deallocate_memory S c ptr =
     (case memory_slice S (ctx_memory c) of
        Inl e \<Rightarrow> (Inl Host_Panic, c)
      | Inr sl \<Rightarrow>
          (case deallocate slice_memory (hs_allocator (ctx_host_state c)) sl ptr of
             (r, a, sl') \<Rightarrow>
               (case r of Inl e \<Rightarrow> Inl (alloc_to_host e) | Inr u \<Rightarrow> Inr u,
                \<lparr>ctx_memory = put_slice (ctx_memory c) sl',
                 ctx_host_state = (ctx_host_state c)\<lparr>hs_allocator := a\<rparr>\<rparr>)))"

definition register_panic_error_message :: "host_context \<Rightarrow> string \<Rightarrow> host_context" where
  "register_panic_error_message c msg =
     c\<lparr>ctx_host_state := (ctx_host_state c)\<lparr>panic_message := Some msg\<rparr>\<rparr>"

section \<open>Host functions\<close>

text \<open>\<open>HostFuncErrorWasmEdge\<close> and the entry point of every registered host function
  (\<open>function_static\<close> in \<open>imports.rs\<close>). The host function itself is the argument
  \<open>execute\<close>: it may return a value, nothing or an error, or unwind with a message
  (\<open>None\<close> when the payload is not a \<open>String\<close>).\<close>

datatype host_func_error = MissingHostFunc | AllocateMemoryErr | SpawnedTaskErr | Others

fun host_func_error_code :: "host_func_error \<Rightarrow> u32" where
  "host_func_error_code MissingHostFunc = 1"
| "host_func_error_code AllocateMemoryErr = 2"
| "host_func_error_code SpawnedTaskErr = 3"
| "host_func_error_code Others = 4"

fun find_substring :: "string \<Rightarrow> string \<Rightarrow> nat option" where
  "find_substring pat [] = (if pat = [] then Some 0 else None)"
| "find_substring pat (c # cs) =
     (if take (length pat) (c # cs) = pat then Some 0
      else map_option Suc (find_substring pat cs))"

definition contains :: "string \<Rightarrow> string \<Rightarrow> bool" where
  "contains s pat = (find_substring pat s \<noteq> None)"

datatype exec_outcome =
  Returned "wvalue option" | Failed string | Unwound "string option"

text \<open>The arguments are converted lazily, while the host function consumes them: a
  \<open>None\<close> among them panics when it is reached. Running without a host state or memory
  panics outside of the \<open>catch_unwind\<close> (\<open>None\<close>); otherwise the result is the error
  code or the values.\<close>

definition function_static ::
  "(host_context \<Rightarrow> wvalue option list \<Rightarrow> exec_outcome \<times> host_context) \<Rightarrow>
   'f val list \<Rightarrow> 'f wrapper \<Rightarrow> (u32 + 'f val list) option \<times> 'f wrapper" where
  "function_static execute inputs w =
     (case (host_state w, memory w) of
        (Some hs, Some mem) \<Rightarrow>
          (case execute \<lparr>ctx_memory = mem, ctx_host_state = hs\<rparr> (map from_wasmedge_value inputs) of
             (out, c) \<Rightarrow>
               (Some
                 (case out of
                    Returned (Some v) \<Rightarrow> Inr [into_wasmedge_value v]
                  | Returned None \<Rightarrow> Inr []
                  | Failed _ \<Rightarrow> Inl (host_func_error_code Others)
                  | Unwound None \<Rightarrow> Inl (host_func_error_code Others)
                  | Unwound (Some msg) \<Rightarrow>
                      Inl (host_func_error_code
                        (if contains msg ''Spawned task'' then SpawnedTaskErr
                         else if contains msg ''Failed to allocate memory''
                         then AllocateMemoryErr else Others))),
                w\<lparr>memory := Some (ctx_memory c), host_state := Some (ctx_host_state c)\<rparr>))
      | _ \<Rightarrow> (None, w))"

section \<open>Registration of the imports\<close>

type_synonym func_type = "val_type list option \<times> val_type list option"

datatype import_kind = Import_Func func_type | Import_Other

record import_entry =
  imp_module :: string
  imp_name :: string
  imp_kind :: import_kind

record host_function =
  hf_name :: string
  hf_args :: "value_type list"
  hf_return :: "value_type option"

text \<open>What is registered under a name: the host function, or the stub that traps, each
  with the type it is registered under.\<close>

datatype registered = Bound host_function func_type | Stub func_type

text \<open>The SDK's part: adding a function under a name, building the import object and
  registering it, each of which may fail with a message. The source collects imports
  in a \<open>HashMap\<close>, whose iteration order is the argument \<open>iter\<close>.\<close>

record import_sdk =
  with_func :: "string \<Rightarrow> string + unit"
  build_import :: "string + unit"
  register_import_module :: "string + unit"

fun collect_imports ::
  "import_entry list \<Rightarrow> (string \<times> func_type) list \<Rightarrow> wasm_error + (string \<times> func_type) list" where
  "collect_imports [] pending = Inr pending"
| "collect_imports (i # is) pending =
     (if imp_module i \<noteq> ''env'' then
        Inl (WasmError_Other (''host doesn't provide any imports from non-env module: '' @
          imp_module i @ '':'' @ imp_name i))
      else case imp_kind i of
        Import_Func ty \<Rightarrow> collect_imports is (AList.update (imp_name i) ty pending)
      | Import_Other \<Rightarrow>
          Inl (WasmError_Other (''host doesn't provide any non function imports: '' @
            imp_module i @ '':'' @ imp_name i)))"

definition host_func_type :: "host_function \<Rightarrow> func_type" where
  "host_func_type h =
     (Some (map into_wasmedge_val_type (hf_args h)),
      Some (map into_wasmedge_val_type (case hf_return h of None \<Rightarrow> [] | Some t \<Rightarrow> [t])))"

fun bind_imports ::
  "import_sdk \<Rightarrow> host_function list \<Rightarrow> (string \<times> func_type) list \<Rightarrow>
   (string \<times> registered) list \<Rightarrow> (string \<times> func_type) list \<Rightarrow>
   wasm_error + (string \<times> registered) list \<times> (string \<times> func_type) list" where
  "bind_imports K hfs [] acc missing = Inr (acc, missing)"
| "bind_imports K hfs ((name, ty) # rest) acc missing =
     (case find (\<lambda>h. hf_name h = name) hfs of
        Some h \<Rightarrow>
          if ty \<noteq> host_func_type h then
            Inl (WasmError_Other (''signature mismatch for: env:'' @ name))
          else
            (case with_func K name of
               Inl e \<Rightarrow> Inl (WasmError_Other (''failed to register host function '' @ CHR 0x27 # name @
                              CHR 0x27 # '' into WASM: '' @ e))
             | Inr _ \<Rightarrow> bind_imports K hfs rest (acc @ [(name, Bound h ty)]) missing)
      | None \<Rightarrow> bind_imports K hfs rest acc (AList.update name ty missing))"

text \<open>\<open>with_func::<(), (), !>\<close>: every stub is registered with the empty type.\<close>

fun stub_imports ::
  "import_sdk \<Rightarrow> (string \<times> func_type) list \<Rightarrow> (string \<times> registered) list \<Rightarrow>
   wasm_error + (string \<times> registered) list" where
  "stub_imports K [] acc = Inr acc"
| "stub_imports K ((name, ty) # rest) acc =
     (case with_func K name of
        Inl e \<Rightarrow> Inl (WasmError_Other (''fail to create a blank Function instance: '' @ e))
      | Inr _ \<Rightarrow> stub_imports K rest (acc @ [(name, Stub (Some [], Some []))]))"

fun join :: "string \<Rightarrow> string list \<Rightarrow> string" where
  "join sep [] = []"
| "join sep [x] = x"
| "join sep (x # xs) = x @ sep @ join sep xs"

definition prepare_imports ::
  "import_sdk \<Rightarrow> ((string \<times> func_type) list \<Rightarrow> (string \<times> func_type) list) \<Rightarrow>
   import_entry list \<Rightarrow> host_function list \<Rightarrow> bool \<Rightarrow> wasm_error + (string \<times> registered) list" where
  "prepare_imports K iter imports hfs allow_missing =
     bindR (collect_imports imports []) (\<lambda>pending.
     bindR (bind_imports K hfs (iter pending) [] []) (\<lambda>(acc, missing).
     bindR
       (if missing = [] then Inr acc
        else if allow_missing then stub_imports K (iter missing) acc
        else Inl (WasmError_Other
               (''runtime requires function imports which are not present on the host: '' @
                join '', '' (map (\<lambda>(n, _). CHR 0x27 # ''env:'' @ n @ [CHR 0x27]) (iter missing)))))
       (\<lambda>all.
     case build_import K of
       Inl e \<Rightarrow> Inl (WasmError_Other (''fail to create a WasmEdge import object: '' @ e))
     | Inr _ \<Rightarrow>
         (case register_import_module K of
            Inl e \<Rightarrow> Inl (WasmError_Other (''failed to register import object: '' @
                       ''failed to register import object: '' @ e))
          | Inr _ \<Rightarrow> Inr all))))"

section \<open>The instance wrapper\<close>

definition wrapper_new :: "'f wrapper" where
  "wrapper_new = \<lparr>instance_of = None, memory = None, host_state = None\<rparr>"

definition wrapper_instantiate ::
  "('m, 'f) sdk \<Rightarrow> 'm \<Rightarrow> 'f wrapper \<Rightarrow> (exec_error + unit) \<times> 'f wrapper" where
  "wrapper_instantiate S module w =
     (case register_active_module S module of
        Inl e \<Rightarrow> (Inl (wasm_other (''failed to register active module: '' @ e)), w)
      | Inr (inst, mems) \<Rightarrow>
          (case mems ''memory'' of
             None \<Rightarrow> (Inl (wasm_other (''fail to get WASM memory named '' @ CHR 0x27 # ''memory'' @ [CHR 0x27])), w)
           | Some mem \<Rightarrow> (Inr (), w\<lparr>instance_of := Some inst, memory := Some mem\<rparr>)))"

datatype invoke_method =
  Export string | Table u32 | TableWithWrapper (dispatcher_ref: u32) (wrapped_func: u32)

definition check_signature ::
  "('m, 'f) sdk \<Rightarrow> val_type list \<Rightarrow> 'f \<Rightarrow> exec_error + unit" where
  "check_signature S expected f =
     (case func_ty S f of
        Inl e \<Rightarrow> Inl (wasm_other (''fail to get the function type: '' @ e))
      | Inr (args, rets) \<Rightarrow>
          (let params = (case args of None \<Rightarrow> [] | Some xs \<Rightarrow> xs);
               returns = (case rets of None \<Rightarrow> [] | Some xs \<Rightarrow> xs)
           in if params \<noteq> expected \<or> returns \<noteq> [Ty_I64]
              then Inl (Exec_Other ''Invalid signature for direct entry point'') else Inr ()))"

definition check_signature1 :: "('m, 'f) sdk \<Rightarrow> 'f \<Rightarrow> exec_error + unit" where
  "check_signature1 S f = check_signature S [Ty_I32, Ty_I32] f"

definition check_signature2 :: "('m, 'f) sdk \<Rightarrow> 'f \<Rightarrow> exec_error + unit" where
  "check_signature2 S f = check_signature S [Ty_I32, Ty_I32] f"

definition check_signature3 :: "('m, 'f) sdk \<Rightarrow> 'f \<Rightarrow> exec_error + unit" where
  "check_signature3 S f = check_signature S [Ty_I32, Ty_I32, Ty_I32] f"

text \<open>The function a method names, with the arguments it is called with, or the error
  before the call.\<close>

definition table_func :: "'f wasm_instance \<Rightarrow> u32 \<Rightarrow> exec_error + 'f" where
  "table_func inst idx =
     (case inst_tables inst ''__indirect_function_table'' of
        None \<Rightarrow> Inl NoTable
      | Some table \<Rightarrow>
          if unat idx < length table then
            (case table ! unat idx of
               Val_FuncRef (Some f) \<Rightarrow> Inr f
             | _ \<Rightarrow> Inl (FunctionRefIsNull idx))
          else Inl (NoTableEntryWithIndex idx))"

fun resolve_method ::
  "('m, 'f) sdk \<Rightarrow> 'f wasm_instance \<Rightarrow> invoke_method \<Rightarrow> u32 \<Rightarrow> u32 \<Rightarrow> exec_error + 'f \<times> 'f val list" where
  "resolve_method S inst (Export name) ptr len =
     bindR (ok_or (inst_funcs inst name) (wasm_other ''function is not found'')) (\<lambda>f.
     bindR (check_signature1 S f) (\<lambda>_. Inr (f, [Val_I32 ptr, Val_I32 len])))"
| "resolve_method S inst (Table idx) ptr len =
     bindR (table_func inst idx) (\<lambda>f.
     bindR (check_signature2 S f) (\<lambda>_. Inr (f, [Val_I32 ptr, Val_I32 len])))"
| "resolve_method S inst (TableWithWrapper d fn) ptr len =
     bindR (table_func inst d) (\<lambda>f.
     bindR (check_signature3 S f) (\<lambda>_. Inr (f, [Val_I32 fn, Val_I32 ptr, Val_I32 len])))"

definition strip_backtrace :: "string \<Rightarrow> string" where
  "strip_backtrace t =
     (let suffix = CHR 0x0A # ''wasm backtrace:'' in
      case find_substring suffix t of
        Some index \<Rightarrow> drop (index + length suffix) t
      | None \<Rightarrow> t)"

definition trap_error :: "string \<Rightarrow> 'f wrapper \<Rightarrow> exec_error \<times> 'f wrapper" where
  "trap_error trap w =
     (case host_state w of
        None \<Rightarrow> (Exec_Panic, w)
      | Some hs \<Rightarrow>
          (case take_panic_message hs of
             (Some msg, hs') \<Rightarrow>
               (AbortedDueToPanic \<lparr>message = msg, backtrace = strip_backtrace trap\<rparr>,
                w\<lparr>host_state := Some hs'\<rparr>)
           | (None, hs') \<Rightarrow>
               (AbortedDueToTrap \<lparr>message = trap, backtrace = strip_backtrace trap\<rparr>,
                w\<lparr>host_state := Some hs'\<rparr>)))"

definition wrapper_call ::
  "('m, 'f) sdk \<Rightarrow> invoke_method \<Rightarrow> u32 \<Rightarrow> u32 \<Rightarrow> 'f wrapper \<Rightarrow> (exec_error + u64) \<times> 'f wrapper" where
  "wrapper_call S method data_ptr data_len w =
     (case instance_of w of
        None \<Rightarrow> (Inl Exec_Panic, w)
      | Some inst \<Rightarrow>
          (case resolve_method S inst method data_ptr data_len of
             Inl e \<Rightarrow> (Inl e, w)
           | Inr (f, args) \<Rightarrow>
               (case func_call S f args w of
                  (Inl trap, w') \<Rightarrow> (case trap_error trap w' of (e, w'') \<Rightarrow> (Inl e, w''))
                | (Inr [], w') \<Rightarrow> (Inl Exec_Panic, w')
                | (Inr (res # _), w') \<Rightarrow> (Inr (to_i64 S res), w'))))"

definition extract_heap_base :: "'f wrapper \<Rightarrow> exec_error + u32" where
  "extract_heap_base w =
     (case instance_of w of
        None \<Rightarrow> Inl Exec_Panic
      | Some inst \<Rightarrow>
          (case inst_globals inst ''__heap_base'' of
             None \<Rightarrow> Inl (wasm_other (''failed to get WASM global named '' @ CHR 0x27 # ''__heap_base'' @ [CHR 0x27]))
           | Some (Val_I32 v) \<Rightarrow> Inr v
           | Some _ \<Rightarrow> Inl (Exec_Other ''the type of WASM global named '__heap_base' is not i32'')))"

definition get_global_val :: "string \<Rightarrow> 'f wrapper \<Rightarrow> exec_error + wvalue option" where
  "get_global_val name w =
     (case instance_of w of
        None \<Rightarrow> Inl Exec_Panic
      | Some inst \<Rightarrow>
          (case inst_globals inst name of
             None \<Rightarrow> Inl (Exec_Other ''failed to get WASM global'')
           | Some (Val_I32 v) \<Rightarrow> Inr (Some (I32 v))
           | Some (Val_I64 v) \<Rightarrow> Inr (Some (I64 v))
           | Some (Val_F32 v) \<Rightarrow> Inr (Some (F32 (f32_as_u32 v)))
           | Some (Val_F64 v) \<Rightarrow> Inr (Some (F64 (f64_as_u64 v)))
           | Some _ \<Rightarrow> Inl (Exec_Other ''Unknown value type'')))"

text \<open>\<open>decommit\<close> zeroes the memory, by the operating system or by hand.\<close>

definition decommit :: "('m, 'f) sdk \<Rightarrow> 'f wrapper \<Rightarrow> (exec_error + unit) \<times> 'f wrapper" where
  "decommit S w =
     (case memory w of
        None \<Rightarrow> (Inl Exec_Panic, w)
      | Some m \<Rightarrow>
          if memory_size m = 0 then (Inr (), w)
          else if data_pointer S m 0 1 then
            (Inr (), w\<lparr>memory := Some (overwrite m 0 (replicate (memory_slice_len m) 0))\<rparr>)
          else (Inl Exec_Panic, w))"

section \<open>Runtime blobs and snapshots\<close>

text \<open>The parts of a parsed module (\<open>parity_wasm\<close>) that \<open>runtime_blob\<close> reads or changes;
  a section that is absent is \<open>None\<close>.\<close>

datatype instruction = I32Const "32 word" | GetGlobal u32 | Insn_End | Insn string

record data_segment =
  seg_offset :: "instruction list option"
  seg_contents :: "u8 list"

datatype internal = Int_Function u32 | Int_Table u32 | Int_Memory u32 | Int_Global u32

record limits =
  initial :: u32
  maximum :: "u32 option"

datatype external = Ext_Function u32 | Ext_Table | Ext_Memory limits | Ext_Global

record raw_module =
  import_section :: "(string \<times> string \<times> external) list option"
  memory_section :: "limits list option"
  export_section :: "(string \<times> internal) list option"
  data_section :: "data_segment list option"

definition data_segments :: "raw_module \<Rightarrow> data_segment list" where
  "data_segments b = (case data_section b of None \<Rightarrow> [] | Some ds \<Rightarrow> ds)"

text \<open>Passes of the instrumentation library and the insertion of a memory section.\<close>

record blob_tools =
  inject_stack_limiter :: "u32 \<Rightarrow> raw_module \<Rightarrow> string + raw_module"
  export_mutable_globals :: "raw_module \<Rightarrow> raw_module"
  insert_memory_section :: "limits list \<Rightarrow> raw_module \<Rightarrow> string + raw_module"

fun split_memory_import ::
  "(string \<times> string \<times> external) list \<Rightarrow>
   ((string \<times> limits) \<times> (string \<times> string \<times> external) list) option" where
  "split_memory_import [] = None"
| "split_memory_import ((md, field, ext) # rest) =
     (case ext of
        Ext_Memory l \<Rightarrow> Some ((field, l), rest)
      | _ \<Rightarrow> map_option (\<lambda>(x, rest'). (x, (md, field, ext) # rest')) (split_memory_import rest))"

definition convert_memory_import_into_export ::
  "blob_tools \<Rightarrow> raw_module \<Rightarrow> wasm_error + raw_module" where
  "convert_memory_import_into_export B b =
     (case import_section b of
        None \<Rightarrow> Inr b
      | Some imports \<Rightarrow>
          (case split_memory_import imports of
             None \<Rightarrow> Inr b
           | Some ((memory_name, memory_ty), imports') \<Rightarrow>
               (case insert_memory_section B [memory_ty] (b\<lparr>import_section := Some imports'\<rparr>) of
                  Inl e \<Rightarrow> Inl (WasmError_Other
                    (''can't convert a memory import into an export: failed to insert a new memory section: '' @ e))
                | Inr b' \<Rightarrow>
                    let exports = (case export_section b' of None \<Rightarrow> [] | Some es \<Rightarrow> es)
                    in Inr (b'\<lparr>export_section := Some (exports @ [(memory_name, Int_Memory 0)])\<rparr>))))"

definition saturating_add32 :: "u32 \<Rightarrow> u32 \<Rightarrow> u32" where
  "saturating_add32 a b = (if uint a + uint b < 2 ^ 32 then a + b else - 1)"

definition grow_limits :: "u32 \<Rightarrow> limits \<Rightarrow> limits" where
  "grow_limits extra l =
     (let mn = saturating_add32 (initial l) extra
      in \<lparr>initial = mn, maximum = map_option (max mn) (maximum l)\<rparr>)"

definition add_extra_heap_pages_to_memory_section :: "u32 \<Rightarrow> raw_module \<Rightarrow> wasm_error + raw_module" where
  "add_extra_heap_pages_to_memory_section extra b =
     (case memory_section b of
        None \<Rightarrow> Inl (WasmError_Other ''no memory section found'')
      | Some ms \<Rightarrow>
          if ms = [] then Inl (WasmError_Other ''memory section is empty'')
          else Inr (b\<lparr>memory_section := Some (map (grow_limits extra) ms)\<rparr>))"

record semantics =
  fast_instance_reuse :: bool
  deterministic_stack_limit :: "u32 option"
  extra_heap_pages :: u64
  max_memory_size :: "u64 option"

definition prepare_blob_for_compilation ::
  "blob_tools \<Rightarrow> semantics \<Rightarrow> raw_module \<Rightarrow> wasm_error + raw_module" where
  "prepare_blob_for_compilation B sem b =
     bindR (case deterministic_stack_limit sem of
              None \<Rightarrow> Inr b
            | Some logical_max \<Rightarrow>
                (case inject_stack_limiter B logical_max b of
                   Inl e \<Rightarrow> Inl (WasmError_Other (''cannot inject the stack limiter: '' @ e))
                 | Inr b' \<Rightarrow> Inr b')) (\<lambda>b1.
     bindR (convert_memory_import_into_export B
              (if fast_instance_reuse sem then export_mutable_globals B b1 else b1)) (\<lambda>b2.
     bindR (if uint (extra_heap_pages sem) < 2 ^ 32 then Inr (ucast (extra_heap_pages sem) :: u32)
            else Inl (WasmError_Other
              ''invalid `extra_heap_pages`: out of range integral type conversion attempted'')) (\<lambda>n.
     add_extra_heap_pages_to_memory_section n b2)))"

definition max_memory_pages :: "semantics \<Rightarrow> u32 option" where
  "max_memory_pages sem = map_option (\<lambda>n. ucast (n div 64 div 1024)) (max_memory_size sem)"

text \<open>\<open>DataSegmentsSnapshot\<close>.\<close>

definition segment_offset :: "data_segment \<Rightarrow> exec_error + u32" where
  "segment_offset seg =
     (case seg_offset seg of
        None \<Rightarrow> Inl SharedMemUnsupported
      | Some code \<Rightarrow>
          if length code \<noteq> 2 then Inl InitializerHasTooManyExpressions
          else case code ! 0 of
            I32Const v \<Rightarrow> Inr v
          | GetGlobal _ \<Rightarrow> Inl ImportedGlobalsUnsupported
          | Insn_End \<Rightarrow> Inl (InvalidInitializerExpression ''End'')
          | Insn s \<Rightarrow> Inl (InvalidInitializerExpression s))"

fun data_segments_take :: "data_segment list \<Rightarrow> exec_error + (u32 \<times> u8 list) list" where
  "data_segments_take [] = Inr []"
| "data_segments_take (seg # segs) =
     bindR (segment_offset seg) (\<lambda>off.
     bindR (data_segments_take segs) (\<lambda>rest. Inr ((off, seg_contents seg) # rest)))"

fun data_segments_apply ::
  "(u32 \<times> u8 list) list \<Rightarrow> (u32 \<Rightarrow> u8 list \<Rightarrow> 's \<Rightarrow> ('e + unit) \<times> 's) \<Rightarrow> 's \<Rightarrow> ('e + unit) \<times> 's" where
  "data_segments_apply [] memory_set s = (Inr (), s)"
| "data_segments_apply ((off, contents) # segs) memory_set s =
     (case memory_set off contents s of
        (Inl e, s') \<Rightarrow> (Inl e, s')
      | (Inr _, s') \<Rightarrow> data_segments_apply segs memory_set s')"

text \<open>\<open>ExposedMutableGlobalsSet\<close> and \<open>GlobalsSnapshot\<close>; a global's handle is its name.\<close>

definition exported_internal_global_names :: "raw_module \<Rightarrow> string list" where
  "exported_internal_global_names b =
     (let pre = ''exported_internal_global'' in
      map fst (filter (\<lambda>(field, i). (case i of Int_Global _ \<Rightarrow> True | _ \<Rightarrow> False) \<and>
                  take (length pre) field = pre)
        (case export_section b of None \<Rightarrow> [] | Some es \<Rightarrow> es)))"

type_synonym globals_snapshot = "(string \<times> wvalue) list"

fun globals_take :: "string list \<Rightarrow> 'f wasm_instance \<Rightarrow> exec_error + globals_snapshot" where
  "globals_take [] inst = Inr []"
| "globals_take (name # names) inst =
     (case inst_globals inst name of
        None \<Rightarrow> Inl Exec_Panic
      | Some v \<Rightarrow>
          (case from_wasmedge_val v of
             None \<Rightarrow> Inl Exec_Panic
           | Some value \<Rightarrow>
               bindR (globals_take names inst) (\<lambda>rest. Inr ((name, value) # rest))))"

fun globals_apply ::
  "('m, 'f) sdk \<Rightarrow> globals_snapshot \<Rightarrow> 'f wasm_instance \<Rightarrow> (exec_error + unit) \<times> 'f wasm_instance" where
  "globals_apply S [] inst = (Inr (), inst)"
| "globals_apply S ((name, value) # rest) inst =
     (case inst_globals inst name of
        None \<Rightarrow> (Inl Exec_Panic, inst)
      | Some old \<Rightarrow>
          (case global_set_value S old (into_wasmedge_val value) of
             None \<Rightarrow> (Inl Exec_Panic, inst)
           | Some v \<Rightarrow> globals_apply S rest (inst\<lparr>inst_globals := (inst_globals inst)(name \<mapsto> v)\<rparr>)))"

section \<open>The call protocol\<close>

definition with_memory_slice ::
  "('m, 'f) sdk \<Rightarrow> 'f wrapper \<Rightarrow> exec_error + u8 list" where
  "with_memory_slice S w = bindR (ok_or (memory w) Exec_Panic) (memory_slice S)"

definition set_slice :: "u8 list \<Rightarrow> 'f wrapper \<Rightarrow> 'f wrapper" where
  "set_slice sl w = w\<lparr>memory := map_option (\<lambda>m. put_slice m sl) (memory w)\<rparr>"

definition inject_input_data ::
  "('m, 'f) sdk \<Rightarrow> 'f wrapper \<Rightarrow> allocator \<Rightarrow> u8 list \<Rightarrow>
   (exec_error + u32 \<times> u32) \<times> 'f wrapper \<times> allocator" where
  "inject_input_data S w a data =
     (case with_memory_slice S w of
        Inl e \<Rightarrow> (Inl e, w, a)
      | Inr sl \<Rightarrow>
          let data_len = of_nat (length data) :: u32 in
          (case allocate slice_memory a sl data_len of
             (Inl e, a', sl') \<Rightarrow>
               (Inl (if e = Panic then Exec_Panic else Exec_Allocator e), set_slice sl' w, a')
           | (Inr data_ptr, a', sl') \<Rightarrow>
               (case write_memory_from sl' data_ptr data of
                  Inl e \<Rightarrow> (Inl e, set_slice sl' w, a')
                | Inr sl'' \<Rightarrow> (Inr (data_ptr, data_len), set_slice sl'' w, a'))))"

definition extract_output_data ::
  "('m, 'f) sdk \<Rightarrow> 'f wrapper \<Rightarrow> u32 \<Rightarrow> u32 \<Rightarrow> exec_error + u8 list" where
  "extract_output_data S w output_ptr output_len =
     bindR (with_memory_slice S w)
       (\<lambda>sl. read_memory_into sl output_ptr (replicate (unat output_len) 0))"

definition perform_call ::
  "('m, 'f) sdk \<Rightarrow> u8 list \<Rightarrow> invoke_method \<Rightarrow> allocator \<Rightarrow> 'f wrapper \<Rightarrow>
   (exec_error + u8 list) \<times> allocation_stats option \<times> 'f wrapper" where
  "perform_call S data method a w =
     (case inject_input_data S w a data of
        (Inl e, w1, _) \<Rightarrow> (Inl e, None, w1)
      | (Inr (data_ptr, data_len), w1, a') \<Rightarrow>
          (case wrapper_call S method data_ptr data_len
                  (w1\<lparr>host_state := Some (host_state_new a')\<rparr>) of
             (ret, w2) \<Rightarrow>
               (case host_state w2 of
                  None \<Rightarrow> (Inl Exec_Panic, None, w2)
                | Some hs \<Rightarrow>
                    let w3 = w2\<lparr>host_state := None\<rparr> in
                    (case ret of
                       Inl e \<Rightarrow> (Inl e, Some (stats (hs_allocator hs)), w3)
                     | Inr packed \<Rightarrow>
                         (case unpack_ptr_and_len packed of
                            (output_ptr, output_len) \<Rightarrow>
                              (extract_output_data S w3 output_ptr output_len,
                               Some (stats (hs_allocator hs)), w3))))))"

section \<open>Instance strategies\<close>

datatype ('m, 'f) strategy =
  FastInstanceReuse "'f wrapper" globals_snapshot "(u32 \<times> u8 list) list" u32
| RecreateInstance "'f wrapper" 'm

text \<open>The closure handed to \<open>DataSegmentsSnapshot::apply\<close>.\<close>

definition segment_set ::
  "('m, 'f) sdk \<Rightarrow> u32 \<Rightarrow> u8 list \<Rightarrow> 'f wrapper \<Rightarrow> (exec_error + unit) \<times> 'f wrapper" where
  "segment_set S off contents w =
     (case bindR (with_memory_slice S w) (\<lambda>sl. write_memory_from sl off contents) of
        Inl e \<Rightarrow> (Inl e, w)
      | Inr sl \<Rightarrow> (Inr (), set_slice sl w))"

definition restore_globals ::
  "('m, 'f) sdk \<Rightarrow> globals_snapshot \<Rightarrow> 'f wrapper \<Rightarrow> (exec_error + unit) \<times> 'f wrapper" where
  "restore_globals S snap w =
     (case instance_of w of
        None \<Rightarrow> (if snap = [] then Inr () else Inl Exec_Panic, w)
      | Some inst \<Rightarrow>
          (case globals_apply S snap inst of
             (r, inst') \<Rightarrow> (r, w\<lparr>instance_of := Some inst'\<rparr>)))"

fun call_impl ::
  "('m, 'f) sdk \<Rightarrow> invoke_method \<Rightarrow> u8 list \<Rightarrow> ('m, 'f) strategy \<Rightarrow>
   (exec_error + u8 list) \<times> allocation_stats option \<times> ('m, 'f) strategy" where
  "call_impl S method data (FastInstanceReuse w snap segs heap_base) =
     (case data_segments_apply segs (segment_set S) w of
        (Inl e, w1) \<Rightarrow> (Inl e, None, FastInstanceReuse w1 snap segs heap_base)
      | (Inr _, w1) \<Rightarrow>
          (case restore_globals S snap w1 of
             (Inl e, w2) \<Rightarrow> (Inl e, None, FastInstanceReuse w2 snap segs heap_base)
           | (Inr _, w2) \<Rightarrow>
               (case perform_call S data method (allocator_new heap_base) w2 of
                  (result, st, w3) \<Rightarrow>
                    (case decommit S w3 of
                       (Inl e, w4) \<Rightarrow> (Inl e, st, FastInstanceReuse w4 snap segs heap_base)
                     | (Inr _, w4) \<Rightarrow> (result, st, FastInstanceReuse w4 snap segs heap_base)))))"
| "call_impl S method data (RecreateInstance w module) =
     (case wrapper_instantiate S module w of
        (Inl e, w1) \<Rightarrow> (Inl e, None, RecreateInstance w1 module)
      | (Inr _, w1) \<Rightarrow>
          (case extract_heap_base w1 of
             Inl e \<Rightarrow> (Inl e, None, RecreateInstance w1 module)
           | Inr heap_base \<Rightarrow>
               (case perform_call S data method (allocator_new heap_base) w1 of
                  (result, st, w2) \<Rightarrow> (result, st, RecreateInstance w2 module))))"

fun get_global_const ::
  "('m, 'f) sdk \<Rightarrow> string \<Rightarrow> ('m, 'f) strategy \<Rightarrow>
   (exec_error + wvalue option) \<times> ('m, 'f) strategy" where
  "get_global_const S name (FastInstanceReuse w snap segs hb) =
     (get_global_val name w, FastInstanceReuse w snap segs hb)"
| "get_global_const S name (RecreateInstance w module) =
     (case wrapper_instantiate S module w of
        (Inl e, w1) \<Rightarrow> (Inl e, RecreateInstance w1 module)
      | (Inr _, w1) \<Rightarrow> (get_global_val name w1, RecreateInstance w1 module))"

record 'm runtime =
  snapshot_data :: "(string list \<times> (u32 \<times> u8 list) list) option"
  rt_module :: 'm

text \<open>\<open>WasmEdgeRuntime::new_instance\<close>, after the imports have been prepared.\<close>

definition new_instance :: "('m, 'f) sdk \<Rightarrow> 'm runtime \<Rightarrow> exec_error + ('m, 'f) strategy" where
  "new_instance S rt =
     (case snapshot_data rt of
        Some (mutable_globals, segs) \<Rightarrow>
          (case wrapper_instantiate S (rt_module rt) wrapper_new of
             (Inl e, _) \<Rightarrow> Inl e
           | (Inr _, w) \<Rightarrow>
               bindR (extract_heap_base w) (\<lambda>heap_base.
               bindR (bindR (ok_or (instance_of w) Exec_Panic) (globals_take mutable_globals))
                 (\<lambda>snap. Inr (FastInstanceReuse w snap segs heap_base))))
      | None \<Rightarrow> Inr (RecreateInstance wrapper_new (rt_module rt)))"

datatype code_supply_mode = Fresh raw_module | Precompiled string

text \<open>\<open>do_create_runtime\<close>; compiling a blob or loading an artifact is the SDK's.\<close>

definition do_create_runtime ::
  "blob_tools \<Rightarrow> (raw_module \<Rightarrow> string + 'm) \<Rightarrow> (string \<Rightarrow> string + 'm) \<Rightarrow>
   semantics \<Rightarrow> code_supply_mode \<Rightarrow> wasm_error + 'm runtime" where
  "do_create_runtime B from_bytes from_file sem mode =
     (case mode of
        Fresh blob \<Rightarrow>
          bindR (prepare_blob_for_compilation B sem blob) (\<lambda>b.
            (case from_bytes b of
               Inl e \<Rightarrow> Inl (WasmError_Other (''fail to create a WasmEdge Module context: '' @ e))
             | Inr module \<Rightarrow>
                 if fast_instance_reuse sem then
                   (case data_segments_take (data_segments b) of
                      Inl e \<Rightarrow> Inl (WasmError_Other ''cannot take data segments snapshot'')
                    | Inr segs \<Rightarrow>
                        Inr \<lparr>snapshot_data = Some (exported_internal_global_names b, segs),
                             rt_module = module\<rparr>)
                 else Inr \<lparr>snapshot_data = None, rt_module = module\<rparr>))
      | Precompiled path \<Rightarrow>
          (case from_file path of
             Inl e \<Rightarrow> Inl (WasmError_Other (''fail to create a WasmEdge Module context: '' @ e))
           | Inr module \<Rightarrow> Inr \<lparr>snapshot_data = None, rt_module = module\<rparr>))"

section \<open>Lemmas on memory access\<close>

lemma nth_overwrite:
  "o' + length c \<le> length m \<Longrightarrow> i < length m \<Longrightarrow>
   overwrite m o' c ! i = (if o' \<le> i \<and> i < o' + length c then c ! (i - o') else m ! i)"
  by (auto simp: overwrite_def nth_append)

lemma checked_range_Some:
  "checked_range off len mx = Some r \<longleftrightarrow>
     int (off + len) < 2 ^ 64 \<and> off + len \<le> mx \<and> r = (off, off + len)"
  by (auto simp: checked_range_def)

lemma write_memory_from_Inr:
  "write_memory_from mem p data = Inr mem' \<longleftrightarrow>
     int (unat p + length data) < 2 ^ 64 \<and> unat p + length data \<le> length mem \<and>
     mem' = overwrite mem (unat p) data"
  by (auto simp: write_memory_from_def checked_range_Some)

lemma read_memory_into_Inr:
  "read_memory_into mem p dest = Inr out \<longleftrightarrow>
     int (unat p + length dest) < 2 ^ 64 \<and> unat p + length dest \<le> length mem \<and>
     out = subslice mem (unat p) (length dest)"
  by (auto simp: read_memory_into_def checked_range_Some)

text \<open>A memory of whole pages below 4 GiB is its own slice.\<close>

definition page_sized :: "nat \<Rightarrow> bool" where
  "page_sized n \<longleftrightarrow> (\<exists>p. 0 < p \<and> p < 65536 \<and> n = 65536 * p)"

lemma memory_slice_len_page:
  assumes "page_sized (length m)"
  shows "memory_slice_len m = length m"
proof -
  obtain p where p: "p < 65536" "length m = 65536 * p" using assms by (auto simp: page_sized_def)
  then have "memory_slice_len m = unat (of_nat (65536 * p) :: u32)"
    by (simp add: memory_slice_len_def memory_size_def mult.commute)
  also have "\<dots> = 65536 * p" using p by (subst unat_of_nat32) simp_all
  finally show ?thesis using p by simp
qed

lemma memory_size_page: "page_sized (length m) \<Longrightarrow> memory_size m \<noteq> 0"
  using memory_slice_len_page [of m] by (auto simp: memory_slice_len_def page_sized_def)

lemma page_sized_bound: "page_sized n \<Longrightarrow> 0 < n \<and> n < 4294967296"
  by (auto simp: page_sized_def)

lemma page_sized_usize: "page_sized n \<Longrightarrow> k \<le> n \<Longrightarrow> int k < 2 ^ 64"
  using page_sized_bound [of n] by simp

lemma put_slice_same [simp]: "length sl = length m \<Longrightarrow> put_slice m sl = sl"
  by (simp add: put_slice_def overwrite_def)

text \<open>What the executor relies on of the SDK: a data pointer into a non-empty memory
  exists, and a global takes a value of its own type.\<close>

definition sdk_laws :: "('m, 'f) sdk \<Rightarrow> bool" where
  "sdk_laws S \<longleftrightarrow> (\<forall>m. m \<noteq> [] \<longrightarrow> data_pointer S m 0 1) \<and>
     (\<forall>old new. val_ty old = val_ty new \<longrightarrow> global_set_value S old new = Some new)"

lemma with_memory_slice_page:
  assumes "sdk_laws S" "memory w = Some m" "page_sized (length m)"
  shows "with_memory_slice S w = Inr m"
  using assms page_sized_bound [OF assms(3)]
  by (auto simp: with_memory_slice_def memory_slice_def memory_slice_len_page sdk_laws_def)

section \<open>Restoring an instance\<close>

definition apply_segments :: "(u32 \<times> u8 list) list \<Rightarrow> u8 list \<Rightarrow> u8 list" where
  "apply_segments segs m = foldl (\<lambda>m (off, c). overwrite m (unat off) c) m segs"

definition segments_fit :: "(u32 \<times> u8 list) list \<Rightarrow> nat \<Rightarrow> bool" where
  "segments_fit segs n \<longleftrightarrow> (\<forall>(off, c)\<in>set segs. unat off + length c \<le> n)"

definition covered :: "(u32 \<times> u8 list) list \<Rightarrow> nat \<Rightarrow> bool" where
  "covered segs i \<longleftrightarrow> (\<exists>(off, c)\<in>set segs. unat off \<le> i \<and> i < unat off + length c)"

lemma apply_segments_simps [simp]:
  "apply_segments [] m = m"
  "apply_segments ((off, c) # segs) m = apply_segments segs (overwrite m (unat off) c)"
  by (simp_all add: apply_segments_def)

lemma length_apply_segments [simp]:
  "segments_fit segs (length m) \<Longrightarrow> length (apply_segments segs m) = length m"
  by (induction segs arbitrary: m) (auto simp: segments_fit_def)

lemma apply_segments_uncovered:
  "segments_fit segs (length m) \<Longrightarrow> i < length m \<Longrightarrow> \<not> covered segs i \<Longrightarrow>
     apply_segments segs m ! i = m ! i"
  by (induction segs arbitrary: m) (auto simp: segments_fit_def covered_def nth_overwrite split: if_splits)

lemma apply_segments_cong:
  "segments_fit segs (length m) \<Longrightarrow> length m' = length m \<Longrightarrow>
   (\<And>i. i < length m \<Longrightarrow> \<not> covered segs i \<Longrightarrow> m ! i = m' ! i) \<Longrightarrow>
   apply_segments segs m = apply_segments segs m'"
proof (induction segs arbitrary: m m')
  case Nil
  then show ?case by (auto simp: covered_def intro: nth_equalityI)
next
  case (Cons seg segs)
  obtain off c where seg: "seg = (off, c)" by fastforce
  show ?case
    unfolding seg apply_segments_simps
    using Cons.prems unfolding seg
    by (intro Cons.IH) (auto simp: segments_fit_def covered_def nth_overwrite)
qed

lemma apply_segments_idem:
  "segments_fit segs (length m) \<Longrightarrow>
   apply_segments segs (apply_segments segs m) = apply_segments segs m"
  using apply_segments_uncovered by (intro apply_segments_cong) auto

lemma data_segments_apply_page:
  assumes "sdk_laws S" "memory w = Some m" "page_sized (length m)" "segments_fit segs (length m)"
  shows "data_segments_apply segs (segment_set S) w =
    (Inr (), w\<lparr>memory := Some (apply_segments segs m)\<rparr>)"
  using assms(2-)
proof (induction segs arbitrary: w m)
  case Nil
  then show ?case by simp
next
  case (Cons seg segs)
  obtain off c where seg: "seg = (off, c)" by fastforce
  have fit: "unat off + length c \<le> length m" "segments_fit segs (length m)"
    using Cons.prems(3) by (auto simp: seg segments_fit_def)
  have "int (unat off + length c) < 2 ^ 64"
    by (rule page_sized_usize [OF Cons.prems(2) fit(1)])
  then have "segment_set S off c w = (Inr (), w\<lparr>memory := Some (overwrite m (unat off) c)\<rparr>)"
    using with_memory_slice_page [OF assms(1) Cons.prems(1,2)] fit Cons.prems(1)
    by (simp add: segment_set_def write_memory_from_def checked_range_def set_slice_def)
  then show ?case
    using Cons.IH [of "w\<lparr>memory := Some (overwrite m (unat off) c)\<rparr>" "overwrite m (unat off) c"]
      Cons.prems fit by (simp add: seg)
qed

text \<open>An instance reached from \<open>inst0\<close> by running guest code: only the exposed
  mutable globals may have changed, and no global changes its type.\<close>

definition same_shape :: "string list \<Rightarrow> 'f wasm_instance \<Rightarrow> 'f wasm_instance \<Rightarrow> bool" where
  "same_shape names inst0 inst \<longleftrightarrow>
     inst_funcs inst = inst_funcs inst0 \<and> inst_tables inst = inst_tables inst0 \<and>
     (\<forall>x. x \<notin> set names \<longrightarrow> inst_globals inst x = inst_globals inst0 x) \<and>
     (\<forall>x. map_option val_ty (inst_globals inst x) = map_option val_ty (inst_globals inst0 x))"

definition integer_globals :: "string list \<Rightarrow> 'f wasm_instance \<Rightarrow> bool" where
  "integer_globals names inst \<longleftrightarrow>
     (\<forall>x\<in>set names. \<exists>v. inst_globals inst x = Some v \<and> val_ty v \<in> {Ty_I32, Ty_I64})"

lemma from_into_integer:
  "val_ty v \<in> {Ty_I32, Ty_I64} \<Longrightarrow>
     \<exists>x. from_wasmedge_val v = Some x \<and> into_wasmedge_val x = v"
  by (cases v) auto

lemma globals_take_integer:
  assumes "integer_globals names inst"
  obtains snap where "globals_take names inst = Inr snap" "map fst snap = names"
    "\<And>n x. (n, x) \<in> set snap \<Longrightarrow> inst_globals inst n = Some (into_wasmedge_val x)"
  using assms
proof (induction names arbitrary: thesis)
  case Nil
  show ?case by (rule Nil(1) [of "[]"]) auto
next
  case (Cons n names)
  have "integer_globals names inst" using Cons.prems(2) by (simp add: integer_globals_def)
  with Cons.IH obtain snap where snap: "globals_take names inst = Inr snap" "map fst snap = names"
    "\<And>n x. (n, x) \<in> set snap \<Longrightarrow> inst_globals inst n = Some (into_wasmedge_val x)" by blast
  obtain v where v: "inst_globals inst n = Some v" "val_ty v \<in> {Ty_I32, Ty_I64}"
    using Cons.prems(2) by (auto simp: integer_globals_def)
  then obtain x where x: "from_wasmedge_val v = Some x" "into_wasmedge_val x = v"
    using from_into_integer by blast
  show ?case
    by (rule Cons.prems(1) [of "(n, x) # snap"]) (use snap v x in auto)
qed

lemma globals_apply_restores:
  assumes "sdk_laws S"
    "\<And>n x. (n, x) \<in> set snap \<Longrightarrow> inst_globals inst0 n = Some (into_wasmedge_val x)"
    "same_shape (map fst snap @ done) inst0 inst"
    "\<And>n. n \<in> set done \<Longrightarrow> inst_globals inst n = inst_globals inst0 n"
  shows "globals_apply S snap inst = (Inr (), inst0)"
  using assms(2-)
proof (induction snap arbitrary: inst "done")
  case Nil
  then show ?case
    by (auto simp: same_shape_def intro!: wasm_instance.equality ext)
next
  case (Cons p snap)
  obtain n x where p: "p = (n, x)" by fastforce
  have g0: "inst_globals inst0 n = Some (into_wasmedge_val x)" using Cons.prems(1) by (simp add: p)
  have "map_option val_ty (inst_globals inst n) = map_option val_ty (inst_globals inst0 n)"
    using Cons.prems(2) unfolding same_shape_def by blast
  then obtain old where old: "inst_globals inst n = Some old"
      "val_ty old = val_ty (into_wasmedge_val x :: 'b val)"
    using g0 by auto
  let ?inst = "inst\<lparr>inst_globals := (inst_globals inst)(n \<mapsto> into_wasmedge_val x)\<rparr>"
  have "globals_apply S snap ?inst = (Inr (), inst0)"
    by (rule Cons.IH [of "n # done"]) (use Cons.prems in \<open>auto simp: p g0 same_shape_def\<close>)
  then show ?case using old assms(1) by (simp add: p sdk_laws_def)
qed

section \<open>Calls keep the wrapper well formed\<close>

text \<open>A wrapper that belongs to a live instance of \<open>inst0\<close> with \<open>n\<close> bytes of memory.\<close>

definition live_wrapper :: "string list \<Rightarrow> 'f wasm_instance \<Rightarrow> nat \<Rightarrow> 'f wrapper \<Rightarrow> bool" where
  "live_wrapper names inst0 n w \<longleftrightarrow>
     (\<exists>inst m. instance_of w = Some inst \<and> same_shape names inst0 inst \<and>
        memory w = Some m \<and> length m = n)"

text \<open>A guest that stays within its instance: it keeps the exports, the types and the
  immutable globals, does not grow the memory, and leaves the host state in place.\<close>

definition guest_confined :: "('m, 'f) sdk \<Rightarrow> string list \<Rightarrow> 'f wasm_instance \<Rightarrow> nat \<Rightarrow> bool" where
  "guest_confined S names inst0 n \<longleftrightarrow>
     (\<forall>f vs w. live_wrapper names inst0 n w \<and> host_state w \<noteq> None \<longrightarrow>
        live_wrapper names inst0 n (snd (func_call S f vs w)) \<and>
        host_state (snd (func_call S f vs w)) \<noteq> None)"

lemma live_wrapper_host_state [simp]:
  "live_wrapper names inst0 n (w\<lparr>host_state := h\<rparr>) = live_wrapper names inst0 n w"
  by (simp add: live_wrapper_def)

lemma trap_error_live:
  "trap_error t w = (e, w') \<Longrightarrow> host_state w \<noteq> None \<Longrightarrow>
     live_wrapper names inst0 n w' = live_wrapper names inst0 n w \<and> host_state w' \<noteq> None"
  by (auto simp: trap_error_def take_panic_message_def split: option.splits)

lemma wrapper_call_live:
  assumes "guest_confined S names inst0 n" "live_wrapper names inst0 n w" "host_state w \<noteq> None"
    "wrapper_call S method p l w = (r, w')"
  shows "live_wrapper names inst0 n w' \<and> host_state w' \<noteq> None"
proof -
  obtain inst where inst: "instance_of w = Some inst" using assms(2) by (auto simp: live_wrapper_def)
  show ?thesis
  proof (cases "resolve_method S inst method p l")
    case (Inl e)
    then show ?thesis using assms inst by (auto simp: wrapper_call_def)
  next
    case (Inr fa)
    obtain f args where fa: "fa = (f, args)" by fastforce
    obtain res w1 where fc: "func_call S f args w = (res, w1)" by fastforce
    have l1: "live_wrapper names inst0 n w1" "host_state w1 \<noteq> None"
      using assms(1-3) fc unfolding guest_confined_def by (metis snd_conv)+
    show ?thesis
    proof (cases res)
      case (Inl t)
      obtain e w2 where t: "trap_error t w1 = (e, w2)" by fastforce
      then show ?thesis
        using assms(4) inst Inr fa fc Inl trap_error_live [OF t l1(2)] l1
        by (auto simp: wrapper_call_def)
    next
      case (Inr vs)
      then show ?thesis
        using assms(4) inst \<open>resolve_method S inst method p l = Inr fa\<close> fa fc l1
        by (cases vs) (auto simp: wrapper_call_def)
    qed
  qed
qed

lemma inject_input_data_live:
  assumes "sdk_laws S" "page_sized n" "live_wrapper names inst0 n w"
    "inject_input_data S w a data = (r, w', a')"
  shows "live_wrapper names inst0 n w' \<and> host_state w' = host_state w"
proof -
  obtain m where m: "memory w = Some m" "length m = n" using assms(3) by (auto simp: live_wrapper_def)
  have sl: "with_memory_slice S w = Inr m"
    using with_memory_slice_page [OF assms(1) m(1)] assms(2) m(2) by simp
  obtain ar aa sl' where al: "allocate slice_memory a m (of_nat (length data)) = (ar, aa, sl')"
    by (metis prod.collapse)
  have len: "length sl' = n" using allocate_length [OF al] m(2) by simp
  have set_live: "live_wrapper names inst0 n (set_slice sl w) \<and> host_state (set_slice sl w) = host_state w"
    if "length sl = n" for sl
    using assms(3) m that by (auto simp: live_wrapper_def set_slice_def)
  show ?thesis
  proof (cases ar)
    case (Inl e)
    then show ?thesis using assms(4) sl al set_live [OF len] by (auto simp: inject_input_data_def)
  next
    case (Inr ptr)
    show ?thesis
    proof (cases "write_memory_from sl' ptr data")
      case (Inl e)
      then show ?thesis
        using assms(4) sl al set_live [OF len] \<open>ar = Inr ptr\<close> by (auto simp: inject_input_data_def)
    next
      case (Inr sl'')
      then have "length sl'' = n" using len by (auto simp: write_memory_from_Inr)
      then show ?thesis
        using assms(4) sl al set_live Inr \<open>ar = Inr ptr\<close> by (auto simp: inject_input_data_def)
    qed
  qed
qed

lemma perform_call_live:
  assumes "sdk_laws S" "page_sized n" "guest_confined S names inst0 n"
    "live_wrapper names inst0 n w" "host_state w = None"
    "perform_call S data method a w = (r, st, w')"
  shows "live_wrapper names inst0 n w' \<and> host_state w' = None"
proof -
  obtain ir w1 a1 where inj: "inject_input_data S w a data = (ir, w1, a1)" by (metis prod.collapse)
  have l1: "live_wrapper names inst0 n w1" "host_state w1 = None"
    using inject_input_data_live [OF assms(1,2,4) inj] assms(5) by simp_all
  show ?thesis
  proof (cases ir)
    case (Inl e)
    then show ?thesis using assms(6) inj l1 by (auto simp: perform_call_def)
  next
    case (Inr pl)
    obtain p l where pl: "pl = (p, l)" by fastforce
    let ?w = "w1\<lparr>host_state := Some (host_state_new a1)\<rparr>"
    obtain cr w2 where call: "wrapper_call S method p l ?w = (cr, w2)" by fastforce
    have "live_wrapper names inst0 n w2 \<and> host_state w2 \<noteq> None"
      using wrapper_call_live [OF assms(3) _ _ call] l1 by simp
    then obtain hs where hs: "host_state w2 = Some hs" and l2: "live_wrapper names inst0 n w2"
      by blast
    show ?thesis
      using assms(6) inj Inr pl call hs l2
      by (auto simp: perform_call_def Let_def split: sum.splits prod.splits)
  qed
qed

section \<open>Reusing an instance is recreating it\<close>

text \<open>\<open>call_with_allocation_stats\<close> over a sequence of calls.\<close>

fun run_calls ::
  "('m, 'f) sdk \<Rightarrow> (invoke_method \<times> u8 list) list \<Rightarrow> ('m, 'f) strategy \<Rightarrow>
   ((exec_error + u8 list) \<times> allocation_stats option) list" where
  "run_calls S [] st = []"
| "run_calls S ((method, data) # calls) st =
     (case call_impl S method data st of (r, ast, st') \<Rightarrow> (r, ast) # run_calls S calls st')"

lemma same_shape_refl [simp]: "same_shape names inst inst"
  by (simp add: same_shape_def)

lemma decommit_page:
  assumes "sdk_laws S" "memory w = Some m" "page_sized (length m)"
  shows "decommit S w = (Inr (), w\<lparr>memory := Some (replicate (length m) 0)\<rparr>)"
  using assms memory_size_page [OF assms(3)] page_sized_bound [OF assms(3)]
  by (auto simp: decommit_def memory_slice_len_page sdk_laws_def overwrite_def)

text \<open>What both strategies start from: the module's instance and memory, whose initial
  contents are the data segments over zeroes.\<close>

definition module_image ::
  "('m, 'f) sdk \<Rightarrow> 'm \<Rightarrow> (u32 \<times> u8 list) list \<Rightarrow> 'f wasm_instance \<Rightarrow> u8 list \<Rightarrow> bool" where
  "module_image S md segs inst0 mem0 \<longleftrightarrow>
     (\<exists>mems. register_active_module S md = Inr (inst0, mems) \<and> mems ''memory'' = Some mem0) \<and>
     page_sized (length mem0) \<and> segments_fit segs (length mem0) \<and>
     mem0 = apply_segments segs (replicate (length mem0) 0)"

text \<open>The state of a reused instance between two calls.\<close>

definition reusable ::
  "string list \<Rightarrow> (u32 \<times> u8 list) list \<Rightarrow> 'f wasm_instance \<Rightarrow> u8 list \<Rightarrow> 'f wrapper \<Rightarrow> bool" where
  "reusable names segs inst0 mem0 w \<longleftrightarrow>
     live_wrapper names inst0 (length mem0) w \<and> host_state w = None \<and>
     (\<forall>m. memory w = Some m \<longrightarrow> apply_segments segs m = mem0)"

lemma reuse_step:
  assumes "sdk_laws S" "module_image S md segs inst0 mem0" "guest_confined S names inst0 (length mem0)"
    "integer_globals names inst0" "globals_take names inst0 = Inr snap"
    "inst_globals inst0 ''__heap_base'' = Some (Val_I32 hb)"
    "reusable names segs inst0 mem0 w" "host_state w' = None"
  obtains r st w1 w1' where
    "call_impl S method data (FastInstanceReuse w snap segs hb) = (r, st, FastInstanceReuse w1 snap segs hb)"
    "call_impl S method data (RecreateInstance w' md) = (r, st, RecreateInstance w1' md)"
    "reusable names segs inst0 mem0 w1" "host_state w1' = None"
proof -
  obtain mems where reg: "register_active_module S md = Inr (inst0, mems)" "mems ''memory'' = Some mem0"
    and page: "page_sized (length mem0)" and fit: "segments_fit segs (length mem0)"
    and img: "mem0 = apply_segments segs (replicate (length mem0) 0)"
    using assms(2) unfolding module_image_def by blast
  obtain inst m where w: "instance_of w = Some inst" "same_shape names inst0 inst" "memory w = Some m"
      "length m = length mem0" "apply_segments segs m = mem0" "host_state w = None"
    using assms(7) by (auto simp: reusable_def live_wrapper_def)
  let ?w0 = "\<lparr>instance_of = Some inst0, memory = Some mem0, host_state = None\<rparr> :: 'b wrapper"
  have seg: "data_segments_apply segs (segment_set S) w = (Inr (), w\<lparr>memory := Some mem0\<rparr>)"
    using data_segments_apply_page [OF assms(1) w(3), of segs] page fit w(4,5) by simp
  obtain snap' where snap': "globals_take names inst0 = Inr snap'" "map fst snap' = names"
    "\<And>n x. (n, x) \<in> set snap' \<Longrightarrow> inst_globals inst0 n = Some (into_wasmedge_val x)"
    by (rule globals_take_integer [OF assms(4)]) blast
  then have snap: "map fst snap = names"
    "\<And>n x. (n, x) \<in> set snap \<Longrightarrow> inst_globals inst0 n = Some (into_wasmedge_val x)"
    using assms(5) by auto
  have "globals_apply S snap inst = (Inr (), inst0)"
    by (rule globals_apply_restores [OF assms(1) snap(2), of _ "[]"]) (use snap w in auto)
  then have glob: "restore_globals S snap (w\<lparr>memory := Some mem0\<rparr>) = (Inr (), ?w0)"
    using w by (simp add: restore_globals_def)
  obtain r st w2 where pc: "perform_call S data method (allocator_new hb) ?w0 = (r, st, w2)"
    by (metis prod.collapse)
  have l2: "live_wrapper names inst0 (length mem0) w2" "host_state w2 = None"
    using perform_call_live [OF assms(1) page assms(3) _ _ pc] by (simp_all add: live_wrapper_def)
  then obtain m2 where m2: "memory w2 = Some m2" "length m2 = length mem0"
    by (auto simp: live_wrapper_def)
  have dec: "decommit S w2 = (Inr (), w2\<lparr>memory := Some (replicate (length mem0) 0)\<rparr>)"
    using decommit_page [OF assms(1) m2(1)] m2(2) page by simp
  have "call_impl S method data (FastInstanceReuse w snap segs hb) =
      (r, st, FastInstanceReuse (w2\<lparr>memory := Some (replicate (length mem0) 0)\<rparr>) snap segs hb)"
    by (simp add: seg glob pc dec)
  moreover have "wrapper_instantiate S md w' = (Inr (), ?w0)"
    using reg assms(8) by (simp add: wrapper_instantiate_def)
  then have "call_impl S method data (RecreateInstance w' md) = (r, st, RecreateInstance w2 md)"
    using assms(6) by (simp add: extract_heap_base_def pc)
  moreover have "reusable names segs inst0 mem0 (w2\<lparr>memory := Some (replicate (length mem0) 0)\<rparr>)"
    using l2 img by (auto simp: reusable_def live_wrapper_def)
  ultimately show thesis using that l2(2) by blast
qed

lemma run_calls_reuse:
  assumes "sdk_laws S" "module_image S md segs inst0 mem0" "guest_confined S names inst0 (length mem0)"
    "integer_globals names inst0" "globals_take names inst0 = Inr snap"
    "inst_globals inst0 ''__heap_base'' = Some (Val_I32 hb)"
    "reusable names segs inst0 mem0 w" "host_state w' = None"
  shows "run_calls S calls (FastInstanceReuse w snap segs hb) = run_calls S calls (RecreateInstance w' md)"
  using assms(7,8)
proof (induction calls arbitrary: w w')
  case (Cons c calls)
  obtain meth input where c: "c = (meth, input)" by fastforce
  obtain r st w1 w1' where
    "call_impl S meth input (FastInstanceReuse w snap segs hb) = (r, st, FastInstanceReuse w1 snap segs hb)"
    "call_impl S meth input (RecreateInstance w' md) = (r, st, RecreateInstance w1' md)"
    "reusable names segs inst0 mem0 w1" "host_state w1' = None"
    by (rule reuse_step [OF assms(1-6) Cons.prems])
  then show ?case using Cons.IH by (simp add: c)
qed simp

lemma new_instance_reusable:
  assumes "module_image S md segs inst0 mem0"
    "new_instance S \<lparr>snapshot_data = Some (names, segs), rt_module = md\<rparr> = Inr fast"
  obtains w snap hb where "fast = FastInstanceReuse w snap segs hb"
    "globals_take names inst0 = Inr snap" "inst_globals inst0 ''__heap_base'' = Some (Val_I32 hb)"
    "reusable names segs inst0 mem0 w"
proof -
  obtain mems where reg: "register_active_module S md = Inr (inst0, mems)" "mems ''memory'' = Some mem0"
    and fit: "segments_fit segs (length mem0)"
    and img: "mem0 = apply_segments segs (replicate (length mem0) 0)"
    using assms(1) unfolding module_image_def by blast
  let ?w = "\<lparr>instance_of = Some inst0, memory = Some mem0, host_state = None\<rparr> :: 'b wrapper"
  have "wrapper_instantiate S md wrapper_new = (Inr (), ?w)"
    using reg by (simp add: wrapper_instantiate_def wrapper_new_def)
  then obtain hb snap where "fast = FastInstanceReuse ?w snap segs hb"
      "globals_take names inst0 = Inr snap" "extract_heap_base ?w = Inr hb"
    using assms(2) by (auto simp: new_instance_def)
  moreover from this(3) have "inst_globals inst0 ''__heap_base'' = Some (Val_I32 hb)"
    by (auto simp: extract_heap_base_def split: option.splits val.splits)
  moreover have "apply_segments segs mem0 = mem0"
    using apply_segments_idem [of segs "replicate (length mem0) 0"] fit img by simp
  then have "reusable names segs inst0 mem0 ?w" by (simp add: reusable_def live_wrapper_def)
  ultimately show thesis using that by blast
qed


text \<open>A guest with one exported function that fills its memory with sevens, sets its
  mutable global and returns the empty output.\<close>

definition example_instance :: "unit wasm_instance" where
  "example_instance = \<lparr>inst_funcs = [''main'' \<mapsto> ()], inst_tables = Map.empty,
     inst_globals = [''__heap_base'' \<mapsto> Val_I32 16, ''exported_internal_global_0'' \<mapsto> Val_I32 5]\<rparr>"

definition example_memory :: "u8 list" where
  "example_memory = 1 # 2 # replicate 65534 0"

definition example_sdk :: "(unit, unit) sdk" where
  "example_sdk = \<lparr>
     register_active_module = \<lambda>_. Inr (example_instance, [''memory'' \<mapsto> example_memory]),
     func_ty = \<lambda>_. Inr (Some [Ty_I32, Ty_I32], Some [Ty_I64]),
     func_call = \<lambda>_ _ w. (Inr [Val_I64 0],
       w\<lparr>memory := map_option (map (\<lambda>_. 7)) (memory w),
         instance_of := map_option (\<lambda>i. i\<lparr>inst_globals :=
           (inst_globals i)(''exported_internal_global_0'' \<mapsto> Val_I32 9)\<rparr>) (instance_of w)\<rparr>),
     global_set_value = \<lambda>old new. if val_ty old = val_ty new then Some new else None,
     data_pointer = \<lambda>m off n. off + n \<le> length m,
     to_i64 = \<lambda>v. (case v of Val_I64 x \<Rightarrow> x | _ \<Rightarrow> 0)\<rparr>"

lemma example_image: "module_image example_sdk () [(0, [1, 2])] example_instance example_memory"
  by (auto simp: module_image_def example_sdk_def example_memory_def page_sized_def segments_fit_def
      overwrite_def intro: exI [of _ 1])

lemma example_laws: "sdk_laws example_sdk"
  by (auto simp: sdk_laws_def example_sdk_def Suc_le_eq)

lemma example_confined:
  "guest_confined example_sdk [''exported_internal_global_0''] example_instance n"
  by (auto simp: guest_confined_def example_sdk_def live_wrapper_def same_shape_def
      example_instance_def)


section \<open>The call protocol delivers input and output\<close>

lemma header_write_slice:
  "header_write_into slice_memory h m p = Inr m' \<Longrightarrow>
     unat p + 8 \<le> length m \<and> m' = overwrite m (unat p) (to_le_bytes (header_encode h))"
  by (auto simp: header_write_into_def slice_memory_def slice_write_le_u64_def heap_range_8
      split: if_splits)

lemma free_lists_new_index:
  "free_lists_index free_lists_new ord \<in> {Inl Panic, Inr Link_Nil}"
  by (simp add: free_lists_index_def free_lists_new_def Let_def)

lemma allocate_slice_Inr:
  assumes "allocate slice_memory a m sz = (Inr ptr, a', m')"
  obtains h obs ord a2 where "ptr = h + HEADER_SIZE"
    "take_header slice_memory (a\<lparr>last_observed_memory_size := obs\<rparr>) m ord = (Inr h, a2)"
    "unat h + 8 \<le> length m" "m' = overwrite m (unat h) (to_le_bytes (header_encode (Occupied ord)))"
  using assms header_write_slice
  by (fastforce simp: allocate_def Let_def split: if_splits sum.splits prod.splits)

lemma allocate_fresh:
  assumes "allocate slice_memory (allocator_new hb) m sz = (Inr ptr, a', m')"
  obtains h v where "h = original_heap_base (allocator_new hb)" "ptr = h + HEADER_SIZE"
    "unat h + 8 \<le> length m" "m' = overwrite m (unat h) (to_le_bytes v)"
proof -
  let ?a = "allocator_new hb"
  have fl: "free_lists ?a = free_lists_new" "bumper ?a = original_heap_base ?a"
    by (simp_all add: allocator_new_def Let_def)
  obtain h obs ord a2 where h: "ptr = h + HEADER_SIZE"
    "take_header slice_memory (?a\<lparr>last_observed_memory_size := obs\<rparr>) m ord = (Inr h, a2)"
    "unat h + 8 \<le> length m" "m' = overwrite m (unat h) (to_le_bytes (header_encode (Occupied ord)))"
    by (rule allocate_slice_Inr [OF assms])
  have "h = original_heap_base ?a"
    using h(2) fl free_lists_new_index [of ord]
    by (auto simp: take_header_def bump_def split: sum.splits if_splits)
  then show thesis using h that by blast
qed

lemma aligned_base:
  assumes "unat hb + 7 < 2 ^ 32"
  shows "unat hb \<le> unat (original_heap_base (allocator_new hb)) \<and>
    8 dvd unat (original_heap_base (allocator_new hb))"
proof -
  have "unat (hb + ALIGNMENT - 1) = unat hb + 7"
    using assms unat_add32_small [of 7 hb] by (simp add: alloc_consts)
  then have "unat (original_heap_base (allocator_new hb)) = (unat hb + 7) div 8 * 8"
    using assms by (simp add: allocator_new_def Let_def alloc_consts unat_word_ariths unat_div)
  then show ?thesis by simp
qed

text \<open>The state the guest finds: the input in its memory, above its heap base and
  aligned, everything below the heap base untouched.\<close>

definition input_delivered :: "u32 \<Rightarrow> u8 list \<Rightarrow> u8 list \<Rightarrow> u32 \<Rightarrow> u8 list \<Rightarrow> bool" where
  "input_delivered hb data m ptr m1 \<longleftrightarrow>
     length m1 = length m \<and> subslice m1 (unat ptr) (length data) = data \<and>
     take (unat hb) m1 = take (unat hb) m \<and> unat hb + 8 \<le> unat ptr \<and> 8 dvd unat ptr"

lemma inject_input_data_Inr:
  assumes "sdk_laws S" "memory w = Some m" "page_sized (length m)" "unat hb + 7 < 2 ^ 32"
    "inject_input_data S w (allocator_new hb) data = (Inr (ptr, len), w1, a1)"
  obtains m1 where "w1 = w\<lparr>memory := Some m1\<rparr>" "input_delivered hb data m ptr m1"
    "len = of_nat (length data)" "length data < 2 ^ 32"
proof -
  have sl: "with_memory_slice S w = Inr m" by (rule with_memory_slice_page [OF assms(1-3)])
  obtain sl' m1 where al: "allocate slice_memory (allocator_new hb) m (of_nat (length data)) = (Inr ptr, a1, sl')"
    and wr: "write_memory_from sl' ptr data = Inr m1" and w1: "w1 = set_slice m1 w"
    and len: "len = of_nat (length data)"
    using assms(5) sl by (auto simp: inject_input_data_def Let_def split: sum.splits prod.splits)
  obtain h v where h: "h = original_heap_base (allocator_new hb)" "ptr = h + HEADER_SIZE"
      "unat h + 8 \<le> length m" "sl' = overwrite m (unat h) (to_le_bytes v)"
    by (rule allocate_fresh [OF al])
  have b: "unat hb \<le> unat h" "8 dvd unat h" using aligned_base [OF assms(4)] h(1) by simp_all
  have ptr: "unat ptr = unat h + 8"
    using h(2,3) page_sized_bound [OF assms(3)] unat_add32_small [of h 8] by (simp add: alloc_consts)
  have m1: "m1 = overwrite sl' (unat ptr) data" "unat ptr + length data \<le> length sl'"
    using wr by (auto simp: write_memory_from_Inr)
  have l: "length sl' = length m" "length m1 = length m"
    using h(3,4) m1 by (simp_all add: to_le_bytes_def)
  have "take (unat hb) m1 = take (unat hb) m"
    using b ptr h(3) unfolding m1(1) h(4) by (simp add: overwrite_def min_def)
  then have "input_delivered hb data m ptr m1"
    using m1 l b ptr by (simp add: input_delivered_def)
  moreover have "length data < 2 ^ 32" using m1(2) l page_sized_bound [OF assms(3)] by simp
  moreover have "w1 = w\<lparr>memory := Some m1\<rparr>" using w1 assms(2) l by (simp add: set_slice_def)
  ultimately show thesis using that len by blast
qed

text \<open>The output read back: the slice the guest's packed result names.\<close>

definition output_read :: "('m, 'f) sdk \<Rightarrow> u64 \<Rightarrow> 'f wrapper \<Rightarrow> u8 list \<Rightarrow> bool" where
  "output_read S packed w out \<longleftrightarrow>
     (case unpack_ptr_and_len packed of
        (p, l) \<Rightarrow> \<exists>sl. with_memory_slice S w = Inr sl \<and> unat p + unat l \<le> length sl \<and>
          out = subslice sl (unat p) (unat l))"

lemma wrapper_call_Inr:
  assumes "wrapper_call S method p l w = (Inr v, w')"
  obtains inst f args res rs where "instance_of w = Some inst"
    "resolve_method S inst method p l = Inr (f, args)"
    "func_call S f args w = (Inr (res # rs), w')" "v = to_i64 S res"
  using assms
  by (auto simp: wrapper_call_def split: option.splits sum.splits prod.splits list.splits)

lemma perform_call_Inr:
  assumes "perform_call S data method a w = (Inr out, st, w')"
  obtains ptr len w1 a1 packed w2 where
    "inject_input_data S w a data = (Inr (ptr, len), w1, a1)"
    "wrapper_call S method ptr len (w1\<lparr>host_state := Some (host_state_new a1)\<rparr>) = (Inr packed, w2)"
    "w' = w2\<lparr>host_state := None\<rparr>" "output_read S packed w' out"
proof -
  obtain ir w1 a1 where inj: "inject_input_data S w a data = (ir, w1, a1)" by (metis prod.collapse)
  obtain ptr len where ir: "ir = Inr (ptr, len)"
    using assms inj by (cases ir) (auto simp: perform_call_def)
  let ?w = "w1\<lparr>host_state := Some (host_state_new a1)\<rparr>"
  obtain cr w2 where call: "wrapper_call S method ptr len ?w = (cr, w2)" by fastforce
  obtain hs where hs: "host_state w2 = Some hs"
    using assms inj ir call by (cases "host_state w2") (auto simp: perform_call_def)
  obtain packed where cr: "cr = Inr packed"
    using assms inj ir call hs by (cases cr) (auto simp: perform_call_def Let_def)
  obtain p l where u: "unpack_ptr_and_len packed = (p, l)" by fastforce
  have "extract_output_data S w' p l = Inr out" "w' = w2\<lparr>host_state := None\<rparr>"
    using assms inj ir call hs cr u by (auto simp: perform_call_def Let_def)
  then show thesis
    using that inj ir call cr u
    by (auto simp: output_read_def extract_output_data_def read_memory_into_Inr)
qed

text \<open>C21: A successful call follows the calling convention: the guest function the
  method names is run with a pointer to the input and its length, on a memory that
  holds the input above the heap base and is untouched below it; the output is the
  slice that the returned pointer and length name in the memory the guest leaves; and
  the host state is taken back.\<close>

theorem perform_call_protocol:
  assumes "sdk_laws S" "memory w = Some m" "page_sized (length m)" "unat hb + 7 < 2 ^ 32"
    "perform_call S data method (allocator_new hb) w = (Inr out, st, w')"
  shows "\<exists>inst ptr m1 a1 f args res rs w2.
    instance_of w = Some inst \<and> input_delivered hb data m ptr m1 \<and> length data < 2 ^ 32 \<and>
    resolve_method S inst method ptr (of_nat (length data)) = Inr (f, args) \<and>
    func_call S f args (w\<lparr>memory := Some m1, host_state := Some (host_state_new a1)\<rparr>) =
      (Inr (res # rs), w2) \<and>
    w' = w2\<lparr>host_state := None\<rparr> \<and> output_read S (to_i64 S res) w' out"
proof -
  obtain ptr len w1 a1 packed w2 where
    inj: "inject_input_data S w (allocator_new hb) data = (Inr (ptr, len), w1, a1)" and
    call: "wrapper_call S method ptr len (w1\<lparr>host_state := Some (host_state_new a1)\<rparr>) = (Inr packed, w2)" and
    w': "w' = w2\<lparr>host_state := None\<rparr>" and out: "output_read S packed w' out"
    by (rule perform_call_Inr [OF assms(5)])
  obtain m1 where m1: "w1 = w\<lparr>memory := Some m1\<rparr>" "input_delivered hb data m ptr m1"
    "len = of_nat (length data)" "length data < 2 ^ 32"
    by (rule inject_input_data_Inr [OF assms(1-4) inj])
  let ?w = "w\<lparr>memory := Some m1, host_state := Some (host_state_new a1)\<rparr>"
  obtain inst f args res rs where "instance_of ?w = Some inst"
    "resolve_method S inst method ptr len = Inr (f, args)"
    "func_call S f args ?w = (Inr (res # rs), w2)" "packed = to_i64 S res"
    by (rule wrapper_call_Inr [OF call [unfolded m1(1)]]) simp
  then show ?thesis using m1 w' out
    by (intro exI [of _ inst] exI [of _ ptr] exI [of _ m1] exI [of _ a1] exI [of _ f]
        exI [of _ args] exI [of _ res] exI [of _ rs] exI [of _ w2]) simp
qed

section \<open>Entry points\<close>

text \<open>A function that may be called from the host: two \<open>i32\<close> arguments, or three for a
  dispatcher, and one \<open>i64\<close> result.\<close>

definition entry_signature :: "('m, 'f) sdk \<Rightarrow> 'f \<Rightarrow> bool" where
  "entry_signature S f \<longleftrightarrow>
     (\<exists>params. params \<in> {[Ty_I32, Ty_I32], [Ty_I32, Ty_I32, Ty_I32]} \<and>
        func_ty S f = Inr (Some params, Some [Ty_I64]))"

lemma check_signature_Inr:
  "check_signature S expected f = Inr u \<Longrightarrow> expected \<noteq> [] \<Longrightarrow>
     func_ty S f = Inr (Some expected, Some [Ty_I64])"
  by (auto simp: check_signature_def Let_def split: sum.splits prod.splits option.splits if_splits)

lemma resolve_method_signature:
  "resolve_method S inst meth p l = Inr (f, args) \<Longrightarrow> entry_signature S f"
  by (cases meth)
    (auto simp: entry_signature_def check_signature1_def check_signature2_def check_signature3_def
      dest!: check_signature_Inr)

lemma resolve_method_func_call:
  "resolve_method (S\<lparr>func_call := g\<rparr>) inst meth p l = resolve_method S inst meth p l"
  by (cases meth)
    (simp_all add: check_signature1_def check_signature2_def check_signature3_def check_signature_def)

text \<open>C25: No guest function is ever run under a wrong signature: a call does not
  depend on what functions of any other type would do.\<close>

theorem call_respects_signatures:
  assumes "\<And>f. entry_signature S f \<Longrightarrow> g f = func_call S f"
  shows "wrapper_call (S\<lparr>func_call := g\<rparr>) method p l w = wrapper_call S method p l w"
proof (cases "instance_of w")
  case (Some inst)
  show ?thesis
  proof (cases "resolve_method S inst method p l")
    case (Inr fa)
    obtain f args where fa: "fa = (f, args)" by fastforce
    have "g f = func_call S f" by (rule assms [OF resolve_method_signature [OF Inr [unfolded fa]]])
    then show ?thesis
      using Some Inr fa
      by (simp add: wrapper_call_def resolve_method_func_call split: prod.split sum.split list.split)
  qed (use Some in \<open>simp add: wrapper_call_def resolve_method_func_call\<close>)
qed (simp add: wrapper_call_def)

section \<open>Witnesses for the call protocol\<close>

definition example_wrapper :: "unit wrapper" where
  "example_wrapper = \<lparr>instance_of = Some example_instance, memory = Some (replicate 65536 0),
     host_state = None\<rparr>"

lemma inject_input_data_succeeds:
  assumes "sdk_laws S" "memory w = Some m" "page_sized (length m)" "length m + 33554440 < 2 ^ 32"
    "unat hb + 23 + 2 * max 8 (length data) \<le> length m" "length data \<le> 33554432"
  obtains ptr w1 a1 where
    "inject_input_data S w (allocator_new hb) data = (Inr (ptr, of_nat (length data)), w1, a1)"
proof -
  let ?a = "allocator_new hb" and ?sz = "of_nat (length data) :: u32"
  have sz: "unat ?sz = length data" using assms(6) by (simp add: unat_of_nat32)
  have start: "heap_reach (?a, m, {})" by (rule heap_reach.start) (use assms(4,5) in simp_all)
  have "unat hb + 7 < 2 ^ 32" using assms(4,5) by simp
  then have "unat (hb + ALIGNMENT - 1) = unat hb + 7"
    using unat_add32_small [of 7 hb] by (simp add: alloc_consts)
  then have "unat (bumper ?a) = (unat hb + 7) div 8 * 8"
    using assms(4,5) by (simp add: allocator_new_def Let_def alloc_consts unat_word_ariths unat_div)
  then have "unat (bumper ?a) + 8 + 2 * max 8 (unat ?sz) \<le> length m" using assms(5) sz by simp
  moreover have "\<not> poisoned ?a" by (simp add: allocator_new_def Let_def)
  moreover have "unat ?sz \<le> 33554432" using sz assms(6) by simp
  ultimately obtain ptr a1 m1 where al: "allocate slice_memory ?a m ?sz = (Inr ptr, a1, m1)"
    using allocate_fits [OF start, of ?sz] by blast
  have "heap_reach (a1, m1, {(ptr, ?sz)})"
    by (rule heap_reach.step [OF start heap_step.alloc [OF al]])
  then have room: "unat ptr + length data \<le> length m1"
    using heap_reach_inv sz by (fastforce simp: regions_ok_def)
  have "length m1 = length m" by (rule allocate_length [OF al])
  then have "int (unat ptr + length data) < 2 ^ 64"
    using room by (intro page_sized_usize [OF assms(3)]) simp
  then have "write_memory_from m1 ptr data = Inr (overwrite m1 (unat ptr) data)"
    using room by (simp add: write_memory_from_Inr)
  then show thesis
    using that al with_memory_slice_page [OF assms(1-3)] by (simp add: inject_input_data_def)
qed

text \<open>The example guest called on a one-page memory with a three-byte input.\<close>

lemma example_call:
  obtains st w' where "perform_call example_sdk [1, 2, 3] (Export ''main'') (allocator_new 16)
    example_wrapper = (Inr [], st, w')"
proof -
  have page: "page_sized (length (replicate 65536 (0::u8)))" by (simp add: page_sized_def)
  have mem: "memory example_wrapper = Some (replicate 65536 0)" by (simp add: example_wrapper_def)
  obtain ptr w1 a1 where inj: "inject_input_data example_sdk example_wrapper (allocator_new 16) [1, 2, 3] =
      (Inr (ptr, of_nat (length [1, 2, 3 :: u8])), w1, a1)"
    by (rule inject_input_data_succeeds [OF example_laws mem page, of 16 "[1, 2, 3]"]) simp_all
  obtain m1 where m1: "w1 = example_wrapper\<lparr>memory := Some m1\<rparr>"
      "input_delivered 16 [1, 2, 3] (replicate 65536 0) ptr m1"
    by (rule inject_input_data_Inr [OF example_laws mem page _ inj]) simp
  let ?w = "w1\<lparr>host_state := Some (host_state_new a1)\<rparr>"
  let ?w2 = "snd (func_call example_sdk () [] ?w)"
  have call: "wrapper_call example_sdk (Export ''main'') ptr 3 ?w = (Inr 0, ?w2)"
    by (simp add: m1(1) wrapper_call_def example_wrapper_def example_instance_def example_sdk_def
        check_signature1_def check_signature_def)
  have "with_memory_slice example_sdk (?w2\<lparr>host_state := None\<rparr>) = Inr (map (\<lambda>_. 7) m1)"
    using m1(2) page by (intro with_memory_slice_page [OF example_laws])
      (simp_all add: example_sdk_def m1(1) input_delivered_def)
  then have "perform_call example_sdk [1, 2, 3] (Export ''main'') (allocator_new 16) example_wrapper =
      (Inr [], Some (stats a1), ?w2\<lparr>host_state := None\<rparr>)"
    using inj call
    by (simp add: perform_call_def unpack_ptr_and_len_def extract_output_data_def example_sdk_def
        read_memory_into_def checked_range_def subslice_def host_state_new_def)
  then show thesis by (rule that)
qed

theorem perform_call_protocol_witness:
  "\<exists>out st w' ptr m1 a1 f args res rs w2.
    perform_call example_sdk [1, 2, 3] (Export ''main'') (allocator_new 16) example_wrapper = (Inr out, st, w') \<and>
    input_delivered 16 [1, 2, 3] (replicate 65536 0) ptr m1 \<and>
    func_call example_sdk f args (example_wrapper\<lparr>memory := Some m1, host_state := Some (host_state_new a1)\<rparr>) =
      (Inr (res # rs), w2) \<and> output_read example_sdk (to_i64 example_sdk res) w' out"
proof -
  obtain st w' where c: "perform_call example_sdk [1, 2, 3] (Export ''main'') (allocator_new 16)
    example_wrapper = (Inr [], st, w')" by (rule example_call)
  have "memory example_wrapper = Some (replicate 65536 0)" by (simp add: example_wrapper_def)
  moreover have "page_sized (length (replicate 65536 (0 :: u8)))" by (simp add: page_sized_def)
  ultimately show ?thesis
    using perform_call_protocol [OF example_laws _ _ _ c] c by (simp del: length_replicate) blast
qed

theorem call_respects_signatures_witness:
  "wrapper_call (example_sdk\<lparr>func_ty := \<lambda>_. Inr (None, None), func_call := \<lambda>_ _ w. (Inr [], w)\<rparr>)
     (Export ''main'') 0 0 example_wrapper =
   wrapper_call (example_sdk\<lparr>func_ty := \<lambda>_. Inr (None, None)\<rparr>) (Export ''main'') 0 0 example_wrapper"
  using call_respects_signatures [of "example_sdk\<lparr>func_ty := \<lambda>_. Inr (None, None)\<rparr>"
      "\<lambda>_ _ w. (Inr [], w)"]
  by (simp add: entry_signature_def)

section \<open>Imports are resolved\<close>

lemma collect_imports_Inr:
  "collect_imports imps pending = Inr res \<Longrightarrow>
     (\<forall>i\<in>set imps. imp_module i = ''env'' \<and> (\<exists>ty. imp_kind i = Import_Func ty)) \<and>
     fst ` set res = fst ` set pending \<union> imp_name ` set imps"
  by (induction imps pending arbitrary: res rule: collect_imports.induct)
    (auto simp: dom_update split: if_splits import_kind.splits)

text \<open>What an entry of the import object says of the host.\<close>

fun resolves :: "host_function list \<Rightarrow> bool \<Rightarrow> string \<times> registered \<Rightarrow> bool" where
  "resolves hfs allow (name, Bound h ty) \<longleftrightarrow>
     h \<in> set hfs \<and> hf_name h = name \<and> ty = host_func_type h"
| "resolves hfs allow (name, Stub ty) \<longleftrightarrow>
     allow \<and> name \<notin> hf_name ` set hfs \<and> ty = (Some [], Some [])"

lemma bind_imports_Inr:
  "bind_imports K hfs pending acc missing = Inr (acc', missing') \<Longrightarrow>
   (\<forall>e\<in>set acc. resolves hfs allow e) \<Longrightarrow> fst ` set missing \<inter> hf_name ` set hfs = {} \<Longrightarrow>
   (\<forall>e\<in>set acc'. resolves hfs allow e) \<and> fst ` set missing' \<inter> hf_name ` set hfs = {} \<and>
   fst ` set acc' \<union> fst ` set missing' = fst ` set acc \<union> fst ` set missing \<union> fst ` set pending"
proof (induction K hfs pending acc missing rule: bind_imports.induct)
  case (2 K hfs name ty rest acc missing)
  show ?case
  proof (cases "find (\<lambda>h. hf_name h = name) hfs")
    case None
    then have "name \<notin> hf_name ` set hfs" by (auto simp: find_None_iff)
    with 2(1) 2(3-) None show ?thesis by (auto simp: dom_update)
  next
    case (Some h)
    then have "h \<in> set hfs" "hf_name h = name" by (auto simp: find_Some_iff)
    with 2(2) 2(3-) Some show ?thesis by (auto split: if_splits sum.splits)
  qed
qed simp

lemma stub_imports_Inr:
  "stub_imports K missing acc = Inr acc' \<Longrightarrow>
   set acc' = set acc \<union> (\<lambda>(name, _). (name, Stub (Some [], Some []))) ` set missing"
  by (induction K missing acc rule: stub_imports.induct) (auto split: sum.splits)



section \<open>Value conversions\<close>


section \<open>Host calls are allocator sessions\<close>

text \<open>What a guest does through the host functions: allocate, free and write inside
  what it holds. The second component records the regions it holds.\<close>

inductive host_run :: "('m, 'f) sdk \<Rightarrow> host_context \<times> (u32 \<times> u32) set \<Rightarrow> bool" for S where
  start: "page_sized (length m) \<Longrightarrow> unat hb + 7 \<le> length m \<Longrightarrow> length m + 33554440 < 2 ^ 32 \<Longrightarrow>
    host_run S (\<lparr>ctx_memory = m, ctx_host_state = host_state_new (allocator_new hb)\<rparr>, {})"
| alloc: "host_run S (c, L) \<Longrightarrow> ctx_allocate_memory S c sz = (Inr ptr, c') \<Longrightarrow>
    host_run S (c', insert (ptr, sz) L)"
| alloc_fail: "host_run S (c, L) \<Longrightarrow> ctx_allocate_memory S c sz = (Inl e, c') \<Longrightarrow> host_run S (c', L)"
| dealloc: "host_run S (c, L) \<Longrightarrow> (ptr, sz) \<in> L \<Longrightarrow> ctx_deallocate_memory S c ptr = (Inr u, c') \<Longrightarrow>
    host_run S (c', L - {(ptr, sz)})"
| dealloc_fail: "host_run S (c, L) \<Longrightarrow> ctx_deallocate_memory S c ptr = (Inl e, c') \<Longrightarrow>
    host_run S (c', L)"
| guest_write: "host_run S (c, L) \<Longrightarrow> (ptr, sz) \<in> L \<Longrightarrow> off + length bs \<le> unat sz \<Longrightarrow>
    ctx_write_memory S c (ptr + of_nat off) bs = (r, c') \<Longrightarrow> host_run S (c', L)"
| panic_message: "host_run S (c, L) \<Longrightarrow> host_run S (register_panic_error_message c msg, L)"

lemma memory_slice_page:
  "sdk_laws S \<Longrightarrow> page_sized (length m) \<Longrightarrow> memory_slice S m = Inr m"
  using with_memory_slice_page [of S "\<lparr>instance_of = None, memory = Some m, host_state = None\<rparr>" m]
  by (simp add: with_memory_slice_def)

abbreviation session_of :: "host_context \<Rightarrow> (u32 \<times> u32) set \<Rightarrow> session" where
  "session_of c L \<equiv> (hs_allocator (ctx_host_state c), ctx_memory c, L)"

lemma ctx_allocate_step:
  assumes "sdk_laws S" "page_sized (length (ctx_memory c))" "ctx_allocate_memory S c sz = (r, c')"
  shows "length (ctx_memory c') = length (ctx_memory c)"
    "heap_step (session_of c L) (session_of c' (case r of Inl e \<Rightarrow> L | Inr p \<Rightarrow> insert (p, sz) L))"
proof -
  obtain ar a m' where al: "allocate slice_memory (hs_allocator (ctx_host_state c)) (ctx_memory c) sz = (ar, a, m')"
    by (metis prod.collapse)
  have len: "length m' = length (ctx_memory c)" by (rule allocate_length [OF al])
  have c': "c' = \<lparr>ctx_memory = m', ctx_host_state = (ctx_host_state c)\<lparr>hs_allocator := a\<rparr>\<rparr>"
    and r: "r = (case ar of Inl e \<Rightarrow> Inl (alloc_to_host e) | Inr p \<Rightarrow> Inr p)"
    using len al assms(3) memory_slice_page [OF assms(1,2)] by (simp_all add: ctx_allocate_memory_def)
  show "length (ctx_memory c') = length (ctx_memory c)" by (simp add: c' len)
  show "heap_step (session_of c L) (session_of c' (case r of Inl e \<Rightarrow> L | Inr p \<Rightarrow> insert (p, sz) L))"
    using al by (cases ar) (simp_all add: c' r heap_step.alloc heap_step.alloc_fail)
qed

lemma ctx_deallocate_step:
  assumes "sdk_laws S" "page_sized (length (ctx_memory c))" "ctx_deallocate_memory S c p = (r, c')"
  shows "length (ctx_memory c') = length (ctx_memory c)"
    "(p, sz) \<in> L \<Longrightarrow> r = Inr u \<Longrightarrow> heap_step (session_of c L) (session_of c' (L - {(p, sz)}))"
    "r = Inl e \<Longrightarrow> heap_step (session_of c L) (session_of c' L)"
proof -
  obtain dr a m' where de: "deallocate slice_memory (hs_allocator (ctx_host_state c)) (ctx_memory c) p = (dr, a, m')"
    by (metis prod.collapse)
  have len: "length m' = length (ctx_memory c)" by (rule deallocate_length [OF de])
  have c': "c' = \<lparr>ctx_memory = m', ctx_host_state = (ctx_host_state c)\<lparr>hs_allocator := a\<rparr>\<rparr>"
    and r: "r = (case dr of Inl e \<Rightarrow> Inl (alloc_to_host e) | Inr u \<Rightarrow> Inr u)"
    using len de assms(3) memory_slice_page [OF assms(1,2)] by (simp_all add: ctx_deallocate_memory_def)
  show "length (ctx_memory c') = length (ctx_memory c)" by (simp add: c' len)
  show "heap_step (session_of c L) (session_of c' (L - {(p, sz)}))" if "(p, sz) \<in> L" "r = Inr u"
    using de that by (cases dr) (simp_all add: c' r heap_step.dealloc)
  show "heap_step (session_of c L) (session_of c' L)" if "r = Inl e"
    using de that by (cases dr) (simp_all add: c' r heap_step.dealloc_fail)
qed

lemma ctx_write_memory_page:
  assumes "sdk_laws S" "page_sized (length (ctx_memory c))"
  shows "ctx_write_memory S c p bs =
    (if unat p + length bs \<le> length (ctx_memory c)
     then (Inr (), c\<lparr>ctx_memory := overwrite (ctx_memory c) (unat p) bs\<rparr>)
     else (Inl (Host_Error ''Other: memory write is out of bounds''), c))"
  using memory_slice_page [OF assms] page_sized_usize [OF assms(2), of "unat p + length bs"]
  by (auto simp: ctx_write_memory_def write_memory_from_def checked_range_def)


text \<open>Writing at \<open>ptr + off\<close> inside a held region does not wrap around.\<close>

lemma region_offset:
  "unat (sz :: u32) + unat ptr \<le> n \<Longrightarrow> n < 2 ^ 32 \<Longrightarrow> off \<le> unat sz \<Longrightarrow>
     unat (ptr + of_nat off :: u32) = unat ptr + off"
  by (subst unat_add32_small) (simp_all add: unat_of_nat32)

lemma ctx_write_step:
  assumes "sdk_laws S" "page_sized (length (ctx_memory c))" "(ptr, sz) \<in> L" "off + length bs \<le> unat sz"
    "heap_reach (session_of c L)" "ctx_write_memory S c (ptr + of_nat off) bs = (r, c')"
  shows "length (ctx_memory c') = length (ctx_memory c)" "heap_step (session_of c L) (session_of c' L)"
proof -
  let ?m = "ctx_memory c"
  have ok: "unat ptr + unat sz \<le> length ?m"
    using heap_reach_inv [OF assms(5)] assms(3) by (auto simp: regions_ok_def)
  have "unat (ptr + of_nat off) = unat ptr + off"
    by (rule region_offset [of sz _ "length ?m"])
      (use ok page_sized_bound [OF assms(2)] assms(4) in simp_all)
  then have c': "c' = c\<lparr>ctx_memory := overwrite ?m (unat ptr + off) bs\<rparr>"
    using assms(4,6) ok ctx_write_memory_page [OF assms(1,2)] by (simp split: if_splits)
  show "length (ctx_memory c') = length ?m" using ok assms(4) by (simp add: c')
  show "heap_step (session_of c L) (session_of c' L)"
    using heap_step.guest_write [OF assms(3,4)] by (simp add: c')
qed

lemma host_run_session:
  "host_run S (c, L) \<Longrightarrow> sdk_laws S \<Longrightarrow>
     heap_reach (session_of c L) \<and> page_sized (length (ctx_memory c))"
proof (induction "(c, L)" arbitrary: c L rule: host_run.induct)
  case (start m hb)
  then show ?case by (simp add: host_state_new_def heap_reach.start)
next
  case (alloc c L sz ptr c')
  then have c: "heap_reach (session_of c L)" "page_sized (length (ctx_memory c))" by simp_all
  note step = ctx_allocate_step [OF alloc.prems c(2) alloc.hyps(3)]
  show ?case using heap_reach.step [OF c(1) step(2)] c(2) step(1) by simp
next
  case (alloc_fail c L sz e c')
  then have c: "heap_reach (session_of c L)" "page_sized (length (ctx_memory c))" by simp_all
  note step = ctx_allocate_step [OF alloc_fail.prems c(2) alloc_fail.hyps(3)]
  show ?case using heap_reach.step [OF c(1) step(2)] c(2) step(1) by simp
next
  case (dealloc c L ptr sz u c')
  then have c: "heap_reach (session_of c L)" "page_sized (length (ctx_memory c))" by simp_all
  note step = ctx_deallocate_step [OF dealloc.prems c(2) dealloc.hyps(4)]
  show ?case using heap_reach.step [OF c(1) step(2) [OF dealloc.hyps(3) refl]] c(2) step(1) by simp
next
  case (dealloc_fail c L ptr e c')
  then have c: "heap_reach (session_of c L)" "page_sized (length (ctx_memory c))" by simp_all
  note step = ctx_deallocate_step [OF dealloc_fail.prems c(2) dealloc_fail.hyps(3)]
  show ?case using heap_reach.step [OF c(1) step(3) [OF refl]] c(2) step(1) by simp
next
  case (guest_write c L ptr sz off bs r c')
  then have c: "heap_reach (session_of c L)" "page_sized (length (ctx_memory c))" by simp_all
  note step = ctx_write_step [OF guest_write.prems c(2) guest_write.hyps(3,4) c(1) guest_write.hyps(5)]
  show ?case using heap_reach.step [OF c(1) step(2)] c(2) step(1) by simp
next
  case (panic_message c L msg)
  then show ?case by (simp add: register_panic_error_message_def)
qed

text \<open>C28: Through the host functions a guest keeps what it was given: after any sequence
  of host calls, and of writes inside the regions it holds, those regions are aligned,
  inside the linear memory and disjoint.\<close>

theorem host_regions_disjoint:
  assumes "sdk_laws S" "host_run S (c, L)" "(p, s) \<in> L" "(q, t) \<in> L" "(p, s) \<noteq> (q, t)"
  shows "8 dvd unat p \<and> unat p + unat s \<le> length (ctx_memory c) \<and>
    (unat p + unat s \<le> unat q \<or> unat q + unat t \<le> unat p)"
proof -
  have "regions_ok L (length (ctx_memory c))"
    using heap_reach_inv host_run_session [OF assms(2,1)] by fastforce
  with assms(3-) show ?thesis unfolding regions_ok_def by fast
qed

lemma allocate_bumper:
  assumes "allocate M a m sz = (Inr ptr, a', m')"
  shows "unat (bumper a') \<le> unat (bumper a) + 8 + 2 * max 8 (unat sz)"
proof -
  obtain ord obs h a2 where ord: "order_from_size sz = Inr ord"
    and th: "take_header M (a\<lparr>last_observed_memory_size := obs\<rparr>) m ord = (Inr h, a2)"
    and a': "bumper a' = bumper a2"
    using assms by (auto simp: allocate_def Let_def split: if_splits sum.splits prod.splits)
  obtain k where k: "k < 23" "ord = Order (of_nat k)" "k = 0 \<or> 8 * 2 ^ (k - 1) < unat sz"
    by (rule order_from_size_Inr [OF ord])
  have "8 * 2 ^ k \<le> 2 * max 8 (unat sz)" using k(3) by (cases k) auto
  then have sz: "unat (order_size ord + HEADER_SIZE) \<le> 8 + 2 * max 8 (unat sz)"
    using unat_csize [OF k(1)] k(2) by (simp add: csize_def)
  have "bumper a2 \<in> {bumper a, bumper a + (order_size ord + HEADER_SIZE)}"
    using th by (auto simp: take_header_def bump_def split: sum.splits link.splits if_splits)
  moreover have "unat (bumper a + x) \<le> unat (bumper a) + unat x" for x
    by (simp add: unat_add32)
  ultimately show ?thesis using sz a' by (fastforce intro: order_trans)
qed

lemma ctx_allocate_fits:
  assumes "sdk_laws S" "host_run S (c, L)" "\<not> poisoned (hs_allocator (ctx_host_state c))"
    "unat sz \<le> 33554432"
    "unat (bumper (hs_allocator (ctx_host_state c))) + 8 + 2 * max 8 (unat sz) \<le> length (ctx_memory c)"
  obtains ptr c' where "host_run S (c', insert (ptr, sz) L)"
    "\<not> poisoned (hs_allocator (ctx_host_state c'))" "length (ctx_memory c') = length (ctx_memory c)"
    "unat (bumper (hs_allocator (ctx_host_state c'))) \<le>
       unat (bumper (hs_allocator (ctx_host_state c))) + 8 + 2 * max 8 (unat sz)"
proof -
  have h: "heap_reach (session_of c L)" "page_sized (length (ctx_memory c))"
    using host_run_session [OF assms(2,1)] by simp_all
  obtain ptr a m where al: "allocate slice_memory (hs_allocator (ctx_host_state c)) (ctx_memory c) sz = (Inr ptr, a, m)"
      "\<not> poisoned a"
    using allocate_fits [OF h(1) assms(3-5)] by blast
  let ?c = "\<lparr>ctx_memory = m, ctx_host_state = (ctx_host_state c)\<lparr>hs_allocator := a\<rparr>\<rparr>"
  have len: "length m = length (ctx_memory c)" by (rule allocate_length [OF al(1)])
  have "ctx_allocate_memory S c sz = (Inr ptr, ?c)"
    using al len memory_slice_page [OF assms(1) h(2)] by (simp add: ctx_allocate_memory_def)
  then have "host_run S (?c, insert (ptr, sz) L)" by (rule host_run.alloc [OF assms(2)])
  then show thesis using that [of ?c ptr] al len allocate_bumper [OF al(1)] by simp
qed

text \<open>Two host calls on one page of memory.\<close>

theorem host_regions_disjoint_witness:
  "\<exists>c p q. host_run example_sdk (c, {(p, 1), (q, 5)}) \<and>
     unat p + unat (1 :: u32) \<le> length (ctx_memory c) \<and>
     (unat p + unat (1 :: u32) \<le> unat q \<or> unat q + unat (5 :: u32) \<le> unat p)"
proof -
  let ?c = "\<lparr>ctx_memory = replicate 65536 0, ctx_host_state = host_state_new (allocator_new 0)\<rparr>"
  have run: "host_run example_sdk (?c, {})"
    by (rule host_run.start) (simp_all add: page_sized_def)
  have b: "\<not> poisoned (allocator_new 0)" "unat (bumper (allocator_new 0)) = 0"
    by (simp_all add: allocator_new_def Let_def alloc_consts)
  obtain q c1 where c1: "host_run example_sdk (c1, insert (q, 5) {})"
    "\<not> poisoned (hs_allocator (ctx_host_state c1))" "length (ctx_memory c1) = 65536"
    "unat (bumper (hs_allocator (ctx_host_state c1))) \<le> 24"
    by (rule ctx_allocate_fits [OF example_laws run, of 5]) (use b in \<open>simp_all add: host_state_new_def\<close>)
  obtain p c2 where c2: "host_run example_sdk (c2, insert (p, 1) (insert (q, 5) {}))"
    by (rule ctx_allocate_fits [OF example_laws c1(1,2), of 1]) (use c1 in simp_all)
  show ?thesis
    using c2 host_regions_disjoint [OF example_laws c2, of p 1 q 5] by simp blast
qed

end
