(* ===== verification/Btree_Map.thy ===== *)
theory Btree_Map
  imports Prelude
begin

text \<open>
  Ordered maps. The sources keep their tables in \<open>BTreeMap\<close>s; here such a map is an
  association list in strictly increasing key order, so that iteration order is the
  order of the list. The locale \<open>ordered_map\<close> is the interface the components use.
\<close>

definition bt_lookup :: "('k \<times> 'v) list \<Rightarrow> 'k \<Rightarrow> 'v option" where
  "bt_lookup m k = map_of m k"

fun bt_insert :: "'k :: linorder \<Rightarrow> 'v \<Rightarrow> ('k \<times> 'v) list \<Rightarrow> ('k \<times> 'v) list" where
  "bt_insert k v [] = [(k, v)]"
| "bt_insert k v ((k', v') # m) =
     (if k < k' then (k, v) # (k', v') # m
      else if k = k' then (k, v) # m
      else (k', v') # bt_insert k v m)"

definition bt_remove :: "'k \<Rightarrow> ('k \<times> 'v) list \<Rightarrow> ('k \<times> 'v) list" where
  "bt_remove k m = filter (\<lambda>(k', _). k' \<noteq> k) m"

definition bt_inv :: "('k :: linorder \<times> 'v) list \<Rightarrow> bool" where
  "bt_inv m = sorted_wrt (<) (map fst m)"

locale ordered_map =
  fixes lookup :: "'m \<Rightarrow> 'k \<Rightarrow> 'v option"
    and insert_kv :: "'k \<Rightarrow> 'v \<Rightarrow> 'm \<Rightarrow> 'm"
    and remove_key :: "'k \<Rightarrow> 'm \<Rightarrow> 'm"
    and invar :: "'m \<Rightarrow> bool"
  assumes lookup_insert: "invar m \<Longrightarrow> lookup (insert_kv k v m) = (lookup m)(k \<mapsto> v)"
    and lookup_remove: "invar m \<Longrightarrow> lookup (remove_key k m) = (lookup m)(k := None)"
    and invar_insert: "invar m \<Longrightarrow> invar (insert_kv k v m)"
    and invar_remove: "invar m \<Longrightarrow> invar (remove_key k m)"
    and extensional: "invar m \<Longrightarrow> invar m' \<Longrightarrow> lookup m = lookup m' \<Longrightarrow> m = m'"
begin

lemma remove_insert: "invar m \<Longrightarrow> lookup m k = None \<Longrightarrow> remove_key k (insert_kv k v m) = m"
  by (rule extensional) (auto simp: lookup_insert lookup_remove invar_insert invar_remove)

lemma insert_insert: "invar m \<Longrightarrow> insert_kv k v (insert_kv k v' m) = insert_kv k v m"
  by (rule extensional) (auto simp: lookup_insert invar_insert)

lemma insert_same: "invar m \<Longrightarrow> lookup m k = Some v \<Longrightarrow> insert_kv k v m = m"
  by (rule extensional) (auto simp: lookup_insert invar_insert)

lemma lookup_fold_insert:
  assumes "invar m" "distinct ks"
  shows "lookup (fold (\<lambda>k m. insert_kv k (f k) m) ks m) k =
      (if k \<in> set ks then Some (f k) else lookup m k) \<and>
    invar (fold (\<lambda>k m. insert_kv k (f k) m) ks m)"
  using assms by (induction ks arbitrary: m) (auto simp: invar_insert lookup_insert)

end

lemma bt_insert_keys: "fst ` set (bt_insert k v m) = insert k (fst ` set m)"
  by (induction k v m rule: bt_insert.induct) (auto simp: rev_image_eqI)

lemma bt_inv_simps [simp]:
  "bt_inv []"
  "bt_inv ((k, v) # m) \<longleftrightarrow> (\<forall>k'\<in>fst ` set m. k < k') \<and> bt_inv m"
  by (simp_all add: bt_inv_def)

lemma bt_lookup_Cons: "bt_lookup ((k', v) # m) k = (if k = k' then Some v else bt_lookup m k)"
  by (simp add: bt_lookup_def)

lemma bt_lookup_None: "bt_lookup m k = None \<longleftrightarrow> k \<notin> fst ` set m"
  by (simp add: bt_lookup_def map_of_eq_None_iff)

lemma bt_inv_insert: "bt_inv m \<Longrightarrow> bt_inv (bt_insert k v m)"
  by (induction k v m rule: bt_insert.induct) (auto simp: bt_insert_keys dest: less_trans)

lemma bt_lookup_insert: "bt_inv m \<Longrightarrow> bt_lookup (bt_insert k v m) = (bt_lookup m)(k \<mapsto> v)"
proof (induction m)
  case (Cons e m)
  obtain k' v' where e: "e = (k', v')" by fastforce
  then show ?case using Cons by (auto simp: fun_eq_iff bt_lookup_Cons)
qed (simp add: bt_lookup_def fun_eq_iff)

lemma bt_inv_distinct: "bt_inv m \<Longrightarrow> distinct (map fst m)"
  by (auto simp: bt_inv_def strict_sorted_iff)

lemma bt_inv_remove: "bt_inv m \<Longrightarrow> bt_inv (bt_remove k m)"
  by (induction m) (auto simp: bt_remove_def)

lemma bt_lookup_remove: "bt_lookup (bt_remove k m) = (bt_lookup m)(k := None)"
  by (induction m) (auto simp: bt_remove_def bt_lookup_def fun_eq_iff)

lemma bt_extensional:
  assumes "bt_inv m" "bt_inv m'" "bt_lookup m = bt_lookup m'"
  shows "m = m'"
proof -
  have "set m = set m'"
    using assms bt_inv_distinct unfolding bt_lookup_def by (intro map_of_inject_set [THEN iffD1]) auto
  moreover have "sorted (map fst m)" "sorted (map fst m')"
    using assms(1,2) by (simp_all add: bt_inv_def strict_sorted_iff)
  ultimately show ?thesis
    using bt_inv_distinct [OF assms(1)] bt_inv_distinct [OF assms(2)]
    by (intro map_sorted_distinct_set_unique [of fst]) (auto simp: distinct_map)
qed

interpretation bt: ordered_map bt_lookup bt_insert bt_remove bt_inv
  by unfold_locales
    (auto simp: bt_lookup_insert bt_lookup_remove bt_inv_insert bt_inv_remove intro: bt_extensional)

end
