(* ===== verification/Changeset.thy ===== *)
theory Changeset
  imports Btree_Map
begin

text \<open>
  The transactional overlay of \<open>primitives/state-machine/src/overlayed_changes\<close>:
  \<open>changeset.rs\<close> keeps every key's versions, one per open transaction that wrote it, and
  which keys are dirty per transaction. The specification is a stack of maps, one per
  open transaction above the committed one; the code is shown to implement it, which
  gives rollback, commit and the protection of client transactions.
\<close>

section \<open>The overlay of one map\<close>

text \<open>Vectors that the source uses as stacks are lists whose head is the top. A hash set
  of dirty keys is a list without repetitions, iterated in insertion order; the
  refinement below shows that the order does not matter.\<close>

datatype changeset_error = NoOpenTransaction | AlreadyInRuntime | NotInRuntime | Changeset_Panic

datatype execution_mode = Client | Runtime

record 'v inner_value =
  iv_value :: 'v
  iv_extrinsics :: "u32 list"

type_synonym 'v overlayed_entry = "'v inner_value list"

record ('k, 'v) overlayed_map =
  changes :: "('k \<times> 'v overlayed_entry) list"
  dirty_keys :: "'k list list"
  num_client_transactions :: nat
  execution_mode :: execution_mode

definition extrinsics_insert :: "u32 \<Rightarrow> u32 list \<Rightarrow> u32 list" where
  "extrinsics_insert ext xs = (if xs \<noteq> [] \<and> last xs = ext then xs else xs @ [ext])"

definition overlayed_map_default :: "('k, 'v) overlayed_map" where
  "overlayed_map_default =
     \<lparr>changes = [], dirty_keys = [], num_client_transactions = 0, execution_mode = Client\<rparr>"

text \<open>\<open>OverlayedEntry\<close>: the current version is the head; \<open>None\<close> is a failed \<open>expect\<close>.\<close>

fun value_ref :: "'v overlayed_entry \<Rightarrow> 'v option" where
  "value_ref [] = None"
| "value_ref (t # _) = Some (iv_value t)"

definition entry_extrinsics :: "'v overlayed_entry \<Rightarrow> u32 set" where
  "entry_extrinsics ts = (\<Union>t\<in>set ts. set (iv_extrinsics t))"

fun record_extrinsic :: "u32 option \<Rightarrow> 'v overlayed_entry \<Rightarrow> 'v overlayed_entry" where
  "record_extrinsic (Some ext) (t # ts) =
     t\<lparr>iv_extrinsics := extrinsics_insert ext (iv_extrinsics t)\<rparr> # ts"
| "record_extrinsic _ ts = ts"

definition entry_set ::
  "'v \<Rightarrow> bool \<Rightarrow> u32 option \<Rightarrow> 'v overlayed_entry \<Rightarrow> 'v overlayed_entry" where
  "entry_set v first_write_in_tx at_extrinsic ts =
     record_extrinsic at_extrinsic
       (if first_write_in_tx \<or> ts = [] then \<lparr>iv_value = v, iv_extrinsics = []\<rparr> # ts
        else (hd ts)\<lparr>iv_value := v\<rparr> # tl ts)"

fun insert_dirty :: "'k list list \<Rightarrow> 'k \<Rightarrow> bool \<times> 'k list list" where
  "insert_dirty [] key = (False, [])"
| "insert_dirty (dk # dks) key =
     (if key \<in> set dk then (False, dk # dks) else (True, (dk @ [key]) # dks))"

definition transaction_depth :: "('k, 'v) overlayed_map \<Rightarrow> nat" where
  "transaction_depth m = length (dirty_keys m)"

definition spawn_child :: "('k, 'v) overlayed_map \<Rightarrow> ('k2, 'v2) overlayed_map" where
  "spawn_child m = \<lparr>changes = [], dirty_keys = replicate (transaction_depth m) [],
     num_client_transactions = num_client_transactions m, execution_mode = execution_mode m\<rparr>"

definition is_empty :: "('k, 'v) overlayed_map \<Rightarrow> bool" where
  "is_empty m = (changes m = [])"

definition map_get :: "('k, 'v) overlayed_map \<Rightarrow> 'k \<Rightarrow> 'v overlayed_entry option" where
  "map_get m key = bt_lookup (changes m) key"

text \<open>\<open>changes.entry(key).or_default()\<close>.\<close>

definition entry_or_default :: "('k, 'v) overlayed_map \<Rightarrow> 'k \<Rightarrow> 'v overlayed_entry" where
  "entry_or_default m key = (case bt_lookup (changes m) key of None \<Rightarrow> [] | Some ts \<Rightarrow> ts)"

definition map_set ::
  "'k :: linorder \<Rightarrow> 'v \<Rightarrow> u32 option \<Rightarrow> ('k, 'v) overlayed_map \<Rightarrow> ('k, 'v) overlayed_map" where
  "map_set key v at_extrinsic m =
     (let (first, dks) = insert_dirty (dirty_keys m) key
      in m\<lparr>changes := bt_insert key (entry_set v first at_extrinsic (entry_or_default m key)) (changes m),
           dirty_keys := dks\<rparr>)"

definition drain_commited :: "('k, 'v) overlayed_map \<Rightarrow> changeset_error + ('k \<times> 'v) list" where
  "drain_commited m =
     (if transaction_depth m \<noteq> 0 \<or> list_ex (\<lambda>(_, ts). ts = []) (changes m) then Inl Changeset_Panic
      else Inr (map (\<lambda>(k, ts). (k, iv_value (hd ts))) (changes m)))"

definition has_open_runtime_transactions :: "('k, 'v) overlayed_map \<Rightarrow> bool" where
  "has_open_runtime_transactions m = (num_client_transactions m < transaction_depth m)"

definition enter_runtime ::
  "('k, 'v) overlayed_map \<Rightarrow> (changeset_error + unit) \<times> ('k, 'v) overlayed_map" where
  "enter_runtime m =
     (case execution_mode m of
        Runtime \<Rightarrow> (Inl AlreadyInRuntime, m)
      | Client \<Rightarrow>
          (Inr (), m\<lparr>execution_mode := Runtime, num_client_transactions := transaction_depth m\<rparr>))"

definition start_transaction :: "('k, 'v) overlayed_map \<Rightarrow> ('k, 'v) overlayed_map" where
  "start_transaction m = m\<lparr>dirty_keys := [] # dirty_keys m\<rparr>"

text \<open>Did the parent transaction write the key, or is there a committed value? The key
  becomes dirty in the parent.\<close>

definition has_predecessor ::
  "'k \<Rightarrow> 'v overlayed_entry \<Rightarrow> 'k list list \<Rightarrow> bool \<times> 'k list list" where
  "has_predecessor key ts dks =
     (case dks of
        [] \<Rightarrow> (length ts > 1, [])
      | _ \<Rightarrow> (case insert_dirty dks key of (new, dks') \<Rightarrow> (\<not> new, dks')))"

text \<open>The body of the loop of \<open>close_transaction\<close>, once the top dirty set is popped.\<close>

definition close_key ::
  "bool \<Rightarrow> 'k :: linorder \<Rightarrow> ('k, 'v) overlayed_map \<Rightarrow> (changeset_error + unit) \<times> ('k, 'v) overlayed_map" where
  "close_key rollback key m =
     (case bt_lookup (changes m) key of
        None \<Rightarrow> (Inl Changeset_Panic, m)
      | Some [] \<Rightarrow> (Inl Changeset_Panic, m)
      | Some (t # ts) \<Rightarrow>
          if rollback then
            (Inr (), m\<lparr>changes := if ts = [] then bt_remove key (changes m)
                                  else bt_insert key ts (changes m)\<rparr>)
          else
            let (pred, dks) = has_predecessor key (t # ts) (dirty_keys m)
            in if pred then
                 (case ts of
                    [] \<Rightarrow> (Inl Changeset_Panic, m\<lparr>changes := bt_insert key [] (changes m), dirty_keys := dks\<rparr>)
                  | p # ps \<Rightarrow>
                      (Inr (), m\<lparr>changes := bt_insert key
                          (\<lparr>iv_value = iv_value t, iv_extrinsics = iv_extrinsics p @ iv_extrinsics t\<rparr> # ps)
                          (changes m), dirty_keys := dks\<rparr>))
               else (Inr (), m\<lparr>dirty_keys := dks\<rparr>))"

fun close_keys ::
  "bool \<Rightarrow> 'k :: linorder list \<Rightarrow> ('k, 'v) overlayed_map \<Rightarrow>
   (changeset_error + unit) \<times> ('k, 'v) overlayed_map" where
  "close_keys rollback [] m = (Inr (), m)"
| "close_keys rollback (key # keys) m =
     (case close_key rollback key m of
        (Inl e, m') \<Rightarrow> (Inl e, m')
      | (Inr _, m') \<Rightarrow> close_keys rollback keys m')"

definition close_transaction ::
  "bool \<Rightarrow> ('k :: linorder, 'v) overlayed_map \<Rightarrow>
   (changeset_error + unit) \<times> ('k, 'v) overlayed_map" where
  "close_transaction rollback m =
     (if execution_mode m = Runtime \<and> \<not> has_open_runtime_transactions m
      then (Inl NoOpenTransaction, m)
      else case dirty_keys m of
        [] \<Rightarrow> (Inl NoOpenTransaction, m)
      | dk # dks \<Rightarrow> close_keys rollback dk (m\<lparr>dirty_keys := dks\<rparr>))"

definition rollback_transaction ::
  "('k :: linorder, 'v) overlayed_map \<Rightarrow> (changeset_error + unit) \<times> ('k, 'v) overlayed_map" where
  "rollback_transaction m = close_transaction True m"

definition commit_transaction ::
  "('k :: linorder, 'v) overlayed_map \<Rightarrow> (changeset_error + unit) \<times> ('k, 'v) overlayed_map" where
  "commit_transaction m = close_transaction False m"

text \<open>The loop of \<open>exit_runtime\<close>: at most one round per open transaction.\<close>

fun rollback_dangling ::
  "nat \<Rightarrow> ('k :: linorder, 'v) overlayed_map \<Rightarrow>
   (changeset_error + unit) \<times> ('k, 'v) overlayed_map" where
  "rollback_dangling 0 m = (Inr (), m)"
| "rollback_dangling (Suc n) m =
     (if has_open_runtime_transactions m then
        (case rollback_transaction m of
           (Inl e, m') \<Rightarrow> (Inl Changeset_Panic, m')
         | (Inr _, m') \<Rightarrow> rollback_dangling n m')
      else (Inr (), m))"

definition exit_runtime ::
  "('k :: linorder, 'v) overlayed_map \<Rightarrow> (changeset_error + unit) \<times> ('k, 'v) overlayed_map" where
  "exit_runtime m =
     (case execution_mode m of
        Client \<Rightarrow> (Inl NotInRuntime, m)
      | Runtime \<Rightarrow> rollback_dangling (transaction_depth m) (m\<lparr>execution_mode := Client\<rparr>))"

section \<open>The overlay of storage values\<close>

text \<open>\<open>modify\<close> hands out a reference to the current value; the caller's change of it is the
  argument \<open>f\<close>.\<close>

definition map_modify ::
  "'k :: linorder \<Rightarrow> 'w \<Rightarrow> u32 option \<Rightarrow> ('w option \<Rightarrow> 'w option) \<Rightarrow>
   ('k, 'w option) overlayed_map \<Rightarrow> ('k, 'w option) overlayed_map" where
  "map_modify key init at_extrinsic f m =
     (let ts = entry_or_default m key;
          (first, dks) = insert_dirty (dirty_keys m) key;
          clone_into_new_tx =
            (case ts of
               [] \<Rightarrow> Some (Some init)
             | t # _ \<Rightarrow> if first then Some (iv_value t) else None);
          ts' = (case clone_into_new_tx of
                   None \<Rightarrow> ts
                 | Some cloned \<Rightarrow> entry_set cloned first at_extrinsic ts)
      in m\<lparr>changes := bt_insert key ((hd ts')\<lparr>iv_value := f (iv_value (hd ts'))\<rparr> # tl ts') (changes m),
           dirty_keys := dks\<rparr>)"

fun clear_entries ::
  "('k :: linorder \<times> 'w option overlayed_entry) list \<Rightarrow> ('k \<Rightarrow> 'w option overlayed_entry \<Rightarrow> bool) \<Rightarrow>
   u32 option \<Rightarrow> ('k, 'w option) overlayed_map \<Rightarrow> u32 \<times> ('k, 'w option) overlayed_map" where
  "clear_entries [] predicate at_extrinsic m = (0, m)"
| "clear_entries ((key, ts) # rest) predicate at_extrinsic m =
     (if predicate key ts then
        (case clear_entries rest predicate at_extrinsic (map_set key None at_extrinsic m) of
           (n, m') \<Rightarrow> ((if value_ref ts = Some None then 0 else 1) + n, m'))
      else clear_entries rest predicate at_extrinsic m)"

definition clear_where ::
  "('k :: linorder \<Rightarrow> 'w option overlayed_entry \<Rightarrow> bool) \<Rightarrow> u32 option \<Rightarrow>
   ('k, 'w option) overlayed_map \<Rightarrow> u32 \<times> ('k, 'w option) overlayed_map" where
  "clear_where predicate at_extrinsic m = clear_entries (changes m) predicate at_extrinsic m"

definition changes_after :: "'k :: linorder \<Rightarrow> ('k, 'v) overlayed_map \<Rightarrow> ('k \<times> 'v overlayed_entry) list" where
  "changes_after key m = filter (\<lambda>(k, _). key < k) (changes m)"

section \<open>The specification: a stack of maps\<close>

text \<open>One map per open transaction, the innermost first, above the committed map. A map
  holds what its transaction wrote.\<close>

type_synonym ('k, 'v) layer = "'k \<Rightarrow> 'v inner_value option"
type_synonym ('k, 'v) stack = "('k, 'v) layer list \<times> ('k, 'v) layer"

fun top_update :: "(('k, 'v) layer \<Rightarrow> ('k, 'v) layer) \<Rightarrow> ('k, 'v) stack \<Rightarrow> ('k, 'v) stack" where
  "top_update f ([], b) = ([], f b)"
| "top_update f (l # ls, b) = (f l # ls, b)"

definition stamp :: "u32 option \<Rightarrow> 'v inner_value \<Rightarrow> 'v inner_value" where
  "stamp at iv = (case at of None \<Rightarrow> iv
     | Some e \<Rightarrow> iv\<lparr>iv_extrinsics := extrinsics_insert e (iv_extrinsics iv)\<rparr>)"

definition layer_set :: "'k \<Rightarrow> 'v \<Rightarrow> u32 option \<Rightarrow> ('k, 'v) layer \<Rightarrow> ('k, 'v) layer" where
  "layer_set k v at l = l(k \<mapsto> stamp at
     (case l k of None \<Rightarrow> \<lparr>iv_value = v, iv_extrinsics = []\<rparr> | Some iv \<Rightarrow> iv\<lparr>iv_value := v\<rparr>))"

fun merge1 :: "'v inner_value option \<Rightarrow> 'v inner_value option \<Rightarrow> 'v inner_value option" where
  "merge1 None n = n"
| "merge1 (Some t) None = Some t"
| "merge1 (Some t) (Some p) =
     Some \<lparr>iv_value = iv_value t, iv_extrinsics = iv_extrinsics p @ iv_extrinsics t\<rparr>"

definition merge :: "('k, 'v) layer \<Rightarrow> ('k, 'v) layer \<Rightarrow> ('k, 'v) layer" where
  "merge l n = (\<lambda>k. merge1 (l k) (n k))"

definition versions :: "('k, 'v) stack \<Rightarrow> 'k \<Rightarrow> 'v inner_value list" where
  "versions s k = List.map_filter (\<lambda>l. l k) (fst s @ [snd s])"

text \<open>The value a key has: that of the innermost map that holds it.\<close>

definition view :: "('k, 'v) stack \<Rightarrow> 'k \<Rightarrow> 'v option" where
  "view s k = (case versions s k of [] \<Rightarrow> None | iv # _ \<Rightarrow> Some (iv_value iv))"

text \<open>The overlay represents a stack.\<close>

definition lookup_versions :: "('k, 'v) overlayed_map \<Rightarrow> ('k, 'v) stack \<Rightarrow> bool" where
  "lookup_versions m s \<longleftrightarrow>
     (\<forall>k. bt_lookup (changes m) k = (if versions s k = [] then None else Some (versions s k)))"

definition stack_rel :: "('k :: linorder, 'v) overlayed_map \<Rightarrow> ('k, 'v) stack \<Rightarrow> bool" where
  "stack_rel m s \<longleftrightarrow> bt_inv (changes m) \<and> lookup_versions m s \<and>
     list_all2 (\<lambda>dk l. distinct dk \<and> set dk = dom l) (dirty_keys m) (fst s)"

lemma versions_simps [simp]:
  "versions ([], b) k = (case b k of None \<Rightarrow> [] | Some iv \<Rightarrow> [iv])"
  "versions (l # ls, b) k = (case l k of None \<Rightarrow> versions (ls, b) k | Some iv \<Rightarrow> iv # versions (ls, b) k)"
  by (simp_all add: versions_def List.map_filter_def split: option.splits)

lemma versions_top_update:
  "versions (top_update f s) k =
     (case s of ([], b) \<Rightarrow> (case f b k of None \<Rightarrow> [] | Some iv \<Rightarrow> [iv])
      | (l # ls, b) \<Rightarrow> (case f l k of None \<Rightarrow> versions (ls, b) k | Some iv \<Rightarrow> iv # versions (ls, b) k))"
  by (cases "(f, s)" rule: top_update.cases) auto

lemma record_extrinsic_stamp [simp]: "record_extrinsic at (t # ts) = stamp at t # ts"
  by (cases at) (simp_all add: stamp_def)

lemma entry_or_default_versions:
  "lookup_versions m s \<Longrightarrow> entry_or_default m k = versions s k"
  by (simp add: entry_or_default_def lookup_versions_def)

lemma lookup_versionsI:
  assumes "bt_inv (changes m)" "lookup_versions m s" "changes m' = bt_insert k ts (changes m)"
    "versions s' k = ts" "ts \<noteq> []" "\<And>j. j \<noteq> k \<Longrightarrow> versions s' j = versions s j"
  shows "lookup_versions m' s'"
  using assms by (auto simp: lookup_versions_def bt_lookup_insert)

lemma layer_set_other [simp]: "j \<noteq> k \<Longrightarrow> layer_set k v at l j = l j"
  by (simp add: layer_set_def)

lemma top_update_other:
  "(\<And>l. f l j = l j) \<Longrightarrow> versions (top_update f s) j = versions s j"
  by (cases "(f, s)" rule: top_update.cases) auto

lemma stack_rel_set:
  assumes "stack_rel m s"
  shows "stack_rel (map_set k v at m) (top_update (layer_set k v at) s)"
proof -
  have inv: "bt_inv (changes m)" and lk: "lookup_versions m s"
    and dk: "list_all2 (\<lambda>dk l. distinct dk \<and> set dk = dom l) (dirty_keys m) (fst s)"
    using assms by (auto simp: stack_rel_def)
  obtain first dks where d: "insert_dirty (dirty_keys m) k = (first, dks)" by fastforce
  let ?ts = "entry_set v first at (versions s k)"
  have m': "map_set k v at m = m\<lparr>changes := bt_insert k ?ts (changes m), dirty_keys := dks\<rparr>"
    by (simp add: map_set_def d entry_or_default_versions [OF lk])
  have ts: "versions (top_update (layer_set k v at) s) k = ?ts"
    and dk': "list_all2 (\<lambda>dk l. distinct dk \<and> set dk = dom l) dks (fst (top_update (layer_set k v at) s))"
  proof -
    obtain txs b where s: "s = (txs, b)" by fastforce
    show "versions (top_update (layer_set k v at) s) k = ?ts"
      using dk d by (cases txs) (auto simp: s list_all2_Cons2 entry_set_def layer_set_def
          split: option.splits if_splits)
    show "list_all2 (\<lambda>dk l. distinct dk \<and> set dk = dom l) dks (fst (top_update (layer_set k v at) s))"
    proof (cases txs)
      case (Cons l ls)
      then obtain z zs where z: "dirty_keys m = z # zs" "distinct z" "set z = dom l"
          "list_all2 (\<lambda>dk l. distinct dk \<and> set dk = dom l) zs ls"
        using dk by (auto simp: s list_all2_Cons2)
      have "(first, dks) = (if k \<in> set z then (False, z # zs) else (True, (z @ [k]) # zs))"
        using d z(1) by (auto split: if_splits)
      then show ?thesis
        using z(2-) by (auto simp: s Cons layer_set_def split: if_splits)
    qed (use dk d in \<open>auto simp: s\<close>)
  qed
  have ne: "?ts \<noteq> []" by (auto simp: entry_set_def)
  have other: "versions (top_update (layer_set k v at) s) j = versions s j" if "j \<noteq> k" for j
    by (rule top_update_other) (rule layer_set_other [OF that])
  have "lookup_versions (map_set k v at m) (top_update (layer_set k v at) s)"
    by (rule lookup_versionsI [OF inv lk _ ts ne other]) (simp_all add: m')
  then show ?thesis using inv dk' by (simp add: stack_rel_def m' bt_inv_insert)
qed

lemma stack_rel_start: "stack_rel m (txs, b) \<Longrightarrow> stack_rel (start_transaction m) (Map.empty # txs, b)"
  by (auto simp: stack_rel_def start_transaction_def lookup_versions_def)

lemma lookup_versions_Cons:
  "lookup_versions m (l # ls, b) \<Longrightarrow> l k = Some t \<Longrightarrow>
     bt_lookup (changes m) k = Some (t # versions (ls, b) k)"
  by (simp add: lookup_versions_def)

lemma close_keys_rollback:
  assumes "bt_inv (changes m)" "lookup_versions m (l # ls, b)" "distinct keys" "set keys = dom l"
  obtains m' where "close_keys True keys m = (Inr (), m')" "bt_inv (changes m')"
    "lookup_versions m' (ls, b)" "dirty_keys m' = dirty_keys m"
    "num_client_transactions m' = num_client_transactions m" "execution_mode m' = execution_mode m"
  using assms
proof (induction keys arbitrary: l m thesis)
  case Nil
  then have "l = Map.empty" by (metis dom_eq_empty_conv list.set(1))
  then have "lookup_versions m (ls, b)" using Nil.prems(3) by (simp add: lookup_versions_def)
  then show ?case using Nil.prems(1,2) by simp
next
  case (Cons k keys)
  obtain t where t: "l k = Some t" using Cons.prems(5) by auto
  let ?ts = "versions (ls, b) k"
  let ?m = "m\<lparr>changes := if ?ts = [] then bt_remove k (changes m) else bt_insert k ?ts (changes m)\<rparr>"
  have ck: "close_key True k m = (Inr (), ?m)"
    using lookup_versions_Cons [OF Cons.prems(3) t] by (simp add: close_key_def)
  have "lookup_versions ?m (l(k := None) # ls, b)"
    using Cons.prems(2,3) by (auto simp: lookup_versions_def bt_lookup_insert bt_lookup_remove)
  moreover have "bt_inv (changes ?m)"
    using Cons.prems(2) by (simp add: bt_inv_insert bt_inv_remove)
  moreover have "distinct keys" "set keys = dom (l(k := None))" using Cons.prems(4,5) by auto
  ultimately obtain m' where m': "close_keys True keys ?m = (Inr (), m')" "bt_inv (changes m')"
    "lookup_versions m' (ls, b)" "dirty_keys m' = dirty_keys ?m"
    "num_client_transactions m' = num_client_transactions ?m" "execution_mode m' = execution_mode ?m"
    using Cons.IH [where m = ?m and l = "l(k := None)"] by blast
  show ?case by (rule Cons.prems(1) [of m']) (use m' ck in simp_all)
qed

definition merge_key :: "'k \<Rightarrow> 'v inner_value \<Rightarrow> ('k, 'v) layer \<Rightarrow> ('k, 'v) layer" where
  "merge_key k t n = n(k := merge1 (Some t) (n k))"

lemma versions_merge_key:
  assumes "l k = Some t" "top_update (merge_key k t) (ls, b) = (ls1, b1)"
  shows "versions (l(k := None) # ls1, b1) j =
    (if j = k then case versions (ls, b) k of
         [] \<Rightarrow> [t]
       | p # ps \<Rightarrow>
           if (case ls of [] \<Rightarrow> b k | n # _ \<Rightarrow> n k) = None then t # p # ps
           else \<lparr>iv_value = iv_value t, iv_extrinsics = iv_extrinsics p @ iv_extrinsics t\<rparr> # ps
     else versions (l # ls, b) j)"
  using assms by (cases ls; cases "j = k") (auto simp: merge_key_def split: option.splits list.splits)

lemma commit_dirty:
  assumes "list_all2 (\<lambda>dk l. distinct dk \<and> set dk = dom l) dirty ls"
    "top_update (merge_key k t) (ls, b) = (ls1, b1)"
  obtains dks where "list_all2 (\<lambda>dk l. distinct dk \<and> set dk = dom l) dks ls1"
    "has_predecessor k (t # versions (ls, b) k) dirty =
     ((case ls of [] \<Rightarrow> b k | n # _ \<Rightarrow> n k) \<noteq> None, dks)"
proof (cases ls)
  case Nil
  then show thesis using that [of "[]"] assms by (auto simp: has_predecessor_def split: option.splits)
next
  case (Cons n ls')
  obtain z zs where z: "dirty = z # zs" "distinct z" "set z = dom n"
      "list_all2 (\<lambda>dk l. distinct dk \<and> set dk = dom l) zs ls'"
    using assms(1) Cons by (auto simp: list_all2_Cons2)
  have ls1: "ls1 = n(k := merge1 (Some t) (n k)) # ls'" using assms(2) Cons by (simp add: merge_key_def)
  show thesis
  proof (cases "n k")
    case None
    then have "k \<notin> set z" using z(3) by auto
    then show thesis using that [of "(z @ [k]) # zs"] z None Cons ls1 by (simp add: has_predecessor_def)
  next
    case (Some p)
    then have "k \<in> set z" using z(3) by auto
    then show thesis using that [of "z # zs"] z Some Cons ls1 by (simp add: insert_absorb has_predecessor_def)
  qed
qed

lemma close_key_commit:
  assumes "bt_inv (changes m)" "lookup_versions m (l # ls, b)" "l k = Some t"
    "list_all2 (\<lambda>dk l. distinct dk \<and> set dk = dom l) (dirty_keys m) ls"
    "top_update (merge_key k t) (ls, b) = (ls1, b1)"
  obtains m' where "close_key False k m = (Inr (), m')" "bt_inv (changes m')"
    "lookup_versions m' (l(k := None) # ls1, b1)"
    "list_all2 (\<lambda>dk l. distinct dk \<and> set dk = dom l) (dirty_keys m') ls1"
    "num_client_transactions m' = num_client_transactions m" "execution_mode m' = execution_mode m"
proof -
  let ?nxt = "case ls of [] \<Rightarrow> b k | n # _ \<Rightarrow> n k"
  have lk: "bt_lookup (changes m) k = Some (t # versions (ls, b) k)"
    by (rule lookup_versions_Cons [OF assms(2,3)])
  have vs: "versions (l(k := None) # ls1, b1) j =
    (if j = k then case versions (ls, b) k of [] \<Rightarrow> [t]
       | p # ps \<Rightarrow> if ?nxt = None then t # p # ps
           else \<lparr>iv_value = iv_value t, iv_extrinsics = iv_extrinsics p @ iv_extrinsics t\<rparr> # ps
     else versions (l # ls, b) j)" for j
    by (rule versions_merge_key) (fact assms(3,5))+
  obtain dks where d: "list_all2 (\<lambda>dk l. distinct dk \<and> set dk = dom l) dks ls1"
      "has_predecessor k (t # versions (ls, b) k) (dirty_keys m) = (?nxt \<noteq> None, dks)"
    by (rule commit_dirty [OF assms(4,5)])
  show thesis
  proof (cases ?nxt)
    case None
    then have "versions (l(k := None) # ls1, b1) j = versions (l # ls, b) j" for j
      using vs [of j] assms(3) by (auto split: list.splits)
    then have "lookup_versions (m\<lparr>dirty_keys := dks\<rparr>) (l(k := None) # ls1, b1)"
      using assms(2) by (simp add: lookup_versions_def del: versions_simps)
    then show thesis
      using that [of "m\<lparr>dirty_keys := dks\<rparr>"] assms(1) lk d None by (simp add: close_key_def)
  next
    case (Some p)
    then obtain ps where ps: "versions (ls, b) k = p # ps" by (cases ls) auto
    let ?iv = "\<lparr>iv_value = iv_value t, iv_extrinsics = iv_extrinsics p @ iv_extrinsics t\<rparr>"
    let ?m = "m\<lparr>changes := bt_insert k (?iv # ps) (changes m), dirty_keys := dks\<rparr>"
    have k: "versions (l(k := None) # ls1, b1) k = ?iv # ps" using vs [of k] ps Some by simp
    have j: "versions (l(k := None) # ls1, b1) j = versions (l # ls, b) j" if "j \<noteq> k" for j
      using vs [of j] that by simp
    have "lookup_versions ?m (l(k := None) # ls1, b1)"
      by (rule lookup_versionsI [OF assms(1,2) _ k _ j]) simp_all
    then show thesis
      using that [of ?m] assms(1) lk d Some ps by (simp add: close_key_def bt_inv_insert)
  qed
qed


lemma merge_update: "l k = Some t \<Longrightarrow> merge (l(k := None)) (merge_key k t n) = merge l n"
  by (auto simp: merge_def merge_key_def fun_eq_iff)

lemma merge_empty [simp]: "merge Map.empty n = n"
  by (simp add: merge_def)

lemma top_update_top_update: "top_update f (top_update g s) = top_update (f \<circ> g) s"
  by (cases "(g, s)" rule: top_update.cases) auto

lemma close_keys_commit:
  assumes "bt_inv (changes m)" "lookup_versions m (l # ls, b)" "distinct keys" "set keys = dom l"
    "list_all2 (\<lambda>dk l. distinct dk \<and> set dk = dom l) (dirty_keys m) ls"
  obtains m' where "close_keys False keys m = (Inr (), m')"
    "stack_rel m' (top_update (merge l) (ls, b))"
    "num_client_transactions m' = num_client_transactions m" "execution_mode m' = execution_mode m"
  using assms
proof (induction keys arbitrary: l m ls b thesis)
  case Nil
  then have l: "l = Map.empty" by (metis dom_eq_empty_conv list.set(1))
  then have "lookup_versions m (ls, b)" using Nil.prems(3) by (simp add: lookup_versions_def)
  moreover have "top_update (merge l) (ls, b) = (ls, b)" by (cases ls) (simp_all add: l)
  ultimately show ?case using Nil.prems by (simp add: stack_rel_def)
next
  case (Cons k keys)
  obtain t where t: "l k = Some t" using Cons.prems(5) by auto
  obtain ls1 b1 where s1: "top_update (merge_key k t) (ls, b) = (ls1, b1)" by fastforce
  obtain m1 where m1: "close_key False k m = (Inr (), m1)" "bt_inv (changes m1)"
    "lookup_versions m1 (l(k := None) # ls1, b1)"
    "list_all2 (\<lambda>dk l. distinct dk \<and> set dk = dom l) (dirty_keys m1) ls1"
    "num_client_transactions m1 = num_client_transactions m" "execution_mode m1 = execution_mode m"
    by (rule close_key_commit [OF Cons.prems(2,3) t Cons.prems(6) s1])
  have keys: "distinct keys" "set keys = dom (l(k := None))" using Cons.prems(4,5) by auto
  obtain m' where m': "close_keys False keys m1 = (Inr (), m')"
    "stack_rel m' (top_update (merge (l(k := None))) (ls1, b1))"
    "num_client_transactions m' = num_client_transactions m1" "execution_mode m' = execution_mode m1"
    by (rule Cons.IH [OF _ m1(2,3) keys m1(4)])
  have "top_update (merge (l(k := None))) (ls1, b1) = top_update (merge l) (ls, b)"
    unfolding s1 [symmetric] top_update_top_update using merge_update [of l k t] t by (simp add: comp_def)
  then show ?case using Cons.prems(1) [of m'] m' m1 by simp
qed

text \<open>Closing the innermost transaction of a represented stack.\<close>

definition may_close :: "('k, 'v) overlayed_map \<Rightarrow> bool" where
  "may_close m \<longleftrightarrow> dirty_keys m \<noteq> [] \<and>
     (execution_mode m = Runtime \<longrightarrow> has_open_runtime_transactions m)"

lemma stack_rel_depth: "stack_rel m (txs, b) \<Longrightarrow> length txs = transaction_depth m"
  by (auto simp: stack_rel_def transaction_depth_def dest: list_all2_lengthD)

lemma close_refused: "\<not> may_close m \<Longrightarrow> close_transaction rb m = (Inl NoOpenTransaction, m)"
  by (auto simp: may_close_def close_transaction_def split: list.splits)

lemma stack_rel_Cons:
  assumes "stack_rel m (l # ls, b)"
  obtains dk dks where "dirty_keys m = dk # dks" "distinct dk" "set dk = dom l"
    "list_all2 (\<lambda>dk l. distinct dk \<and> set dk = dom l) dks ls" "bt_inv (changes m)"
    "lookup_versions m (l # ls, b)"
  using assms by (auto simp: stack_rel_def list_all2_Cons2)

lemma rollback_rel:
  assumes "stack_rel m (l # ls, b)" "may_close m"
  obtains m' where "rollback_transaction m = (Inr (), m')" "stack_rel m' (ls, b)"
    "dirty_keys m' = tl (dirty_keys m)"
    "num_client_transactions m' = num_client_transactions m" "execution_mode m' = execution_mode m"
proof -
  obtain dk dks where d: "dirty_keys m = dk # dks" "distinct dk" "set dk = dom l"
    "list_all2 (\<lambda>dk l. distinct dk \<and> set dk = dom l) dks ls" "bt_inv (changes m)"
    "lookup_versions m (l # ls, b)" by (rule stack_rel_Cons [OF assms(1)])
  let ?m = "m\<lparr>dirty_keys := dks\<rparr>"
  have "bt_inv (changes ?m)" "lookup_versions ?m (l # ls, b)"
    using d(5,6) by (simp_all add: lookup_versions_def)
  then obtain m' where m': "close_keys True dk ?m = (Inr (), m')" "bt_inv (changes m')"
    "lookup_versions m' (ls, b)" "dirty_keys m' = dirty_keys ?m"
    "num_client_transactions m' = num_client_transactions ?m" "execution_mode m' = execution_mode ?m"
    by (rule close_keys_rollback [OF _ _ d(2,3)])
  have "rollback_transaction m = (Inr (), m')"
    using assms(2) m'(1) d(1) by (auto simp: rollback_transaction_def close_transaction_def may_close_def)
  then show thesis using that [of m'] m' d(1,4) by (simp add: stack_rel_def)
qed

lemma commit_rel:
  assumes "stack_rel m (l # ls, b)" "may_close m"
  obtains m' where "commit_transaction m = (Inr (), m')" "stack_rel m' (top_update (merge l) (ls, b))"
    "num_client_transactions m' = num_client_transactions m" "execution_mode m' = execution_mode m"
proof -
  obtain dk dks where d: "dirty_keys m = dk # dks" "distinct dk" "set dk = dom l"
    "list_all2 (\<lambda>dk l. distinct dk \<and> set dk = dom l) dks ls" "bt_inv (changes m)"
    "lookup_versions m (l # ls, b)" by (rule stack_rel_Cons [OF assms(1)])
  let ?m = "m\<lparr>dirty_keys := dks\<rparr>"
  have "bt_inv (changes ?m)" "lookup_versions ?m (l # ls, b)"
    "list_all2 (\<lambda>dk l. distinct dk \<and> set dk = dom l) (dirty_keys ?m) ls"
    using d(4-6) by (simp_all add: lookup_versions_def)
  then obtain m' where m': "close_keys False dk ?m = (Inr (), m')"
    "stack_rel m' (top_update (merge l) (ls, b))"
    "num_client_transactions m' = num_client_transactions ?m" "execution_mode m' = execution_mode ?m"
    by (rule close_keys_commit [OF _ _ d(2,3)])
  have "commit_transaction m = (Inr (), m')"
    using assms(2) m'(1) d(1) by (auto simp: commit_transaction_def close_transaction_def may_close_def)
  then show thesis using that [of m'] m' by simp
qed

section \<open>Sequences of operations\<close>

text \<open>The operations a client or the runtime performs on the storage overlay.\<close>

datatype ('k, 'w) overlay_op =
  Op_Set 'k "'w option" "u32 option"
| Op_Modify 'k 'w "u32 option" "'w option \<Rightarrow> 'w option"
| Op_Clear "'k \<Rightarrow> bool" "u32 option"
| Op_Start
| Op_Commit
| Op_Rollback
| Op_Enter
| Op_Exit

fun run_op ::
  "('k :: linorder, 'w) overlay_op \<Rightarrow> ('k, 'w option) overlayed_map \<Rightarrow>
   (changeset_error + unit) \<times> ('k, 'w option) overlayed_map" where
  "run_op (Op_Set k v at) m = (Inr (), map_set k v at m)"
| "run_op (Op_Modify k init at f) m = (Inr (), map_modify k init at f m)"
| "run_op (Op_Clear p at) m = (Inr (), snd (clear_where (\<lambda>k _. p k) at m))"
| "run_op Op_Start m = (Inr (), start_transaction m)"
| "run_op Op_Commit m = commit_transaction m"
| "run_op Op_Rollback m = rollback_transaction m"
| "run_op Op_Enter m = enter_runtime m"
| "run_op Op_Exit m = exit_runtime m"

fun run_ops ::
  "('k :: linorder, 'w) overlay_op list \<Rightarrow> ('k, 'w option) overlayed_map \<Rightarrow>
   (changeset_error + unit) list \<times> ('k, 'w option) overlayed_map" where
  "run_ops [] m = ([], m)"
| "run_ops (x # xs) m =
     (case run_op x m of (r, m1) \<Rightarrow> (case run_ops xs m1 of (rs, m2) \<Rightarrow> (r # rs, m2)))"

text \<open>The specification of each operation: the stack, and in the runtime the number of
  transactions that belong to the client.\<close>

type_synonym ('k, 'v) spec_state = "('k, 'v) stack \<times> nat option"

definition layer_modify ::
  "'k \<Rightarrow> 'w option \<Rightarrow> u32 option \<Rightarrow> ('w option \<Rightarrow> 'w option) \<Rightarrow>
   ('k, 'w option) layer \<Rightarrow> ('k, 'w option) layer" where
  "layer_modify k cur at f l = l(k \<mapsto>
     (case l k of
        Some iv \<Rightarrow> iv\<lparr>iv_value := f (iv_value iv)\<rparr>
      | None \<Rightarrow> (stamp at \<lparr>iv_value = cur, iv_extrinsics = []\<rparr>)\<lparr>iv_value := f cur\<rparr>))"

definition layer_clear ::
  "('k \<Rightarrow> bool) \<Rightarrow> u32 option \<Rightarrow> ('k, 'w option) layer \<Rightarrow> ('k, 'w option) layer" where
  "layer_clear p at l = (\<lambda>k. if p k then layer_set k None at l k else l k)"

definition spec_may_close :: "('k, 'v) spec_state \<Rightarrow> bool" where
  "spec_may_close s = (case s of ((txs, _), prot) \<Rightarrow>
     (case prot of None \<Rightarrow> 0 | Some n \<Rightarrow> n) < length txs)"

fun spec_op ::
  "('k, 'w) overlay_op \<Rightarrow> ('k, 'w option) spec_state \<Rightarrow>
   (changeset_error + unit) \<times> ('k, 'w option) spec_state" where
  "spec_op (Op_Set k v at) (s, prot) = (Inr (), (top_update (layer_set k v at) s, prot))"
| "spec_op (Op_Modify k init at f) (s, prot) =
     (Inr (), (top_update (layer_modify k (case view s k of None \<Rightarrow> Some init | Some v \<Rightarrow> v) at f) s, prot))"
| "spec_op (Op_Clear p at) (s, prot) =
     (Inr (), (top_update (layer_clear (\<lambda>k. versions s k \<noteq> [] \<and> p k) at) s, prot))"
| "spec_op Op_Start ((txs, b), prot) = (Inr (), ((Map.empty # txs, b), prot))"
| "spec_op Op_Commit ((txs, b), prot) =
     (if spec_may_close ((txs, b), prot)
      then (Inr (), (top_update (merge (hd txs)) (tl txs, b), prot))
      else (Inl NoOpenTransaction, ((txs, b), prot)))"
| "spec_op Op_Rollback ((txs, b), prot) =
     (if spec_may_close ((txs, b), prot) then (Inr (), ((tl txs, b), prot))
      else (Inl NoOpenTransaction, ((txs, b), prot)))"
| "spec_op Op_Enter ((txs, b), prot) =
     (case prot of
        None \<Rightarrow> (Inr (), ((txs, b), Some (length txs)))
      | Some n \<Rightarrow> (Inl AlreadyInRuntime, ((txs, b), Some n)))"
| "spec_op Op_Exit ((txs, b), prot) =
     (case prot of
        None \<Rightarrow> (Inl NotInRuntime, ((txs, b), None))
      | Some n \<Rightarrow> (Inr (), ((drop (length txs - n) txs, b), None)))"

fun spec_ops ::
  "('k, 'w) overlay_op list \<Rightarrow> ('k, 'w option) spec_state \<Rightarrow>
   (changeset_error + unit) list \<times> ('k, 'w option) spec_state" where
  "spec_ops [] s = ([], s)"
| "spec_ops (x # xs) s =
     (case spec_op x s of (r, s1) \<Rightarrow> (case spec_ops xs s1 of (rs, s2) \<Rightarrow> (r # rs, s2)))"

text \<open>The refinement relation with the execution mode.\<close>

definition overlay_rel ::
  "('k :: linorder, 'v) overlayed_map \<Rightarrow> ('k, 'v) spec_state \<Rightarrow> bool" where
  "overlay_rel m s \<longleftrightarrow> stack_rel m (fst s) \<and>
     (case snd s of
        None \<Rightarrow> execution_mode m = Client
      | Some n \<Rightarrow> execution_mode m = Runtime \<and> num_client_transactions m = n \<and>
          n \<le> length (fst (fst s)))"

lemma overlay_rel_may_close:
  "overlay_rel m s \<Longrightarrow> may_close m = spec_may_close s"
  by (cases s; cases "fst s")
    (auto simp: overlay_rel_def may_close_def spec_may_close_def has_open_runtime_transactions_def
      dest!: stack_rel_depth simp flip: length_greater_0_conv simp add: transaction_depth_def
      split: option.splits)

lemma stack_rel_keep:
  "stack_rel m s \<Longrightarrow> changes m' = changes m \<Longrightarrow> dirty_keys m' = dirty_keys m \<Longrightarrow> stack_rel m' s"
  by (simp add: stack_rel_def lookup_versions_def)

lemma top_update_length [simp]: "length (fst (top_update f s)) = length (fst s)"
  by (cases "(f, s)" rule: top_update.cases) auto

subsection \<open>Modification\<close>

lemma stack_rel_insert_dirty:
  assumes "stack_rel m (txs, b)" "insert_dirty (dirty_keys m) k = (first, dks)"
  shows "first \<longleftrightarrow> (\<exists>l ls. txs = l # ls \<and> l k = None)"
    "\<And>f. (\<And>l. dom (f l) = insert k (dom l)) \<Longrightarrow>
       list_all2 (\<lambda>dk l. distinct dk \<and> set dk = dom l) dks (fst (top_update f (txs, b)))"
proof -
  have dk: "list_all2 (\<lambda>dk l. distinct dk \<and> set dk = dom l) (dirty_keys m) txs"
    using assms(1) by (simp add: stack_rel_def)
  then show "first \<longleftrightarrow> (\<exists>l ls. txs = l # ls \<and> l k = None)"
    using assms(2) by (cases txs) (auto simp: list_all2_Cons2 split: if_splits)
  show "list_all2 (\<lambda>dk l. distinct dk \<and> set dk = dom l) dks (fst (top_update f (txs, b)))"
    if f: "\<And>l. dom (f l) = insert k (dom l)" for f
  proof (cases txs)
    case (Cons l ls)
    then obtain z zs where z: "dirty_keys m = z # zs" "distinct z" "set z = dom l"
        "list_all2 (\<lambda>dk l. distinct dk \<and> set dk = dom l) zs ls"
      using dk by (auto simp: list_all2_Cons2)
    have "(first, dks) = (if k \<in> set z then (False, z # zs) else (True, (z @ [k]) # zs))"
      using assms(2) z(1) by (auto split: if_splits)
    then show ?thesis
      using z(2-) f [of l] by (auto simp: Cons split: if_splits)
  qed (use dk assms(2) in auto)
qed

lemma stack_rel_modify:
  assumes "stack_rel m s"
  shows "stack_rel (map_modify k init at f m)
    (top_update (layer_modify k (case view s k of None \<Rightarrow> Some init | Some v \<Rightarrow> v) at f) s)"
proof -
  obtain txs b where s: "s = (txs, b)" by fastforce
  let ?cur = "case view s k of None \<Rightarrow> Some init | Some v \<Rightarrow> v"
  let ?s = "top_update (layer_modify k ?cur at f) s"
  have inv: "bt_inv (changes m)" and lk: "lookup_versions m s" using assms by (auto simp: stack_rel_def)
  obtain first dks where d: "insert_dirty (dirty_keys m) k = (first, dks)" by fastforce
  have first: "first \<longleftrightarrow> (\<exists>l ls. txs = l # ls \<and> l k = None)"
    using stack_rel_insert_dirty(1) [OF assms [unfolded s] d] .
  define ts where "ts = versions s k"
  define ts' where "ts' = (case (case ts of [] \<Rightarrow> Some (Some init)
       | t # _ \<Rightarrow> if first then Some (iv_value t) else None) of
       None \<Rightarrow> ts | Some cloned \<Rightarrow> entry_set cloned first at ts)"
  let ?new = "(hd ts')\<lparr>iv_value := f (iv_value (hd ts'))\<rparr> # tl ts'"
  have m': "map_modify k init at f m = m\<lparr>changes := bt_insert k ?new (changes m), dirty_keys := dks\<rparr>"
    unfolding map_modify_def entry_or_default_versions [OF lk] d Let_def ts'_def ts_def by simp
  have k: "versions ?s k = ?new"
    using first unfolding ts'_def ts_def s
    by (cases txs) (auto simp: layer_modify_def entry_set_def view_def stamp_def split: option.splits list.splits)
  have j: "versions ?s j = versions s j" if "j \<noteq> k" for j
    by (rule top_update_other) (simp add: layer_modify_def that)
  have "lookup_versions (map_modify k init at f m) ?s"
    by (rule lookup_versionsI [OF inv lk _ k _ j]) (simp_all add: m')
  moreover have "list_all2 (\<lambda>dk l. distinct dk \<and> set dk = dom l) dks (fst ?s)"
    using stack_rel_insert_dirty(2) [OF assms [unfolded s] d, of "layer_modify k ?cur at f"] s
    by (simp add: layer_modify_def)
  ultimately show ?thesis using inv by (simp add: stack_rel_def m' bt_inv_insert)
qed

subsection \<open>Clearing\<close>

lemma layer_clear_step:
  "\<not> p k \<Longrightarrow> layer_clear p at (layer_set k None at l) = layer_clear (\<lambda>j. j = k \<or> p j) at l"
  by (auto simp: layer_clear_def layer_set_def fun_eq_iff split: option.splits)

lemma layer_clear_False [simp]: "layer_clear (\<lambda>_. False) at l = l"
  by (simp add: layer_clear_def)

lemma top_update_id [simp]: "top_update (\<lambda>l. l) s = s"
  by (cases s; cases "fst s") auto

lemma clear_entries_rel:
  assumes "stack_rel m s" "distinct (map fst es)"
  shows "stack_rel (snd (clear_entries es p at m))
    (top_update (layer_clear (\<lambda>k. \<exists>ts. (k, ts) \<in> set es \<and> p k ts) at) s)"
  using assms
proof (induction es arbitrary: m s)
  case Nil
  then show ?case by simp
next
  case (Cons e es)
  obtain k ts where e: "e = (k, ts)" by fastforce
  let ?q = "\<lambda>j. \<exists>ts. (j, ts) \<in> set es \<and> p j ts"
  have k: "\<not> ?q k" using Cons.prems(2) by (force simp: e)
  show ?case
  proof (cases "p k ts")
    case True
    have "stack_rel (snd (clear_entries es p at (map_set k None at m)))
        (top_update (layer_clear ?q at) (top_update (layer_set k None at) s))"
      by (rule Cons.IH [OF stack_rel_set [OF Cons.prems(1)]]) (use Cons.prems(2) in simp)
    moreover have "(\<lambda>j. j = k \<or> ?q j) = (\<lambda>j. \<exists>ts. (j, ts) \<in> set (e # es) \<and> p j ts)"
      using True by (auto simp: e)
    ultimately show ?thesis
      using True k by (simp add: e top_update_top_update comp_def layer_clear_step case_prod_beta)
  next
    case False
    then have "?q = (\<lambda>j. \<exists>ts. (j, ts) \<in> set (e # es) \<and> p j ts)" by (auto simp: e)
    then show ?thesis using Cons False by (simp add: e)
  qed
qed

lemma stack_rel_clear:
  assumes "stack_rel m s"
  shows "stack_rel (snd (clear_where p at m))
    (top_update (layer_clear (\<lambda>k. versions s k \<noteq> [] \<and> p k (versions s k)) at) s)"
proof -
  have inv: "bt_inv (changes m)" and lk: "lookup_versions m s" using assms by (auto simp: stack_rel_def)
  have eq: "(\<lambda>k. \<exists>ts. (k, ts) \<in> set (changes m) \<and> p k ts) =
    (\<lambda>k. versions s k \<noteq> [] \<and> p k (versions s k))"
  proof
    fix k
    have l: "map_of (changes m) k = (if versions s k = [] then None else Some (versions s k))"
      using lk unfolding lookup_versions_def bt_lookup_def by (rule spec)
    have "(k, ts) \<in> set (changes m) \<longleftrightarrow> versions s k \<noteq> [] \<and> ts = versions s k" for ts
      unfolding map_of_eq_Some_iff [OF bt_inv_distinct [OF inv], symmetric] l by auto
    then show "(\<exists>ts. (k, ts) \<in> set (changes m) \<and> p k ts) = (versions s k \<noteq> [] \<and> p k (versions s k))"
      by simp
  qed
  show ?thesis
    unfolding clear_where_def
    by (rule subst [OF eq, where P = "\<lambda>q. stack_rel _ (top_update (layer_clear q at) s)"],
        rule clear_entries_rel [OF assms bt_inv_distinct [OF inv]])
qed

subsection \<open>Leaving the runtime\<close>

lemma rollback_dangling_rel:
  assumes "stack_rel m (txs, b)" "execution_mode m = Client" "n = length txs"
    "num_client_transactions m \<le> length txs"
  obtains m' where "rollback_dangling n m = (Inr (), m')"
    "stack_rel m' (drop (length txs - num_client_transactions m) txs, b)" "execution_mode m' = Client"
    "num_client_transactions m' = num_client_transactions m"
    "dirty_keys m' = drop (length txs - num_client_transactions m) (dirty_keys m)"
  using assms
proof (induction n arbitrary: m txs thesis)
  case 0
  show ?case by (rule 0(1) [of m]) (use 0(2-) in simp_all)
next
  case (Suc n)
  obtain l ls where txs: "txs = l # ls" "length ls = n" using Suc.prems(4) by (cases txs) auto
  have depth: "transaction_depth m = Suc n" using stack_rel_depth [OF Suc.prems(2)] txs by simp
  show ?case
  proof (cases "has_open_runtime_transactions m")
    case True
    have mc: "may_close m" using depth Suc.prems(3) by (auto simp: may_close_def transaction_depth_def)
    obtain m1 where m1: "rollback_transaction m = (Inr (), m1)" "stack_rel m1 (ls, b)"
      "dirty_keys m1 = tl (dirty_keys m)"
      "num_client_transactions m1 = num_client_transactions m" "execution_mode m1 = execution_mode m"
      by (rule rollback_rel [OF Suc.prems(2) [unfolded txs(1)] mc])
    have le: "num_client_transactions m \<le> n"
      using True depth by (simp add: has_open_runtime_transactions_def)
    obtain m' where m': "rollback_dangling n m1 = (Inr (), m')"
      "stack_rel m' (drop (length ls - num_client_transactions m1) ls, b)" "execution_mode m' = Client"
      "num_client_transactions m' = num_client_transactions m1"
      "dirty_keys m' = drop (length ls - num_client_transactions m1) (dirty_keys m1)"
      by (rule Suc.IH [OF _ m1(2)]) (use m1 Suc.prems(3) txs le in simp_all)
    show ?thesis
      by (rule Suc.prems(1) [of m'])
        (use m' m1 True txs le in \<open>simp_all add: Suc_diff_le drop_Suc tl_drop\<close>)
  next
    case False
    then have "num_client_transactions m = length txs"
      using depth Suc.prems(5) txs by (simp add: has_open_runtime_transactions_def)
    then show ?thesis by (intro Suc.prems(1) [of m]) (use Suc.prems(2,3) False in simp_all)
  qed
qed

subsection \<open>The refinement\<close>

lemma overlay_rel_simps:
  "overlay_rel m (s, prot) \<longleftrightarrow> stack_rel m s \<and>
     (case prot of None \<Rightarrow> execution_mode m = Client
      | Some n \<Rightarrow> execution_mode m = Runtime \<and> num_client_transactions m = n \<and> n \<le> length (fst s))"
  by (simp add: overlay_rel_def split: option.split)

lemma overlay_rel_update:
  assumes "overlay_rel m (s, prot)" "stack_rel m' s'" "length (fst s) \<le> length (fst s')"
    "execution_mode m' = execution_mode m" "num_client_transactions m' = num_client_transactions m"
  shows "overlay_rel m' (s', prot)"
  using assms by (auto simp: overlay_rel_simps split: option.splits)

lemma mode_simps [simp]:
  "execution_mode (map_set k v at m) = execution_mode m"
  "num_client_transactions (map_set k v at m) = num_client_transactions m"
  "execution_mode (map_modify k init at f m') = execution_mode m'"
  "num_client_transactions (map_modify k init at f m') = num_client_transactions m'"
  by (simp_all add: map_set_def map_modify_def case_prod_beta Let_def)

lemma clear_entries_mode:
  "execution_mode (snd (clear_entries es p at m)) = execution_mode m \<and>
   num_client_transactions (snd (clear_entries es p at m)) = num_client_transactions m"
  by (induction es p at m rule: clear_entries.induct) (auto simp: case_prod_beta)

text \<open>Closing a transaction, in either way.\<close>

lemma close_refines:
  assumes rel: "overlay_rel m ((txs, b), prot)" and may: "spec_may_close ((txs, b), prot)"
  obtains m1 m2 where "rollback_transaction m = (Inr (), m1)" "overlay_rel m1 ((tl txs, b), prot)"
    "commit_transaction m = (Inr (), m2)" "overlay_rel m2 (top_update (merge (hd txs)) (tl txs, b), prot)"
proof -
  obtain l ls where txs: "txs = l # ls" using may by (cases txs) (auto simp: spec_may_close_def)
  have st: "stack_rel m (l # ls, b)" and mc: "may_close m"
    using rel may overlay_rel_may_close [OF rel] by (simp_all add: overlay_rel_simps txs)
  obtain m1 where m1: "rollback_transaction m = (Inr (), m1)" "stack_rel m1 (ls, b)"
    "num_client_transactions m1 = num_client_transactions m" "execution_mode m1 = execution_mode m"
    using rollback_rel [OF st mc] by metis
  obtain m2 where m2: "commit_transaction m = (Inr (), m2)" "stack_rel m2 (top_update (merge l) (ls, b))"
    "num_client_transactions m2 = num_client_transactions m" "execution_mode m2 = execution_mode m"
    by (rule commit_rel [OF st mc])
  have "(case prot of None \<Rightarrow> True | Some n \<Rightarrow> n \<le> length ls)"
    using may by (auto simp: spec_may_close_def txs split: option.splits)
  then show thesis
    using that [OF m1(1) _ m2(1)] m1 m2 rel by (auto simp: overlay_rel_simps txs split: option.splits)
qed

lemma close_refused_refines:
  "overlay_rel m s \<Longrightarrow> \<not> spec_may_close s \<Longrightarrow>
     rollback_transaction m = (Inl NoOpenTransaction, m) \<and>
     commit_transaction m = (Inl NoOpenTransaction, m)"
  using overlay_rel_may_close [of m s] close_refused [of m]
  by (simp add: rollback_transaction_def commit_transaction_def)

lemma enter_rel:
  assumes "overlay_rel m ((txs, b), None)"
  shows "\<exists>m'. enter_runtime m = (Inr (), m') \<and> overlay_rel m' ((txs, b), Some (length txs))"
proof -
  let ?m = "m\<lparr>execution_mode := Runtime, num_client_transactions := transaction_depth m\<rparr>"
  have "stack_rel ?m (txs, b)" using assms by (auto simp: overlay_rel_simps intro: stack_rel_keep)
  moreover have "transaction_depth m = length txs"
    using assms stack_rel_depth by (fastforce simp: overlay_rel_simps)
  ultimately show ?thesis using assms by (auto simp: enter_runtime_def overlay_rel_simps)
qed

lemma enter_refused: "overlay_rel m (s, Some n) \<Longrightarrow> enter_runtime m = (Inl AlreadyInRuntime, m)"
  by (auto simp: enter_runtime_def overlay_rel_simps)

lemma exit_refused: "overlay_rel m (s, None) \<Longrightarrow> exit_runtime m = (Inl NotInRuntime, m)"
  by (auto simp: exit_runtime_def overlay_rel_simps)

lemma exit_rel:
  assumes "overlay_rel m ((txs, b), Some n)"
  shows "\<exists>m'. exit_runtime m = (Inr (), m') \<and> overlay_rel m' ((drop (length txs - n) txs, b), None)"
proof -
  let ?m = "m\<lparr>execution_mode := Client\<rparr>"
  have n: "num_client_transactions m = n" "n \<le> length txs" "execution_mode m = Runtime"
    and st: "stack_rel ?m (txs, b)"
    using assms by (auto simp: overlay_rel_simps intro: stack_rel_keep)
  have "transaction_depth m = length txs" using stack_rel_depth [OF st] by (simp add: transaction_depth_def)
  then obtain m' where m': "rollback_dangling (transaction_depth m) ?m = (Inr (), m')"
    "stack_rel m' (drop (length txs - n) txs, b)" "execution_mode m' = Client"
    using rollback_dangling_rel [OF st, of "transaction_depth m"] n by auto
  then show ?thesis using n by (auto simp: exit_runtime_def overlay_rel_simps)
qed

lemma enter_refines:
  assumes "overlay_rel m ((txs, b), prot)" "spec_op Op_Enter ((txs, b), prot) = (r, s')"
  obtains m' where "enter_runtime m = (r, m')" "overlay_rel m' s'"
  using assms that enter_rel [of m txs b] enter_refused [of m "(txs, b)"] by (cases prot) auto

lemma exit_refines:
  assumes "overlay_rel m ((txs, b), prot)" "spec_op Op_Exit ((txs, b), prot) = (r, s')"
  obtains m' where "exit_runtime m = (r, m')" "overlay_rel m' s'"
  using assms that exit_rel [of m txs b] exit_refused [of m "(txs, b)"] by (cases prot) auto

lemma run_op_refines:
  assumes rel: "overlay_rel m s" and sp: "spec_op x s = (r, s')"
  obtains m' where "run_op x m = (r, m')" "overlay_rel m' s'"
proof -
  obtain txs b prot where s: "s = ((txs, b), prot)" by (metis prod.collapse)
  have st: "stack_rel m (txs, b)" using rel by (simp add: s overlay_rel_simps)
  show thesis
  proof (cases x)
    case (Op_Set k v at)
    have "overlay_rel (map_set k v at m) (top_update (layer_set k v at) (txs, b), prot)"
      by (rule overlay_rel_update [OF rel [unfolded s] stack_rel_set [OF st]]) simp_all
    then show thesis using that sp Op_Set by (auto simp: s)
  next
    case (Op_Modify k init at f)
    let ?f = "layer_modify k (case view (txs, b) k of None \<Rightarrow> Some init | Some v \<Rightarrow> v) at f"
    have "overlay_rel (map_modify k init at f m) (top_update ?f (txs, b), prot)"
      by (rule overlay_rel_update [OF rel [unfolded s] stack_rel_modify [OF st]]) simp_all
    then show thesis using that sp Op_Modify by (auto simp: s)
  next
    case (Op_Clear p at)
    let ?f = "layer_clear (\<lambda>k. versions (txs, b) k \<noteq> [] \<and> p k) at"
    have "overlay_rel (snd (clear_where (\<lambda>k _. p k) at m)) (top_update ?f (txs, b), prot)"
      by (rule overlay_rel_update [OF rel [unfolded s] stack_rel_clear [OF st]])
        (simp_all add: clear_where_def clear_entries_mode)
    then show thesis using that sp Op_Clear by (auto simp: s)
  next
    case Op_Start
    have "overlay_rel (start_transaction m) ((Map.empty # txs, b), prot)"
      by (rule overlay_rel_update [OF rel [unfolded s] stack_rel_start [OF st]])
        (simp_all add: start_transaction_def)
    then show thesis using that sp Op_Start by (auto simp: s)
  next
    case Op_Commit
    show thesis
    proof (cases "spec_may_close s")
      case True
      show thesis
        by (rule close_refines [OF rel [unfolded s] True [unfolded s]])
          (use that sp Op_Commit True in \<open>auto simp: s\<close>)
    next
      case False
      then show thesis
        using that [of m] sp Op_Commit close_refused_refines [OF rel False] rel by (auto simp: s)
    qed
  next
    case Op_Rollback
    show thesis
    proof (cases "spec_may_close s")
      case True
      show thesis
        by (rule close_refines [OF rel [unfolded s] True [unfolded s]])
          (use that sp Op_Rollback True in \<open>auto simp: s\<close>)
    next
      case False
      then show thesis
        using that [of m] sp Op_Rollback close_refused_refines [OF rel False] rel by (auto simp: s)
    qed
  next
    case Op_Enter
    show thesis
      by (rule enter_refines [OF rel [unfolded s]]) (use that sp Op_Enter in \<open>auto simp: s\<close>)
  next
    case Op_Exit
    show thesis
      by (rule exit_refines [OF rel [unfolded s]]) (use that sp Op_Exit in \<open>auto simp: s\<close>)
  qed
qed

lemma run_ops_refines:
  assumes "overlay_rel m s" "spec_ops xs s = (rs, s')"
  obtains m' where "run_ops xs m = (rs, m')" "overlay_rel m' s'"
  using assms
proof (induction xs arbitrary: m s rs thesis)
  case (Cons x xs)
  obtain r s1 where s1: "spec_op x s = (r, s1)" by (metis prod.collapse)
  obtain rs2 where rs2: "spec_ops xs s1 = (rs2, s')" "rs = r # rs2"
    using Cons.prems(3) s1 by (auto split: prod.splits)
  obtain m1 where m1: "run_op x m = (r, m1)" "overlay_rel m1 s1" by (rule run_op_refines [OF Cons.prems(2) s1])
  obtain m2 where "run_ops xs m1 = (rs2, m2)" "overlay_rel m2 s'" by (rule Cons.IH [OF _ m1(2) rs2(1)])
  then show ?case using Cons.prems(1) m1 rs2(2) by simp
qed auto

section \<open>Properties of the overlay\<close>

lemma overlay_rel_default: "overlay_rel overlayed_map_default (([], Map.empty), None)"
  by (simp add: overlay_rel_simps stack_rel_def lookup_versions_def overlayed_map_default_def bt_lookup_def)

lemma overlay_rel_get:
  "overlay_rel m (s, prot) \<Longrightarrow> Option.bind (map_get m k) value_ref = view s k"
  by (auto simp: overlay_rel_simps stack_rel_def lookup_versions_def map_get_def view_def split: list.splits)

lemma overlay_rel_depth: "overlay_rel m (s, prot) \<Longrightarrow> transaction_depth m = length (fst s)"
  by (cases s) (auto simp: overlay_rel_simps stack_rel_depth)

lemma run_ops_append:
  "run_ops (xs @ ys) m =
     (case run_ops xs m of (rs, m1) \<Rightarrow> (case run_ops ys m1 of (rs', m2) \<Rightarrow> (rs @ rs', m2)))"
  by (induction xs arbitrary: m) (auto split: prod.splits)

lemma spec_ops_append:
  "spec_ops (xs @ ys) s =
     (case spec_ops xs s of (rs, s1) \<Rightarrow> (case spec_ops ys s1 of (rs', s2) \<Rightarrow> (rs @ rs', s2)))"
  by (induction xs arbitrary: s) (auto split: prod.splits)

lemma reachable_rel:
  obtains s where "overlay_rel (snd (run_ops ops overlayed_map_default)) s"
proof -
  obtain rs s where "spec_ops ops (([], Map.empty), None) = (rs, s)" by (metis prod.collapse)
  then show thesis using run_ops_refines [OF overlay_rel_default] that by (metis snd_conv)
qed

text \<open>C11: The overlay implements a stack of maps: for every sequence of operations by
  client and runtime, the results (errors included, and never a panic) and the
  transaction depth are those of the specification, and every key has the value of the
  innermost map that holds it.\<close>

theorem overlay_refines_stack:
  "case spec_ops ops (([], Map.empty), None) of (rs, s, prot) \<Rightarrow>
     (case run_ops ops overlayed_map_default of (rs', m) \<Rightarrow>
        rs' = rs \<and> transaction_depth m = length (fst s) \<and>
        (\<forall>k. Option.bind (map_get m k) value_ref = view s k))"
proof -
  obtain rs s prot where sp: "spec_ops ops (([], Map.empty), None) = (rs, s, prot)"
    by (metis prod.collapse)
  obtain m where m: "run_ops ops overlayed_map_default = (rs, m)" "overlay_rel m (s, prot)"
    by (rule run_ops_refines [OF overlay_rel_default sp])
  then show ?thesis by (simp add: sp overlay_rel_get overlay_rel_depth)
qed

text \<open>Operations that close only the transactions they open.\<close>

fun balanced :: "nat \<Rightarrow> ('k, 'w) overlay_op list \<Rightarrow> bool" where
  "balanced d [] \<longleftrightarrow> d = 0"
| "balanced d (Op_Start # xs) \<longleftrightarrow> balanced (Suc d) xs"
| "balanced d (Op_Commit # xs) \<longleftrightarrow> d > 0 \<and> balanced (d - 1) xs"
| "balanced d (Op_Rollback # xs) \<longleftrightarrow> d > 0 \<and> balanced (d - 1) xs"
| "balanced d (Op_Enter # xs) \<longleftrightarrow> False"
| "balanced d (Op_Exit # xs) \<longleftrightarrow> False"
| "balanced d (_ # xs) \<longleftrightarrow> balanced d xs"

lemma top_update_above:
  obtains us' l' where "top_update f (us @ l # ls, b) = (us' @ l' # ls, b)" "length us' = length us"
proof (cases us)
  case Nil
  then show thesis using that [of "[]" "f l"] by simp
next
  case (Cons u vs)
  then show thesis using that [of "f u # vs" l] by simp
qed

text \<open>How an operation moves the depth above a layer; closing that layer is refused.\<close>

fun depth_after :: "('k, 'w) overlay_op \<Rightarrow> nat \<Rightarrow> nat" where
  "depth_after Op_Start d = Suc d"
| "depth_after Op_Commit d = d - 1"
| "depth_after Op_Rollback d = d - 1"
| "depth_after _ d = d"

definition layer_protected :: "nat option \<Rightarrow> nat \<Rightarrow> ('k, 'w) overlay_op \<Rightarrow> nat \<Rightarrow> bool" where
  "layer_protected prot n x d \<longleftrightarrow> x \<noteq> Op_Exit \<and>
     (case prot of
        None \<Rightarrow> x \<noteq> Op_Enter \<and> (x \<in> {Op_Commit, Op_Rollback} \<longrightarrow> d > 0)
      | Some p \<Rightarrow> p \<le> n \<and> (x \<in> {Op_Commit, Op_Rollback} \<longrightarrow> d > 0) \<or> p = n)"

lemma spec_op_above:
  assumes "layer_protected prot (Suc (length ls)) x (length us)"
  obtains r us' l' where "spec_op x ((us @ l # ls, b), prot) = (r, ((us' @ l' # ls, b), prot))"
    "length us' = depth_after x (length us)"
proof -
  let ?s = "((us @ l # ls, b), prot)"
  note result = that
  have close: "spec_may_close ?s = (us \<noteq> [])" if "x \<in> {Op_Commit, Op_Rollback}"
    using assms that by (cases us) (auto simp: layer_protected_def spec_may_close_def split: option.splits)
  have wr: thesis if x: "spec_op x ?s = (Inr (), (top_update f (us @ l # ls, b), prot))"
      "depth_after x (length us) = length us" for f
    by (rule top_update_above [of f us l ls b]) (use result [of "Inr ()"] x in simp)
  show thesis
  proof (cases x)
    case Op_Start
    then show thesis using that [of "Inr ()" "Map.empty # us" l] by simp
  next
    case Op_Commit
    show thesis
    proof (cases us)
      case Nil
      then show thesis using that [of "Inl NoOpenTransaction" "[]" l] Op_Commit close by simp
    next
      case (Cons u vs)
      show thesis
        by (rule top_update_above [of "merge u" vs l ls b])
          (use that [of "Inr ()"] Op_Commit close Cons in simp)
    qed
  next
    case Op_Rollback
    then show thesis
      using that [of "Inl NoOpenTransaction" us l] that [of "Inr ()" "tl us" l] close
      by (cases us) simp_all
  next
    case Op_Enter
    then show thesis
      using that [of "Inl AlreadyInRuntime" us l] assms by (auto simp: layer_protected_def split: option.splits)
  next
    case Op_Exit
    then show thesis using assms by (simp add: layer_protected_def)
  qed (use wr in auto)
qed

text \<open>The layers below the one a balanced sequence starts in are not touched.\<close>

lemma balanced_step:
  "balanced d (x # xs) \<Longrightarrow> (case prot of None \<Rightarrow> True | Some p \<Rightarrow> p \<le> n) \<Longrightarrow>
     layer_protected prot (Suc n) x d \<and> balanced (depth_after x d) xs"
  by (cases x) (auto simp: layer_protected_def split: option.splits)

lemma balanced_spec:
  assumes "balanced (length us) xs" "case prot of None \<Rightarrow> True | Some p \<Rightarrow> p \<le> length ls"
  obtains rs l' where "spec_ops xs ((us @ l # ls, b), prot) = (rs, ((l' # ls, b), prot))"
  using assms
proof (induction xs arbitrary: us l thesis)
  case (Cons x xs)
  note step = balanced_step [OF Cons.prems(2,3)]
  obtain r us' l' where x: "spec_op x ((us @ l # ls, b), prot) = (r, ((us' @ l' # ls, b), prot))"
    "length us' = depth_after x (length us)"
    by (rule spec_op_above) (use step in blast)
  obtain rs l'' where "spec_ops xs ((us' @ l' # ls, b), prot) = (rs, ((l'' # ls, b), prot))"
    by (rule Cons.IH [of us' l']) (use step x(2) Cons.prems(3) in auto)
  then show ?case using Cons.prems(1) x by simp
qed simp

text \<open>In the runtime, all layers below the innermost one of the client are not touched.\<close>

lemma runtime_spec:
  assumes "Op_Exit \<notin> set xs"
  shows "\<exists>rs us' l'. spec_ops xs ((us @ l # ls, b), Some (Suc (length ls))) =
    (rs, ((us' @ l' # ls, b), Some (Suc (length ls))))"
  using assms
proof (induction xs arbitrary: us l)
  case (Cons x xs)
  obtain r us' l' where x: "spec_op x ((us @ l # ls, b), Some (Suc (length ls))) =
      (r, ((us' @ l' # ls, b), Some (Suc (length ls))))"
    by (rule spec_op_above [of "Some (Suc (length ls))" ls x us l b])
      (use Cons.prems in \<open>auto simp: layer_protected_def\<close>)
  obtain rs us2 l2 where xs: "spec_ops xs ((us' @ l' # ls, b), Some (Suc (length ls))) =
      (rs, ((us2 @ l2 # ls, b), Some (Suc (length ls))))"
    using Cons.IH [of us' l'] Cons.prems by auto
  show ?case by (simp add: x xs)
qed simp

lemma num_client_close_keys:
  "num_client_transactions (snd (close_keys rb ks m)) = num_client_transactions m \<and>
   execution_mode (snd (close_keys rb ks m)) = execution_mode m"
proof (induction ks arbitrary: m)
  case (Cons k ks)
  have "num_client_transactions (snd (close_key rb k m)) = num_client_transactions m \<and>
      execution_mode (snd (close_key rb k m)) = execution_mode m"
    by (auto simp: close_key_def Let_def split: option.splits list.splits prod.splits)
  then show ?case using Cons.IH by (auto split: prod.splits sum.splits)
qed simp

lemma num_client_run_op:
  "x \<notin> {Op_Enter, Op_Exit} \<Longrightarrow>
     num_client_transactions (snd (run_op x m)) = num_client_transactions m"
  by (cases x) (auto simp: num_client_close_keys clear_entries_mode clear_where_def start_transaction_def commit_transaction_def
      rollback_transaction_def close_transaction_def split: list.splits)

lemma num_client_run_ops:
  "Op_Enter \<notin> set xs \<Longrightarrow> Op_Exit \<notin> set xs \<Longrightarrow>
     num_client_transactions (snd (run_ops xs m)) = num_client_transactions m"
proof (induction xs arbitrary: m)
  case (Cons x xs)
  have "run_ops (x # xs) m = (fst (run_op x m) # fst (run_ops xs (snd (run_op x m))),
      snd (run_ops xs (snd (run_op x m))))" by (simp add: case_prod_beta)
  then show ?case using Cons num_client_run_op [of x m] by auto
qed simp

lemma balanced_no_mode: "balanced d xs \<Longrightarrow> Op_Enter \<notin> set xs \<and> Op_Exit \<notin> set xs"
  by (induction d xs rule: balanced.induct) auto

text \<open>Two overlays that represent the same stack are the same, up to the order in which
  the hash sets of dirty keys list their elements.\<close>

definition same_overlay :: "('k, 'v) overlayed_map \<Rightarrow> ('k, 'v) overlayed_map \<Rightarrow> bool" where
  "same_overlay m m' \<longleftrightarrow> changes m = changes m' \<and>
     map set (dirty_keys m) = map set (dirty_keys m') \<and>
     num_client_transactions m = num_client_transactions m' \<and> execution_mode m = execution_mode m'"

lemma stack_rel_unique:
  assumes "stack_rel m s" "stack_rel m' s"
  shows "changes m = changes m'" "map set (dirty_keys m) = map set (dirty_keys m')"
proof -
  show "changes m = changes m'"
    using assms by (intro bt_extensional) (auto simp: stack_rel_def lookup_versions_def)
  have "map set (dirty_keys n) = map dom (fst s)" if "stack_rel n s" for n :: "('a, 'b) overlayed_map"
    using that by (auto simp: stack_rel_def list_all2_conv_all_nth intro: nth_equalityI)
  then show "map set (dirty_keys m) = map set (dirty_keys m')" using assms by simp
qed

lemma overlay_rel_unique:
  "overlay_rel m (s, prot) \<Longrightarrow> overlay_rel m' (s, prot) \<Longrightarrow>
     num_client_transactions m = num_client_transactions m' \<Longrightarrow> same_overlay m m'"
  using stack_rel_unique [of m s m']
  by (auto simp: overlay_rel_simps same_overlay_def split: option.splits)

text \<open>C13: Rolling back undoes exactly what the transaction did: from every reachable
  overlay, starting a transaction, running any operations that close only what they
  opened, and rolling back gives back the overlay.\<close>

theorem rollback_restores:
  assumes "balanced 0 ops" "m = snd (run_ops before overlayed_map_default)"
  shows "same_overlay (snd (run_ops (Op_Start # ops @ [Op_Rollback]) m)) m"
proof -
  obtain s where "overlay_rel m s" using reachable_rel [of before] assms(2) by metis
  then obtain txs b prot where rel: "overlay_rel m ((txs, b), prot)" by (metis prod.collapse)
  then have p: "case prot of None \<Rightarrow> True | Some n \<Rightarrow> n \<le> length txs"
    by (auto simp: overlay_rel_simps split: option.splits)
  obtain rs l' where ops: "spec_ops ops (([] @ Map.empty # txs, b), prot) = (rs, ((l' # txs, b), prot))"
    by (rule balanced_spec [of "[]" ops]) (use assms(1) p in simp_all)
  have "spec_may_close ((l' # txs, b), prot)"
    using p by (auto simp: spec_may_close_def split: option.splits)
  then have "spec_ops [Op_Rollback] ((l' # txs, b), prot) = ([Inr ()], ((txs, b), prot))" by simp
  then have "spec_ops (Op_Start # ops @ [Op_Rollback]) ((txs, b), prot) =
      (Inr () # rs @ [Inr ()], ((txs, b), prot))" using ops by (simp add: spec_ops_append)
  then obtain m' where "run_ops (Op_Start # ops @ [Op_Rollback]) m = (Inr () # rs @ [Inr ()], m')"
      "overlay_rel m' ((txs, b), prot)"
    using run_ops_refines [OF rel] by metis
  moreover have "num_client_transactions (snd (run_ops (Op_Start # ops @ [Op_Rollback]) m)) =
      num_client_transactions m"
    by (rule num_client_run_ops) (use balanced_no_mode [OF assms(1)] in auto)
  ultimately show ?thesis using overlay_rel_unique rel by (metis snd_conv)
qed

theorem rollback_restores_witness:
  "let m = snd (run_ops [Op_Set (1 :: nat) (Some (5 :: nat)) None, Op_Start, Op_Set 2 (Some 6) (Some 0)]
       overlayed_map_default)
   in same_overlay (snd (run_ops (Op_Start # [Op_Set 2 None None, Op_Start, Op_Clear (\<lambda>_. True) None,
         Op_Commit] @ [Op_Rollback]) m)) m"
  unfolding Let_def by (rule rollback_restores [OF _ refl]) simp

text \<open>C24: Whatever the runtime does, the client can undo it: operations of the runtime
  between \<open>enter_runtime\<close> and \<open>exit_runtime\<close> cannot close a transaction of the client,
  so rolling back the client's transaction afterwards gives the changes that rolling it
  back beforehand would have given.\<close>

theorem client_undoes_runtime:
  assumes "m = snd (run_ops before overlayed_map_default)" "execution_mode m = Client"
    "transaction_depth m > 0" "Op_Exit \<notin> set ops"
  shows "changes (snd (run_ops (Op_Enter # ops @ [Op_Exit, Op_Rollback]) m)) =
      changes (snd (run_ops [Op_Rollback] m)) \<and>
    transaction_depth (snd (run_ops (Op_Enter # ops @ [Op_Exit, Op_Rollback]) m)) =
      transaction_depth m - 1"
proof -
  obtain s where s: "overlay_rel m s" using reachable_rel [of before] assms(1) by metis
  then obtain txs b where rel: "overlay_rel m ((txs, b), None)"
    using assms(2) by (cases s; cases "fst s") (auto simp: overlay_rel_simps split: option.splits)
  have depth: "transaction_depth m = length txs" using overlay_rel_depth [OF rel] by simp
  then obtain l ls where txs: "txs = l # ls" using assms(3) by (cases txs) auto
  obtain rs us' l' where run: "spec_ops ops (([] @ l # ls, b), Some (Suc (length ls))) =
      (rs, ((us' @ l' # ls, b), Some (Suc (length ls))))"
    using runtime_spec [OF assms(4)] by blast
  have "spec_ops (Op_Enter # ops @ [Op_Exit, Op_Rollback]) ((txs, b), None) =
      (Inr () # rs @ [Inr (), Inr ()], ((ls, b), None))"
    using run by (simp add: txs spec_ops_append spec_may_close_def)
  then obtain m1 where m1: "run_ops (Op_Enter # ops @ [Op_Exit, Op_Rollback]) m =
      (Inr () # rs @ [Inr (), Inr ()], m1)" "overlay_rel m1 ((ls, b), None)"
    using run_ops_refines [OF rel] by metis
  have "spec_ops [Op_Rollback] ((txs, b), None) = ([Inr ()], ((ls, b), None))"
    by (simp add: txs spec_may_close_def)
  then obtain m2 where m2: "run_ops [Op_Rollback] m = ([Inr ()], m2)" "overlay_rel m2 ((ls, b), None)"
    using run_ops_refines [OF rel] by metis
  have "changes m1 = changes m2"
    using m1(2) m2(2) stack_rel_unique(1) unfolding overlay_rel_simps by blast
  moreover have "transaction_depth m1 = length ls" using overlay_rel_depth [OF m1(2)] by simp
  ultimately show ?thesis using m1(1) m2(1) depth by (simp add: txs)
qed

theorem client_undoes_runtime_witness:
  "let m = snd (run_ops [Op_Set (1 :: nat) (Some (5 :: nat)) None, Op_Start] overlayed_map_default)
   in changes (snd (run_ops (Op_Enter # [Op_Rollback, Op_Set 1 None None, Op_Start] @ [Op_Exit, Op_Rollback]) m)) =
      changes (snd (run_ops [Op_Rollback] m)) \<and>
    transaction_depth (snd (run_ops (Op_Enter # [Op_Rollback, Op_Set 1 None None, Op_Start] @ [Op_Exit, Op_Rollback]) m)) =
      transaction_depth m - 1"
  unfolding Let_def
  by (rule client_undoes_runtime [OF refl])
    (simp_all add: overlayed_map_default_def map_set_def start_transaction_def transaction_depth_def)

subsection \<open>The values alone\<close>

text \<open>What the operations do to the values of a stack, the extrinsic indices left out: a
  list of maps, the innermost first and the committed one last.\<close>

definition values_of :: "('k, 'v) stack \<Rightarrow> ('k \<Rightarrow> 'v option) list" where
  "values_of s = map (\<lambda>l k. map_option iv_value (l k)) (fst s @ [snd s])"

fun values_view :: "('k \<Rightarrow> 'v option) list \<Rightarrow> 'k \<Rightarrow> 'v option" where
  "values_view [] = Map.empty"
| "values_view (l # ls) = values_view ls ++ l"

fun val_op :: "('k, 'w) overlay_op \<Rightarrow> ('k \<Rightarrow> 'w option option) list \<Rightarrow> ('k \<Rightarrow> 'w option option) list" where
  "val_op (Op_Set k v at) (l # ls) = l(k \<mapsto> v) # ls"
| "val_op (Op_Modify k init at f) (l # ls) =
     l(k \<mapsto> f (case values_view (l # ls) k of None \<Rightarrow> Some init | Some v \<Rightarrow> v)) # ls"
| "val_op (Op_Clear p at) (l # ls) =
     (\<lambda>k. if values_view (l # ls) k \<noteq> None \<and> p k then Some None else l k) # ls"
| "val_op Op_Start ls = Map.empty # ls"
| "val_op Op_Commit (l # n # ls) = (n ++ l) # ls"
| "val_op Op_Rollback (l # ls) = ls"
| "val_op _ ls = ls"

lemma values_of_simps [simp]:
  "values_of ([], b) = [\<lambda>k. map_option iv_value (b k)]"
  "values_of (l # ls, b) = (\<lambda>k. map_option iv_value (l k)) # values_of (ls, b)"
  by (simp_all add: values_of_def)

lemma view_values: "view s k = values_view (values_of s) k"
proof -
  have "view (txs, b) k = values_view (values_of (txs, b)) k" for txs b
    by (induction txs) (auto simp: view_def map_add_def split: option.splits)
  then show ?thesis by (cases s) simp
qed

lemma versions_values: "versions s k = [] \<longleftrightarrow> values_view (values_of s) k = None"
  by (simp add: view_values [symmetric] view_def split: list.splits)

lemma values_top_update:
  "values_of (top_update f s) = (\<lambda>k. map_option iv_value (f (hd (fst s @ [snd s])) k)) # tl (values_of s)"
  by (cases "(f, s)" rule: top_update.cases) (simp_all add: values_of_def)

lemma hd_values: "hd (values_of s) = (\<lambda>k. map_option iv_value (hd (fst s @ [snd s]) k))"
  by (cases s; cases "fst s") auto

lemma values_Cons: "values_of s = hd (values_of s) # tl (values_of s)"
  by (simp add: values_of_def)

lemma layer_values:
  fixes l n :: "('k, 'v) layer" and lm :: "('k, 'w option) layer"
  shows "map_option iv_value (layer_set k v at l k') = ((\<lambda>k. map_option iv_value (l k))(k \<mapsto> v)) k'"
    "map_option iv_value (layer_modify k cur at f lm k') =
      ((\<lambda>k. map_option iv_value (lm k))(k \<mapsto> f (case lm k of None \<Rightarrow> cur | Some iv \<Rightarrow> iv_value iv))) k'"
    "map_option iv_value (merge l n k') =
      ((\<lambda>k. map_option iv_value (n k)) ++ (\<lambda>k. map_option iv_value (l k))) k'"
  by (auto simp: layer_set_def layer_modify_def stamp_def merge_def map_add_def split: option.splits)
    (cases "n k'"; auto)+

lemma values_hd_view: "hd (values_of s) k = Some v \<Longrightarrow> values_view (values_of s) k = Some v"
  by (subst values_Cons) simp

lemma spec_op_values:
  assumes "spec_op x (s, prot) = (r, s', prot')" "x \<notin> {Op_Enter, Op_Exit}"
    "x \<in> {Op_Commit, Op_Rollback} \<Longrightarrow> spec_may_close (s, prot)"
  shows "values_of s' = val_op x (values_of s)" "prot' = prot"
    "length (fst s') = depth_after x (length (fst s))"
proof -
  obtain h t where ht: "h = (\<lambda>k. map_option iv_value (hd (fst s @ [snd s]) k))" "values_of s = h # t"
    using values_Cons [of s] by (simp add: hd_values)
  have cur: "hd (fst s @ [snd s]) k = Some iv \<Longrightarrow> (values_view t ++ h) k = Some (iv_value iv)" for k iv
    by (simp add: ht(1))
  have close: "fst s \<noteq> []" if "x \<in> {Op_Commit, Op_Rollback}"
    using assms(3) that by (cases s) (auto simp: spec_may_close_def)
  show "prot' = prot" using assms by (cases x; cases s) (auto split: if_splits)
  show "length (fst s') = depth_after x (length (fst s))"
    using assms by (cases x; cases s) (auto split: if_splits)
  show "values_of s' = val_op x (values_of s)"
  proof (cases x)
    case (Op_Set k v at)
    then show ?thesis using assms(1)
      by (auto simp: values_top_update layer_values fun_eq_iff ht)
  next
    case (Op_Modify k init at f)
    then show ?thesis using assms(1) cur [of k]
      by (auto simp: values_top_update layer_values view_values fun_eq_iff ht(2) split: option.splits)
        (auto simp: ht(1))
  next
    case (Op_Clear p at)
    then show ?thesis using assms(1)
      by (auto simp: values_top_update layer_clear_def layer_values versions_values fun_eq_iff ht(2))
        (auto simp: ht(1))
  next
    case Op_Commit
    then obtain t ts b where s: "s = (t # ts, b)" using close by (cases s; cases "fst s") auto
    have "values_of s' = (\<lambda>k. map_option iv_value (merge t (hd (ts @ [b])) k)) # tl (values_of (ts, b))"
      using assms Op_Commit by (auto simp: s values_top_update)
    then show ?thesis using Op_Commit values_Cons [of "(ts, b)"] hd_values [of "(ts, b)"]
      by (simp add: s layer_values fun_eq_iff) (metis val_op.simps(5))
  next
    case Op_Rollback
    then obtain t ts b where "s = (t # ts, b)" using close by (cases s; cases "fst s") auto
    then show ?thesis using assms Op_Rollback by auto
  qed (use assms in \<open>cases s; auto\<close>)+
qed

lemma spec_ops_values:
  assumes "balanced d xs" "(case prot of None \<Rightarrow> 0 | Some n \<Rightarrow> n) + d \<le> length (fst s)"
  obtains rs s' where "spec_ops xs (s, prot) = (rs, s', prot)" "values_of s' = fold val_op xs (values_of s)"
    "length (fst s') + d = length (fst s)"
  using assms
proof (induction xs arbitrary: d s thesis)
  case (Cons x xs)
  have x: "x \<notin> {Op_Enter, Op_Exit}" "x \<in> {Op_Commit, Op_Rollback} \<Longrightarrow> 0 < d" "balanced (depth_after x d) xs"
    using Cons.prems(2) by (cases x; auto)+
  obtain r s1 p1 where s1: "spec_op x (s, prot) = (r, s1, p1)" by (metis prod.collapse)
  have close: "x \<in> {Op_Commit, Op_Rollback} \<Longrightarrow> spec_may_close (s, prot)"
    using x(2) Cons.prems(3) by (cases s) (auto simp: spec_may_close_def)
  note v = spec_op_values [OF s1 x(1) close]
  have d: "depth_after x (length (fst s)) + d = length (fst s) + depth_after x d"
    "(case prot of None \<Rightarrow> 0 | Some n \<Rightarrow> n) + depth_after x d \<le> depth_after x (length (fst s))"
    using x(2) Cons.prems(3) by (cases x; auto)+
  obtain rs s' where "spec_ops xs (s1, prot) = (rs, s', prot)" "values_of s' = fold val_op xs (values_of s1)"
    "length (fst s') + depth_after x d = length (fst s1)"
    by (rule Cons.IH [OF _ x(3), of s1]) (use v d in auto)
  then show ?case using Cons.prems(1) s1 v d by auto
qed simp

lemma balanced_append: "balanced d xs \<Longrightarrow> balanced (d + e) (xs @ ys) = balanced e ys"
  by (induction d xs rule: balanced.induct) auto

lemma values_view_merge: "values_view (us @ (l ++ u) # ls) = values_view (us @ u # l # ls)"
  by (induction us) auto

text \<open>An operation above two layers does to them what it does to the layer they merge to.\<close>

lemma val_op_merge:
  assumes "balanced (length us) (x # xs)"
  obtains us' u' where "val_op x (us @ u # l # ls) = us' @ u' # l # ls"
    "val_op x (us @ (l ++ u) # ls) = us' @ (l ++ u') # ls" "length us' = depth_after x (length us)"
proof (cases us)
  case Nil
  show thesis
  proof (cases x)
    case (Op_Set k v at)
    then show thesis using that [of "[]" "u(k \<mapsto> v)"] Nil by simp
  next
    case (Op_Modify k i at f)
    then show thesis
      using that [of "[]" "u(k \<mapsto> f (case values_view (u # l # ls) k of None \<Rightarrow> Some i | Some v \<Rightarrow> v))"] Nil by simp
  next
    case (Op_Clear p at)
    have "l ++ (\<lambda>k. if q k then Some None else u k) = (\<lambda>k. if q k then Some None else (l ++ u) k)" for q
      by (auto simp: map_add_def fun_eq_iff split: option.splits)
    then show thesis
      using that [of "[]" "\<lambda>k. if values_view (u # l # ls) k \<noteq> None \<and> p k then Some None else u k"] Nil Op_Clear
      by simp
  next
    case Op_Start
    then show thesis using that [of "[Map.empty]" u] Nil by simp
  qed (use assms Nil in auto)
next
  case (Cons v vs)
  have merge: "values_view (vs @ (l ++ u) # ls) = values_view (vs @ u # l # ls)" by (rule values_view_merge)
  show thesis
  proof (cases x)
    case Op_Commit
    show thesis
    proof (cases vs)
      case Nil
      then show thesis using that [of "[]" "u ++ v"] Cons Op_Commit by (simp add: map_add_assoc)
    next
      case (Cons w ws)
      then show thesis using that [of "(w ++ v) # ws" u] \<open>us = v # vs\<close> Op_Commit by simp
    qed
  next
    case Op_Rollback
    then show thesis using that [of vs u] Cons by simp
  next
    case Op_Start
    then show thesis using that [of "Map.empty # us" u] by simp
  qed (use that [of "hd (val_op x (us @ u # l # ls)) # vs" u] Cons merge assms in simp_all)
qed

lemma fold_val_op_merge:
  assumes "balanced (length us) xs"
  shows "\<exists>u'. fold val_op xs (us @ u # l # ls) = u' # l # ls \<and>
    fold val_op xs (us @ (l ++ u) # ls) = (l ++ u') # ls"
  using assms
proof (induction xs arbitrary: us u)
  case (Cons x xs)
  obtain us' u' where x: "val_op x (us @ u # l # ls) = us' @ u' # l # ls"
    "val_op x (us @ (l ++ u) # ls) = us' @ (l ++ u') # ls" "length us' = depth_after x (length us)"
    by (rule val_op_merge [OF Cons.prems])
  have "balanced (length us') xs" using Cons.prems x(3) by (cases x) auto
  then show ?case using Cons.IH [of us' u'] x by simp
qed simp

text \<open>C22: Committing a transaction is invisible: from every reachable overlay, running
  operations that close only what they open inside a transaction and committing it gives
  every key the value that running them directly gives it.\<close>

theorem commit_transparent:
  assumes "balanced 0 ops" "m = snd (run_ops before overlayed_map_default)"
  shows "\<forall>k. Option.bind (map_get (snd (run_ops (Op_Start # ops @ [Op_Commit]) m)) k) value_ref =
    Option.bind (map_get (snd (run_ops ops m)) k) value_ref"
proof -
  obtain s prot where rel: "overlay_rel m (s, prot)" using reachable_rel [of before] assms(2) by (metis prod.collapse)
  obtain l ls where ls: "values_of s = l # ls" using values_Cons by metis
  have p: "(case prot of None \<Rightarrow> 0 | Some n \<Rightarrow> n) \<le> length (fst s)"
    using rel by (cases s) (auto simp: overlay_rel_simps split: option.splits)
  obtain u where u: "fold val_op ops (Map.empty # l # ls) = u # l # ls" "fold val_op ops (l # ls) = (l ++ u) # ls"
    using fold_val_op_merge [of "[]" ops Map.empty l ls] assms(1) by auto
  have start: "balanced 0 (Op_Start # ops @ [Op_Commit])"
    using balanced_append [of 0 ops 1 "[Op_Commit]"] assms(1) by simp
  obtain rs s1 where s1: "spec_ops (Op_Start # ops @ [Op_Commit]) (s, prot) = (rs, s1, prot)" "values_of s1 = (l ++ u) # ls"
    by (rule spec_ops_values [OF start, of prot s]) (use p u ls in auto)
  obtain rs' s2 where s2: "spec_ops ops (s, prot) = (rs', s2, prot)" "values_of s2 = (l ++ u) # ls"
    by (rule spec_ops_values [OF assms(1), of prot s]) (use p u ls in auto)
  obtain m1 m2 where "run_ops (Op_Start # ops @ [Op_Commit]) m = (rs, m1)" "overlay_rel m1 (s1, prot)"
    "run_ops ops m = (rs', m2)" "overlay_rel m2 (s2, prot)"
    using run_ops_refines [OF rel s1(1)] run_ops_refines [OF rel s2(1)] by metis
  then show ?thesis using s1(2) s2(2) by (simp add: overlay_rel_get view_values)
qed

theorem commit_transparent_witness:
  "let m = snd (run_ops [Op_Set (1 :: nat) (Some (5 :: nat)) None, Op_Start, Op_Enter] overlayed_map_default);
     ops = [Op_Set 2 (Some 6) (Some 0), Op_Start, Op_Modify 1 7 None (map_option Suc), Op_Commit]
   in \<forall>k. Option.bind (map_get (snd (run_ops (Op_Start # ops @ [Op_Commit]) m)) k) value_ref =
      Option.bind (map_get (snd (run_ops ops m)) k) value_ref"
  unfolding Let_def by (rule commit_transparent [OF _ refl]) simp

section \<open>The overlay as a provider\<close>

text \<open>What the components above rely on: an object with transactions and an execution mode
  that reads as a stack of maps, the innermost first and the committed one last, of which
  the lowest ones are protected in the runtime.\<close>

definition closable :: "nat option \<Rightarrow> ('k \<Rightarrow> 'v option) list \<Rightarrow> bool" where
  "closable prot vs \<longleftrightarrow> (case prot of None \<Rightarrow> 0 | Some n \<Rightarrow> n) < length vs - 1"

locale transactional =
  fixes rel :: "'m \<Rightarrow> ('k \<Rightarrow> 'v option) list \<Rightarrow> nat option \<Rightarrow> bool"
    and read :: "'m \<Rightarrow> 'k \<Rightarrow> 'v option"
    and start :: "'m \<Rightarrow> 'm"
    and commit rollback enter_rt exit_rt :: "'m \<Rightarrow> (changeset_error + unit) \<times> 'm"
  assumes rel_read: "rel m vs prot \<Longrightarrow> read m k = values_view vs k"
    and rel_start: "rel m vs prot \<Longrightarrow> rel (start m) (Map.empty # vs) prot"
    and rel_rollback: "rel m vs prot \<Longrightarrow> closable prot vs \<Longrightarrow>
      \<exists>m'. rollback m = (Inr (), m') \<and> rel m' (tl vs) prot"
    and rel_commit: "rel m (l # l' # vs) prot \<Longrightarrow> closable prot (l # l' # vs) \<Longrightarrow>
      \<exists>m'. commit m = (Inr (), m') \<and> rel m' ((l' ++ l) # vs) prot"
    and rel_refused: "rel m vs prot \<Longrightarrow> \<not> closable prot vs \<Longrightarrow>
      rollback m = (Inl NoOpenTransaction, m) \<and> commit m = (Inl NoOpenTransaction, m)"
    and rel_enter: "rel m vs None \<Longrightarrow> \<exists>m'. enter_rt m = (Inr (), m') \<and> rel m' vs (Some (length vs - 1))"
    and rel_enter_refused: "rel m vs (Some n) \<Longrightarrow> enter_rt m = (Inl AlreadyInRuntime, m)"
    and rel_exit: "rel m vs (Some n) \<Longrightarrow>
      \<exists>m'. exit_rt m = (Inr (), m') \<and> rel m' (drop (length vs - Suc n) vs) None"
    and rel_exit_refused: "rel m vs None \<Longrightarrow> exit_rt m = (Inl NotInRuntime, m)"
    and rel_bound: "rel m vs (Some n) \<Longrightarrow> n < length vs"
    and rel_nonempty: "rel m vs prot \<Longrightarrow> vs \<noteq> []"
begin

lemma start_closable: "rel m vs prot \<Longrightarrow> closable prot (Map.empty # vs)"
  using rel_bound rel_nonempty by (cases prot) (fastforce simp: closable_def)+

text \<open>A transaction that is closed at once, in either way, changes no value.\<close>

lemma start_rollback: "rel m vs prot \<Longrightarrow> \<exists>m'. rollback (start m) = (Inr (), m') \<and> rel m' vs prot"
  using rel_rollback [OF rel_start start_closable] by simp

lemma start_commit: "rel m vs prot \<Longrightarrow> \<exists>m'. commit (start m) = (Inr (), m') \<and> rel m' vs prot"
  using rel_commit [of "start m" Map.empty "hd vs" "tl vs" prot] rel_start [of m vs prot]
    start_closable [of m vs prot] rel_nonempty [of m vs prot] by (cases vs) auto

text \<open>Entering and leaving drops exactly the transactions the runtime left open.\<close>

lemma exit_protected:
  assumes "rel m (us @ vs) (Some n)" "length vs = Suc n"
  shows "\<exists>m'. exit_rt m = (Inr (), m') \<and> rel m' vs None"
  using rel_exit [OF assms(1)] assms(2) by simp

end

definition overlay_values ::
  "('k :: linorder, 'v) overlayed_map \<Rightarrow> ('k \<Rightarrow> 'v option) list \<Rightarrow> nat option \<Rightarrow> bool" where
  "overlay_values m vs prot \<longleftrightarrow> (\<exists>s. overlay_rel m (s, prot) \<and> values_of s = vs)"

definition read_value :: "('k, 'v) overlayed_map \<Rightarrow> 'k \<Rightarrow> 'v option" where
  "read_value m k = Option.bind (map_get m k) value_ref"

lemma overlay_valuesE:
  assumes "overlay_values m vs prot"
  obtains txs b where "overlay_rel m ((txs, b), prot)" "vs = values_of (txs, b)" "length vs = Suc (length txs)"
  using assms by (auto simp: overlay_values_def values_of_def)

lemma closable_values: "closable prot (values_of s) = spec_may_close (s, prot)"
  by (cases s) (simp add: closable_def spec_may_close_def values_of_def)

lemma values_merge:
  "values_of (top_update (merge t) s) = (hd (values_of s) ++ (\<lambda>k. map_option iv_value (t k))) # tl (values_of s)"
  by (simp add: values_top_update layer_values hd_values fun_eq_iff)

lemma values_drop: "n \<le> length txs \<Longrightarrow> values_of (drop n txs, b) = drop n (values_of (txs, b))"
  by (simp add: values_of_def drop_map)

interpretation cs: transactional overlay_values read_value start_transaction commit_transaction
  rollback_transaction enter_runtime exit_runtime
proof unfold_locales
  fix m :: "('a :: linorder, 'b) overlayed_map" and vs prot k
  assume "overlay_values m vs prot"
  then obtain txs b where rel: "overlay_rel m ((txs, b), prot)" and vs: "vs = values_of (txs, b)"
    by (rule overlay_valuesE)
  show "read_value m k = values_view vs k"
    using overlay_rel_get [OF rel] by (simp add: read_value_def view_values vs)
  have "overlay_rel (start_transaction m) ((Map.empty # txs, b), prot)"
    using rel by (rule overlay_rel_update)
      (use rel in \<open>auto simp: overlay_rel_simps start_transaction_def intro: stack_rel_start [unfolded start_transaction_def]\<close>)
  then show "overlay_values (start_transaction m) (Map.empty # vs) prot"
    by (force simp: overlay_values_def vs)
  show "vs \<noteq> []" by (simp add: vs values_of_def)
next
  fix m :: "('a :: linorder, 'b) overlayed_map" and vs prot
  assume "overlay_values m vs prot" and cl: "closable prot vs"
  then obtain txs b where rel: "overlay_rel m ((txs, b), prot)" and vs: "vs = values_of (txs, b)"
    by (metis overlay_valuesE)
  have may: "spec_may_close ((txs, b), prot)" using cl by (simp add: vs closable_values)
  then have "values_of (tl txs, b) = tl vs" by (cases txs) (auto simp: vs spec_may_close_def)
  then show "\<exists>m'. rollback_transaction m = (Inr (), m') \<and> overlay_values m' (tl vs) prot"
    by (metis close_refines [OF rel may] overlay_values_def)
next
  fix m :: "('a :: linorder, 'b) overlayed_map" and l n vs prot
  assume "overlay_values m (l # n # vs) prot" and cl: "closable prot (l # n # vs)"
  then obtain txs b where rel: "overlay_rel m ((txs, b), prot)" and vs: "l # n # vs = values_of (txs, b)"
    by (metis overlay_valuesE)
  have may: "spec_may_close ((txs, b), prot)" using cl by (simp add: vs closable_values)
  have "values_of (top_update (merge (hd txs)) (tl txs, b)) = (n ++ l) # vs"
    using vs by (cases txs) (auto simp: values_merge dest: sym)
  then show "\<exists>m'. commit_transaction m = (Inr (), m') \<and> overlay_values m' ((n ++ l) # vs) prot"
    by (metis close_refines [OF rel may] overlay_values_def)
next
  fix m :: "('a :: linorder, 'b) overlayed_map" and vs prot
  assume "overlay_values m vs prot" "\<not> closable prot vs"
  then show "rollback_transaction m = (Inl NoOpenTransaction, m) \<and> commit_transaction m = (Inl NoOpenTransaction, m)"
    by (metis overlay_values_def closable_values close_refused_refines)
next
  fix m :: "('a :: linorder, 'b) overlayed_map" and vs
  assume "overlay_values m vs None"
  then show "\<exists>m'. enter_runtime m = (Inr (), m') \<and> overlay_values m' vs (Some (length vs - 1))"
    by (metis overlay_valuesE enter_rel overlay_values_def diff_Suc_1)
next
  fix m :: "('a :: linorder, 'b) overlayed_map" and vs n
  assume "overlay_values m vs (Some n)"
  then obtain txs b where rel: "overlay_rel m ((txs, b), Some n)" and vs: "vs = values_of (txs, b)"
    "length vs = Suc (length txs)" by (metis overlay_valuesE)
  then show "\<exists>m'. exit_runtime m = (Inr (), m') \<and> overlay_values m' (drop (length vs - Suc n) vs) None"
    using exit_rel [OF rel] by (auto simp: overlay_values_def values_drop [symmetric] simp del: values_of_simps)
  show "enter_runtime m = (Inl AlreadyInRuntime, m)" using rel by (rule enter_refused)
  show "n < length vs" using rel vs(2) by (simp add: overlay_rel_simps)
next
  fix m :: "('a :: linorder, 'b) overlayed_map" and vs
  assume "overlay_values m vs None"
  then show "exit_runtime m = (Inl NotInRuntime, m)" by (auto simp: overlay_values_def intro: exit_refused)
qed

text \<open>The writes, read as operations on the values.\<close>

lemma overlay_values_default: "overlay_values overlayed_map_default [Map.empty] None"
  using overlay_rel_default by (force simp: overlay_values_def)

lemma overlay_values_set:
  assumes "overlay_values m (l # ls) prot"
  shows "overlay_values (map_set k v at m) (l(k \<mapsto> v) # ls) prot"
proof -
  obtain s where s: "overlay_rel m (s, prot)" "values_of s = l # ls" using assms by (auto simp: overlay_values_def)
  have "overlay_rel (map_set k v at m) (top_update (layer_set k v at) s, prot)"
    by (rule overlay_rel_update [OF s(1) stack_rel_set]) (use s(1) in \<open>auto simp: overlay_rel_simps\<close>)
  moreover have "values_of (top_update (layer_set k v at) s) = l(k \<mapsto> v) # ls"
    using hd_values [of s] s(2) by (auto simp: values_top_update layer_values fun_eq_iff)
  ultimately show ?thesis unfolding overlay_values_def by blast
qed

lemma overlay_values_run_op:
  assumes "overlay_values m vs prot" "x \<notin> {Op_Enter, Op_Exit, Op_Commit, Op_Rollback}"
  shows "overlay_values (snd (run_op x m)) (val_op x vs) prot"
proof -
  obtain s where s: "overlay_rel m (s, prot)" "values_of s = vs" using assms by (auto simp: overlay_values_def)
  obtain r s' p' where sp: "spec_op x (s, prot) = (r, s', p')" by (metis prod.collapse)
  obtain m' where m': "run_op x m = (r, m')" "overlay_rel m' (s', p')" by (rule run_op_refines [OF s(1) sp])
  have "values_of s' = val_op x (values_of s)" "p' = prot"
    by (rule spec_op_values [OF sp]; use assms(2) in simp)+
  then show ?thesis using m' s(2) unfolding overlay_values_def by (metis snd_conv)
qed

lemma overlay_values_modify:
  "overlay_values m (l # ls) prot \<Longrightarrow> overlay_values (map_modify k init at f m)
     (l(k \<mapsto> f (case values_view (l # ls) k of None \<Rightarrow> Some init | Some v \<Rightarrow> v)) # ls) prot"
  using overlay_values_run_op [of m "l # ls" prot "Op_Modify k init at f"] by simp

lemma overlay_values_clear:
  "overlay_values m (l # ls) prot \<Longrightarrow> overlay_values (snd (clear_where (\<lambda>k _. p k) at m))
     ((\<lambda>k. if values_view (l # ls) k \<noteq> None \<and> p k then Some None else l k) # ls) prot"
  using overlay_values_run_op [of m "l # ls" prot "Op_Clear p at"] by simp

lemma overlay_values_depth: "overlay_values m vs prot \<Longrightarrow> transaction_depth m = length vs - 1"
  using overlay_rel_depth by (fastforce simp: overlay_values_def values_of_def)

text \<open>A child spawned late catches up with the transactions.\<close>

lemma overlay_values_spawn:
  assumes "overlay_values m vs prot"
  shows "overlay_values (spawn_child m) (replicate (length vs) Map.empty) prot"
proof -
  obtain txs b where rel: "overlay_rel m ((txs, b), prot)" "length vs = Suc (length txs)"
    using assms by (rule overlay_valuesE)
  let ?s = "(replicate (length txs) Map.empty, Map.empty)"
  have d: "transaction_depth m = length txs" using overlay_rel_depth [OF rel(1)] by simp
  have "versions ?s k = []" for k
    by (auto simp: versions_def map_filter_def)
  then have "overlay_rel (spawn_child m) (?s, prot)"
    using rel(1) by (auto simp: overlay_rel_simps spawn_child_def stack_rel_def lookup_versions_def d
        bt_lookup_def list_all2_conv_all_nth split: option.splits)
  moreover have "values_of ?s = replicate (length vs) Map.empty"
    by (simp add: values_of_def rel(2) replicate_append_same)
  ultimately show ?thesis unfolding overlay_values_def by blast
qed

text \<open>An overlay without changes has no values.\<close>

lemma overlay_values_empty:
  assumes "overlay_values m vs prot"
  shows "is_empty m \<longleftrightarrow> (\<forall>l\<in>set vs. l = Map.empty)"
proof -
  obtain txs b where rel: "overlay_rel m ((txs, b), prot)" and vs: "vs = values_of (txs, b)"
    using assms by (rule overlay_valuesE)
  have "changes m = [] \<longleftrightarrow> (\<forall>k. versions (txs, b) k = [])"
  proof
    assume "\<forall>k. versions (txs, b) k = []"
    then have "bt_lookup (changes m) = Map.empty"
      using rel by (auto simp: overlay_rel_simps stack_rel_def lookup_versions_def)
    then show "changes m = []" by (cases "changes m") (auto simp: bt_lookup_def fun_eq_iff split: if_splits)
  qed (use rel in \<open>auto simp: overlay_rel_simps stack_rel_def lookup_versions_def bt_lookup_def split: if_splits\<close>)
  also have "\<dots> \<longleftrightarrow> (\<forall>l\<in>set vs. l = Map.empty)"
    by (auto simp: vs values_of_def versions_def map_filter_def fun_eq_iff filter_empty_conv)
  finally show ?thesis by (simp add: is_empty_def)
qed

end
