(* ===== verification/Overlayed_Changes.thy ===== *)
theory Overlayed_Changes
  imports Changeset "HOL-Library.List_Lexorder" "HOL-Library.Product_Lexorder"
begin

text \<open>
  The changes a block makes on top of a backend,
  \<open>primitives/state-machine/src/overlayed_changes/mod.rs\<close> and \<open>offchain.rs\<close>: one change
  set for the top storage, one per child storage, created when the child is first written,
  and one for offchain storage. They are meant to transact in lockstep; the specification
  is a single stack of layers that hold the writes to all of them. Statistics are left out.
  Decoding the extrinsic index and computing a storage root are parameters.
\<close>

section \<open>Data\<close>

type_synonym storage_key = "u8 list"
type_synonym storage_value = "u8 list"
type_synonym change_set = "(storage_key, storage_value option) overlayed_map"

datatype child_info = ParentKeyId storage_key

fun child_storage_key :: "child_info \<Rightarrow> storage_key" where
  "child_storage_key (ParentKeyId data) = data"

fun try_update :: "child_info \<Rightarrow> child_info \<Rightarrow> bool" where
  "try_update (ParentKeyId data) (ParentKeyId other) = (data = other)"

datatype offchain_change = Remove | SetValue storage_value

type_synonym offchain_changes = "(storage_key \<times> storage_key, offchain_change) overlayed_map"

datatype index_operation =
    Index_Insert u32 "u8 list" u32
  | Index_Renew u32 "u8 list"

record overlayed_changes =
  top_changes :: change_set
  children :: "(storage_key \<times> (change_set \<times> child_info)) list"
  offchain :: offchain_changes
  transaction_index_ops :: "index_operation list"
  collect_extrinsics :: bool

definition overlayed_changes_default :: overlayed_changes where
  "overlayed_changes_default =
     \<lparr>top_changes = overlayed_map_default, children = [], offchain = overlayed_map_default,
      transaction_index_ops = [], collect_extrinsics = False\<rparr>"

definition EXTRINSIC_INDEX :: storage_key where
  "EXTRINSIC_INDEX = map of_char '':extrinsic_index''"

definition NO_EXTRINSIC_INDEX :: u32 where
  "NO_EXTRINSIC_INDEX = 0xffffffff"

definition STORAGE_PREFIX :: storage_key where
  "STORAGE_PREFIX = map of_char ''storage''"

section \<open>Reading and writing\<close>

definition overlay_is_empty :: "overlayed_changes \<Rightarrow> bool" where
  "overlay_is_empty ov \<longleftrightarrow> is_empty (top_changes ov) \<and> children ov = []"

definition set_collect_extrinsics :: "bool \<Rightarrow> overlayed_changes \<Rightarrow> overlayed_changes" where
  "set_collect_extrinsics c ov = ov\<lparr>collect_extrinsics := c\<rparr>"

definition storage :: "overlayed_changes \<Rightarrow> storage_key \<Rightarrow> storage_value option option" where
  "storage ov key = read_value (top_changes ov) key"

definition child_storage ::
  "overlayed_changes \<Rightarrow> child_info \<Rightarrow> storage_key \<Rightarrow> storage_value option option" where
  "child_storage ov info key =
     (case bt_lookup (children ov) (child_storage_key info) of
        None \<Rightarrow> None
      | Some (cs, _) \<Rightarrow> read_value cs key)"

definition extrinsic_index :: "(u8 list \<Rightarrow> u32 option) \<Rightarrow> overlayed_changes \<Rightarrow> u32 option" where
  "extrinsic_index decode ov =
     (if collect_extrinsics ov then
        Some (case storage ov EXTRINSIC_INDEX of
            Some (Some idx) \<Rightarrow> (case decode idx of Some i \<Rightarrow> i | None \<Rightarrow> NO_EXTRINSIC_INDEX)
          | _ \<Rightarrow> NO_EXTRINSIC_INDEX)
      else None)"

text \<open>The caller's change of the value it borrows is \<open>f\<close>.\<close>

definition value_mut_or_insert_with ::
  "(u8 list \<Rightarrow> u32 option) \<Rightarrow> storage_key \<Rightarrow> storage_value \<Rightarrow> (storage_value \<Rightarrow> storage_value) \<Rightarrow>
   overlayed_changes \<Rightarrow> overlayed_changes" where
  "value_mut_or_insert_with decode key init f ov =
     ov\<lparr>top_changes := map_modify key init (extrinsic_index decode ov)
          (\<lambda>v. Some (f (case v of None \<Rightarrow> [] | Some x \<Rightarrow> x))) (top_changes ov)\<rparr>"

definition set_storage ::
  "(u8 list \<Rightarrow> u32 option) \<Rightarrow> storage_key \<Rightarrow> storage_value option \<Rightarrow> overlayed_changes \<Rightarrow> overlayed_changes" where
  "set_storage decode key v ov =
     ov\<lparr>top_changes := map_set key v (extrinsic_index decode ov) (top_changes ov)\<rparr>"

text \<open>\<open>children.entry(..).or_insert_with(..)\<close> followed by a change of the child's change
  set; a failed \<open>debug_assert\<close> is a panic.\<close>

definition with_child ::
  "child_info \<Rightarrow> (change_set \<Rightarrow> 'r \<times> change_set) \<Rightarrow> overlayed_changes \<Rightarrow>
   (changeset_error + 'r) \<times> overlayed_changes" where
  "with_child child_info f ov =
     (let storage_key = child_storage_key child_info;
          (changeset, info) =
            (case bt_lookup (children ov) storage_key of
               None \<Rightarrow> (spawn_child (top_changes ov), child_info)
             | Some e \<Rightarrow> e)
      in if try_update info child_info then
           (case f changeset of (r, changeset') \<Rightarrow>
              (Inr r, ov\<lparr>children := bt_insert storage_key (changeset', info) (children ov)\<rparr>))
         else (Inl Changeset_Panic, ov\<lparr>children := bt_insert storage_key (changeset, info) (children ov)\<rparr>))"

definition set_child_storage ::
  "(u8 list \<Rightarrow> u32 option) \<Rightarrow> child_info \<Rightarrow> storage_key \<Rightarrow> storage_value option \<Rightarrow> overlayed_changes \<Rightarrow>
   (changeset_error + unit) \<times> overlayed_changes" where
  "set_child_storage decode child_info key v ov =
     (let extrinsic_index = extrinsic_index decode ov
      in with_child child_info (\<lambda>changeset. ((), map_set key v extrinsic_index changeset)) ov)"

definition clear_child_storage ::
  "(u8 list \<Rightarrow> u32 option) \<Rightarrow> child_info \<Rightarrow> overlayed_changes \<Rightarrow>
   (changeset_error + u32) \<times> overlayed_changes" where
  "clear_child_storage decode child_info ov =
     (let extrinsic_index = extrinsic_index decode ov
      in with_child child_info (clear_where (\<lambda>_ _. True) extrinsic_index) ov)"

definition starts_with :: "storage_key \<Rightarrow> storage_key \<Rightarrow> bool" where
  "starts_with key prefix \<longleftrightarrow> take (length prefix) key = prefix"

definition clear_prefix ::
  "(u8 list \<Rightarrow> u32 option) \<Rightarrow> storage_key \<Rightarrow> overlayed_changes \<Rightarrow> u32 \<times> overlayed_changes" where
  "clear_prefix decode prefix ov =
     (case clear_where (\<lambda>key _. starts_with key prefix) (extrinsic_index decode ov) (top_changes ov) of
        (n, cs) \<Rightarrow> (n, ov\<lparr>top_changes := cs\<rparr>))"

definition clear_child_prefix ::
  "(u8 list \<Rightarrow> u32 option) \<Rightarrow> child_info \<Rightarrow> storage_key \<Rightarrow> overlayed_changes \<Rightarrow>
   (changeset_error + u32) \<times> overlayed_changes" where
  "clear_child_prefix decode child_info prefix ov =
     (let extrinsic_index = extrinsic_index decode ov
      in with_child child_info (clear_where (\<lambda>key _. starts_with key prefix) extrinsic_index) ov)"

definition overlay_depth :: "overlayed_changes \<Rightarrow> nat" where
  "overlay_depth ov = transaction_depth (top_changes ov)"

definition add_transaction_index :: "index_operation \<Rightarrow> overlayed_changes \<Rightarrow> overlayed_changes" where
  "add_transaction_index x ov = ov\<lparr>transaction_index_ops := transaction_index_ops ov @ [x]\<rparr>"

definition iter_after ::
  "overlayed_changes \<Rightarrow> storage_key \<Rightarrow> (storage_key \<times> storage_value option overlayed_entry) list" where
  "iter_after ov key = changes_after key (top_changes ov)"

definition child_iter_after ::
  "overlayed_changes \<Rightarrow> storage_key \<Rightarrow> storage_key \<Rightarrow> (storage_key \<times> storage_value option overlayed_entry) list" where
  "child_iter_after ov storage_key key =
     (case bt_lookup (children ov) storage_key of None \<Rightarrow> [] | Some (cs, _) \<Rightarrow> changes_after key cs)"

subsection \<open>Offchain storage\<close>

definition offchain_remove :: "storage_key \<Rightarrow> storage_key \<Rightarrow> offchain_changes \<Rightarrow> offchain_changes" where
  "offchain_remove prefix key oc = map_set (prefix, key) Remove None oc"

definition offchain_set :: "storage_key \<Rightarrow> storage_key \<Rightarrow> storage_value \<Rightarrow> offchain_changes \<Rightarrow> offchain_changes" where
  "offchain_set prefix key v oc = map_set (prefix, key) (SetValue v) None oc"

definition offchain_get :: "offchain_changes \<Rightarrow> storage_key \<Rightarrow> storage_key \<Rightarrow> offchain_change option" where
  "offchain_get oc prefix key = read_value oc (prefix, key)"

definition offchain_drain ::
  "offchain_changes \<Rightarrow> (changeset_error + ((storage_key \<times> storage_key) \<times> offchain_change) list) \<times> offchain_changes" where
  "offchain_drain oc =
     ((if list_ex (\<lambda>(_, ts). ts = []) (changes oc) then Inl Changeset_Panic
       else Inr (map (\<lambda>(k, ts). (k, iv_value (hd ts))) (changes oc))), overlayed_map_default)"

definition set_offchain_storage ::
  "storage_key \<Rightarrow> storage_value option \<Rightarrow> overlayed_changes \<Rightarrow> overlayed_changes" where
  "set_offchain_storage key v ov =
     ov\<lparr>offchain := (case v of
          Some x \<Rightarrow> offchain_set STORAGE_PREFIX key x (offchain ov)
        | None \<Rightarrow> offchain_remove STORAGE_PREFIX key (offchain ov))\<rparr>"

definition offchain_drain_committed ::
  "overlayed_changes \<Rightarrow>
   (changeset_error + ((storage_key \<times> storage_key) \<times> offchain_change) list) \<times> overlayed_changes" where
  "offchain_drain_committed ov =
     (case offchain_drain (offchain ov) of (r, oc) \<Rightarrow> (r, ov\<lparr>offchain := oc\<rparr>))"

section \<open>Transactions in lockstep\<close>

definition overlay_start :: "overlayed_changes \<Rightarrow> overlayed_changes" where
  "overlay_start ov = ov\<lparr>
     top_changes := start_transaction (top_changes ov),
     children := map (\<lambda>(k, cs, info). (k, start_transaction cs, info)) (children ov),
     offchain := start_transaction (offchain ov)\<rparr>"

text \<open>A loop over the children whose body must not fail, and \<open>retain_map\<close> with such a
  body, which keeps the children that \<open>keep\<close> accepts afterwards.\<close>

fun retain_children ::
  "(change_set \<Rightarrow> bool) \<Rightarrow> (change_set \<Rightarrow> (changeset_error + unit) \<times> change_set) \<Rightarrow>
   (storage_key \<times> (change_set \<times> child_info)) list \<Rightarrow>
   (changeset_error + unit) \<times> (storage_key \<times> (change_set \<times> child_info)) list" where
  "retain_children keep f [] = (Inr (), [])"
| "retain_children keep f ((k, cs, info) # rest) =
     (case f cs of
        (Inl _, cs') \<Rightarrow> (Inl Changeset_Panic, (k, cs', info) # rest)
      | (Inr _, cs') \<Rightarrow>
          (case retain_children keep f rest of (r, rest') \<Rightarrow>
             (r, if keep cs' then (k, cs', info) # rest' else rest')))"

definition for_children ::
  "(change_set \<Rightarrow> (changeset_error + unit) \<times> change_set) \<Rightarrow>
   (storage_key \<times> (change_set \<times> child_info)) list \<Rightarrow>
   (changeset_error + unit) \<times> (storage_key \<times> (change_set \<times> child_info)) list" where
  "for_children = retain_children (\<lambda>_. True)"

text \<open>An operation on the top change set may be refused; after it, failure of the same
  operation on a child or on the offchain changes is a panic.\<close>

definition lockstep ::
  "(change_set \<Rightarrow> (changeset_error + unit) \<times> change_set) \<Rightarrow>
   ((storage_key \<times> (change_set \<times> child_info)) list \<Rightarrow>
    (changeset_error + unit) \<times> (storage_key \<times> (change_set \<times> child_info)) list) \<Rightarrow>
   (offchain_changes \<Rightarrow> (changeset_error + unit) \<times> offchain_changes) \<Rightarrow>
   overlayed_changes \<Rightarrow> (changeset_error + unit) \<times> overlayed_changes" where
  "lockstep f g h ov =
     (case f (top_changes ov) of
        (Inl e, t) \<Rightarrow> (Inl e, ov\<lparr>top_changes := t\<rparr>)
      | (Inr _, t) \<Rightarrow>
          (case g (children ov) of
             (Inl e, ch) \<Rightarrow> (Inl e, ov\<lparr>top_changes := t, children := ch\<rparr>)
           | (Inr _, ch) \<Rightarrow>
               (case h (offchain ov) of
                  (Inl _, oc) \<Rightarrow> (Inl Changeset_Panic, ov\<lparr>top_changes := t, children := ch, offchain := oc\<rparr>)
                | (Inr _, oc) \<Rightarrow> (Inr (), ov\<lparr>top_changes := t, children := ch, offchain := oc\<rparr>))))"

definition overlay_rollback :: "overlayed_changes \<Rightarrow> (changeset_error + unit) \<times> overlayed_changes" where
  "overlay_rollback = lockstep rollback_transaction
     (retain_children (\<lambda>cs. \<not> is_empty cs) rollback_transaction) rollback_transaction"

definition overlay_commit :: "overlayed_changes \<Rightarrow> (changeset_error + unit) \<times> overlayed_changes" where
  "overlay_commit = lockstep commit_transaction (for_children commit_transaction) commit_transaction"

definition overlay_enter_runtime :: "overlayed_changes \<Rightarrow> (changeset_error + unit) \<times> overlayed_changes" where
  "overlay_enter_runtime = lockstep enter_runtime (for_children enter_runtime) enter_runtime"

definition overlay_exit_runtime :: "overlayed_changes \<Rightarrow> (changeset_error + unit) \<times> overlayed_changes" where
  "overlay_exit_runtime = lockstep exit_runtime (for_children exit_runtime) exit_runtime"

section \<open>Draining\<close>

definition drain_committed ::
  "overlayed_changes \<Rightarrow>
   (changeset_error + (storage_key \<times> storage_value option) list \<times>
      (storage_key \<times> (storage_key \<times> storage_value option) list) list) \<times> overlayed_changes" where
  "drain_committed ov =
     ((case drain_commited (top_changes ov) of
         Inl e \<Rightarrow> Inl e
       | Inr main \<Rightarrow>
           (case those (map (\<lambda>(k, cs, _). case drain_commited cs of Inl _ \<Rightarrow> None | Inr xs \<Rightarrow> Some (k, xs))
              (children ov)) of
              None \<Rightarrow> Inl Changeset_Panic
            | Some ch \<Rightarrow> Inr (main, ch))),
      ov\<lparr>top_changes := overlayed_map_default, children := []\<rparr>)"

record ('r, 't) storage_transaction_cache =
  cache_transaction :: "'t option"
  cache_root :: "'r option"

record ('r, 't) storage_changes =
  main_storage_changes :: "(storage_key \<times> storage_value option) list"
  child_storage_changes :: "(storage_key \<times> (storage_key \<times> storage_value option) list) list"
  offchain_storage_changes :: "((storage_key \<times> storage_key) \<times> offchain_change) list"
  storage_transaction :: 't
  transaction_storage_root :: 'r
  transaction_index_changes :: "index_operation list"

text \<open>The backend, as far as the overlay calls it: the root and the database transaction
  for given changes.\<close>

type_synonym ('r, 't) full_storage_root =
  "(storage_key \<times> storage_value option) list \<Rightarrow>
   (child_info \<times> (storage_key \<times> storage_value option) list) list \<Rightarrow> 'r \<times> 't"

definition current_delta :: "change_set \<Rightarrow> (storage_key \<times> storage_value option) list" where
  "current_delta cs = map (\<lambda>(k, ts). (k, iv_value (hd ts))) (changes cs)"

definition storage_root ::
  "('r, 't) full_storage_root \<Rightarrow> ('r, 't) storage_transaction_cache \<Rightarrow> overlayed_changes \<Rightarrow>
   'r \<times> ('r, 't) storage_transaction_cache" where
  "storage_root full_storage_root cache ov =
     (case full_storage_root (current_delta (top_changes ov))
        (map (\<lambda>(_, cs, info). (info, current_delta cs)) (children ov)) of
        (root, tx) \<Rightarrow> (root, cache\<lparr>cache_transaction := Some tx, cache_root := Some root\<rparr>))"

definition drain_storage_changes ::
  "('r, 't) full_storage_root \<Rightarrow> ('r, 't) storage_transaction_cache \<Rightarrow> overlayed_changes \<Rightarrow>
   (changeset_error + ('r, 't) storage_changes) \<times> ('r, 't) storage_transaction_cache \<times> overlayed_changes" where
  "drain_storage_changes full_storage_root cache ov =
     (let cache1 = (if cache_transaction cache = None then snd (storage_root full_storage_root cache ov) else cache)
      in case cache_transaction cache1 of
        None \<Rightarrow> (Inl Changeset_Panic, cache1, ov)
      | Some tx \<Rightarrow>
          (case cache_root cache1 of
             None \<Rightarrow> (Inl Changeset_Panic, cache1\<lparr>cache_transaction := None\<rparr>, ov)
           | Some root \<Rightarrow>
               let cache2 = cache1\<lparr>cache_transaction := None, cache_root := None\<rparr>;
                   (drained, ov1) = drain_committed ov
               in case drained of
                 Inl e \<Rightarrow> (Inl e, cache2, ov1)
               | Inr (main, ch) \<Rightarrow>
                   let (off, ov2) = offchain_drain_committed ov1
                   in case off of
                     Inl e \<Rightarrow> (Inl e, cache2, ov2)
                   | Inr oc \<Rightarrow>
                       (Inr \<lparr>main_storage_changes = main, child_storage_changes = ch,
                          offchain_storage_changes = oc, storage_transaction = tx,
                          transaction_storage_root = root,
                          transaction_index_changes = transaction_index_ops ov2\<rparr>,
                        cache2, ov2\<lparr>transaction_index_ops := []\<rparr>)))"

section \<open>Sequences of operations\<close>

datatype change_op =
    Ov_Set storage_key "storage_value option"
  | Ov_Mutate storage_key storage_value "storage_value \<Rightarrow> storage_value"
  | Ov_Set_Child child_info storage_key "storage_value option"
  | Ov_Clear_Child child_info
  | Ov_Clear_Prefix storage_key
  | Ov_Clear_Child_Prefix child_info storage_key
  | Ov_Set_Offchain storage_key "storage_value option"
  | Ov_Add_Index index_operation
  | Ov_Collect bool
  | Ov_Start | Ov_Commit | Ov_Rollback | Ov_Enter | Ov_Exit

fun change_step ::
  "(u8 list \<Rightarrow> u32 option) \<Rightarrow> change_op \<Rightarrow> overlayed_changes \<Rightarrow>
   (changeset_error + unit) \<times> overlayed_changes" where
  "change_step dec (Ov_Set k v) ov = (Inr (), set_storage dec k v ov)"
| "change_step dec (Ov_Mutate k i f) ov = (Inr (), value_mut_or_insert_with dec k i f ov)"
| "change_step dec (Ov_Set_Child info k v) ov = set_child_storage dec info k v ov"
| "change_step dec (Ov_Clear_Child info) ov =
     (case clear_child_storage dec info ov of (r, ov') \<Rightarrow> (map_sum id (\<lambda>_. ()) r, ov'))"
| "change_step dec (Ov_Clear_Prefix p) ov = (Inr (), snd (clear_prefix dec p ov))"
| "change_step dec (Ov_Clear_Child_Prefix info p) ov =
     (case clear_child_prefix dec info p ov of (r, ov') \<Rightarrow> (map_sum id (\<lambda>_. ()) r, ov'))"
| "change_step dec (Ov_Set_Offchain k v) ov = (Inr (), set_offchain_storage k v ov)"
| "change_step dec (Ov_Add_Index x) ov = (Inr (), add_transaction_index x ov)"
| "change_step dec (Ov_Collect c) ov = (Inr (), set_collect_extrinsics c ov)"
| "change_step dec Ov_Start ov = (Inr (), overlay_start ov)"
| "change_step dec Ov_Commit ov = overlay_commit ov"
| "change_step dec Ov_Rollback ov = overlay_rollback ov"
| "change_step dec Ov_Enter ov = overlay_enter_runtime ov"
| "change_step dec Ov_Exit ov = overlay_exit_runtime ov"

fun change_steps ::
  "(u8 list \<Rightarrow> u32 option) \<Rightarrow> change_op list \<Rightarrow> overlayed_changes \<Rightarrow>
   (changeset_error + unit) list \<times> overlayed_changes" where
  "change_steps dec [] ov = ([], ov)"
| "change_steps dec (x # xs) ov =
     (case change_step dec x ov of (r, ov1) \<Rightarrow>
        (case change_steps dec xs ov1 of (rs, ov2) \<Rightarrow> (r # rs, ov2)))"

section \<open>The specification: one stack of layers\<close>

record layer_writes =
  top_writes :: "storage_key \<Rightarrow> storage_value option option"
  child_writes :: "storage_key \<Rightarrow> storage_key \<Rightarrow> storage_value option option"
  offchain_writes :: "storage_key \<times> storage_key \<Rightarrow> offchain_change option"

definition no_writes :: layer_writes where
  "no_writes = \<lparr>top_writes = Map.empty, child_writes = (\<lambda>_. Map.empty), offchain_writes = Map.empty\<rparr>"

definition merge_writes :: "layer_writes \<Rightarrow> layer_writes \<Rightarrow> layer_writes" where
  "merge_writes u l = \<lparr>top_writes = top_writes l ++ top_writes u,
     child_writes = (\<lambda>sk. child_writes l sk ++ child_writes u sk),
     offchain_writes = offchain_writes l ++ offchain_writes u\<rparr>"

definition child_update ::
  "storage_key \<Rightarrow> ((storage_key \<Rightarrow> storage_value option option) \<Rightarrow> storage_key \<Rightarrow> storage_value option option) \<Rightarrow>
   layer_writes \<Rightarrow> layer_writes" where
  "child_update sk f l = l\<lparr>child_writes := (child_writes l)(sk := f (child_writes l sk))\<rparr>"

text \<open>Deleting every key that has a value in the overlay and satisfies \<open>p\<close>.\<close>

definition delete_known ::
  "('k \<Rightarrow> bool) \<Rightarrow> ('k \<Rightarrow> 'w option option) \<Rightarrow> ('k \<Rightarrow> 'w option option) \<Rightarrow> 'k \<Rightarrow> 'w option option" where
  "delete_known p known l = (\<lambda>k. if known k \<noteq> None \<and> p k then Some None else l k)"

definition top_view :: "layer_writes list \<Rightarrow> storage_key \<Rightarrow> storage_value option option" where
  "top_view ls = values_view (map top_writes ls)"

definition child_view :: "layer_writes list \<Rightarrow> storage_key \<Rightarrow> storage_key \<Rightarrow> storage_value option option" where
  "child_view ls sk = values_view (map (\<lambda>l. child_writes l sk) ls)"

definition offchain_view :: "layer_writes list \<Rightarrow> storage_key \<times> storage_key \<Rightarrow> offchain_change option" where
  "offchain_view ls = values_view (map offchain_writes ls)"

text \<open>The layers, and how many of the lowest transactions are protected.\<close>

type_synonym writes_state = "layer_writes list \<times> nat option"

definition writes_closable :: "writes_state \<Rightarrow> bool" where
  "writes_closable s \<longleftrightarrow> (case snd s of None \<Rightarrow> 0 | Some n \<Rightarrow> n) < length (fst s) - 1"

fun spec_write :: "change_op \<Rightarrow> layer_writes list \<Rightarrow> layer_writes \<Rightarrow> layer_writes" where
  "spec_write (Ov_Set k v) ls l = l\<lparr>top_writes := (top_writes l)(k \<mapsto> v)\<rparr>"
| "spec_write (Ov_Mutate k i f) ls l = l\<lparr>top_writes := (top_writes l)(k \<mapsto>
     Some (f (case top_view ls k of None \<Rightarrow> i | Some None \<Rightarrow> [] | Some (Some v) \<Rightarrow> v)))\<rparr>"
| "spec_write (Ov_Set_Child info k v) ls l = child_update (child_storage_key info) (\<lambda>m. m(k \<mapsto> v)) l"
| "spec_write (Ov_Clear_Child info) ls l =
     child_update (child_storage_key info) (delete_known (\<lambda>_. True) (child_view ls (child_storage_key info))) l"
| "spec_write (Ov_Clear_Prefix p) ls l =
     l\<lparr>top_writes := delete_known (\<lambda>k. starts_with k p) (top_view ls) (top_writes l)\<rparr>"
| "spec_write (Ov_Clear_Child_Prefix info p) ls l = child_update (child_storage_key info)
     (delete_known (\<lambda>k. starts_with k p) (child_view ls (child_storage_key info))) l"
| "spec_write (Ov_Set_Offchain k v) ls l = l\<lparr>offchain_writes := (offchain_writes l)((STORAGE_PREFIX, k) \<mapsto>
     (case v of None \<Rightarrow> Remove | Some x \<Rightarrow> SetValue x))\<rparr>"
| "spec_write _ ls l = l"

fun spec_change :: "change_op \<Rightarrow> writes_state \<Rightarrow> (changeset_error + unit) \<times> writes_state" where
  "spec_change Ov_Start (ls, prot) = (Inr (), (no_writes # ls, prot))"
| "spec_change Ov_Commit (ls, prot) =
     (if writes_closable (ls, prot)
      then (Inr (), (merge_writes (hd ls) (hd (tl ls)) # tl (tl ls), prot))
      else (Inl NoOpenTransaction, (ls, prot)))"
| "spec_change Ov_Rollback (ls, prot) =
     (if writes_closable (ls, prot) then (Inr (), (tl ls, prot)) else (Inl NoOpenTransaction, (ls, prot)))"
| "spec_change Ov_Enter (ls, prot) =
     (case prot of None \<Rightarrow> (Inr (), (ls, Some (length ls - 1))) | Some n \<Rightarrow> (Inl AlreadyInRuntime, (ls, prot)))"
| "spec_change Ov_Exit (ls, prot) =
     (case prot of None \<Rightarrow> (Inl NotInRuntime, (ls, prot)) | Some n \<Rightarrow> (Inr (), (drop (length ls - Suc n) ls, None)))"
| "spec_change x (ls, prot) = (Inr (), (spec_write x ls (hd ls) # tl ls, prot))"

fun spec_changes :: "change_op list \<Rightarrow> writes_state \<Rightarrow> (changeset_error + unit) list \<times> writes_state" where
  "spec_changes [] s = ([], s)"
| "spec_changes (x # xs) s =
     (case spec_change x s of (r, s1) \<Rightarrow> (case spec_changes xs s1 of (rs, s2) \<Rightarrow> (r # rs, s2)))"

section \<open>Refinement\<close>

definition child_rel ::
  "(change_set \<times> child_info) option \<Rightarrow> storage_key \<Rightarrow> layer_writes list \<Rightarrow> nat option \<Rightarrow> bool" where
  "child_rel e sk ls prot \<longleftrightarrow>
     (case e of
        None \<Rightarrow> \<forall>l\<in>set ls. child_writes l sk = Map.empty
      | Some (cs, info) \<Rightarrow> child_storage_key info = sk \<and> overlay_values cs (map (\<lambda>l. child_writes l sk) ls) prot)"

definition changes_rel :: "overlayed_changes \<Rightarrow> writes_state \<Rightarrow> bool" where
  "changes_rel ov s \<longleftrightarrow> (case s of (ls, prot) \<Rightarrow>
     overlay_values (top_changes ov) (map top_writes ls) prot \<and>
     overlay_values (offchain ov) (map offchain_writes ls) prot \<and>
     bt_inv (children ov) \<and> (\<forall>sk. child_rel (bt_lookup (children ov) sk) sk ls prot))"

lemma changes_relD:
  assumes "changes_rel ov (ls, prot)"
  shows "overlay_values (top_changes ov) (map top_writes ls) prot"
    "overlay_values (offchain ov) (map offchain_writes ls) prot"
    "bt_inv (children ov)" "child_rel (bt_lookup (children ov) sk) sk ls prot"
  using assms by (auto simp: changes_rel_def)

lemma child_rel_simps:
  "child_rel None sk ls prot \<longleftrightarrow> (\<forall>l\<in>set ls. child_writes l sk = Map.empty)"
  "child_rel (Some (cs, info)) sk ls prot \<longleftrightarrow>
     child_storage_key info = sk \<and> overlay_values cs (map (\<lambda>l. child_writes l sk) ls) prot"
  by (simp_all add: child_rel_def)

lemma changes_rel_default: "changes_rel overlayed_changes_default ([no_writes], None)"
  by (simp add: changes_rel_def overlayed_changes_default_def no_writes_def overlay_values_default
      child_rel_def bt_lookup_def)

lemma changes_rel_reads:
  assumes "changes_rel ov (ls, prot)"
  shows "storage ov k = top_view ls k" "child_storage ov info k = child_view ls (child_storage_key info) k"
    "offchain_get (offchain ov) p k = offchain_view ls (p, k)" "overlay_depth ov = length ls - 1"
proof -
  have r: "overlay_values (top_changes ov) (map top_writes ls) prot"
    "overlay_values (offchain ov) (map offchain_writes ls) prot"
    "child_rel (bt_lookup (children ov) (child_storage_key info)) (child_storage_key info) ls prot"
    using assms by (auto simp: changes_rel_def)
  show "storage ov k = top_view ls k" "offchain_get (offchain ov) p k = offchain_view ls (p, k)"
    using cs.rel_read [OF r(1)] cs.rel_read [OF r(2)]
    by (simp_all add: storage_def top_view_def offchain_get_def offchain_view_def)
  show "overlay_depth ov = length ls - 1" using overlay_values_depth [OF r(1)] by (simp add: overlay_depth_def)
  have empty: "values_view (map (\<lambda>l. child_writes l sk) ls) k = None"
    if "\<forall>l\<in>set ls. child_writes l sk = Map.empty" for sk
    using that by (induction ls) auto
  show "child_storage ov info k = child_view ls (child_storage_key info) k"
  proof (cases "bt_lookup (children ov) (child_storage_key info)")
    case None
    then show ?thesis using r(3) empty by (simp add: child_storage_def child_view_def child_rel_def)
  next
    case (Some e)
    obtain cs i where e: "e = (cs, i)" by (cases e)
    have "overlay_values cs (map (\<lambda>l. child_writes l (child_storage_key info)) ls) prot"
      using r(3) by (simp add: child_rel_def Some e)
    from cs.rel_read [OF this] show ?thesis by (simp add: child_storage_def child_view_def Some e)
  qed
qed

text \<open>Looping over the children.\<close>

lemma retain_children_rel:
  assumes "bt_inv ch" "\<forall>k cs info. bt_lookup ch k = Some (cs, info) \<longrightarrow> (\<exists>cs'. f cs = (Inr (), cs'))"
  shows "\<exists>ch'. retain_children keep f ch = (Inr (), ch') \<and> bt_inv ch' \<and>
    (\<forall>k. bt_lookup ch' k = (case bt_lookup ch k of None \<Rightarrow> None
        | Some (cs, info) \<Rightarrow> if keep (snd (f cs)) then Some (snd (f cs), info) else None)) \<and>
    fst ` set ch' \<subseteq> fst ` set ch"
  using assms
proof (induction ch)
  case (Cons e rest)
  obtain k cs info where e: "e = (k, cs, info)" by (metis prod.exhaust)
  have inv: "bt_inv rest" "bt_lookup rest k = None" using Cons.prems(1) by (auto simp: e bt_lookup_None)
  have "bt_lookup (e # rest) k = Some (cs, info)" by (simp add: e bt_lookup_Cons)
  then obtain cs' where f: "f cs = (Inr (), cs')" using Cons.prems(2) by blast
  have "bt_lookup (e # rest) j = Some c" if "bt_lookup rest j = Some c" for j c
    using that inv(2) by (auto simp: e bt_lookup_Cons)
  then have "\<forall>k cs info. bt_lookup rest k = Some (cs, info) \<longrightarrow> (\<exists>cs'. f cs = (Inr (), cs'))"
    using Cons.prems(2) by blast
  then obtain rest' where r: "retain_children keep f rest = (Inr (), rest')" "bt_inv rest'"
    "\<forall>k. bt_lookup rest' k = (case bt_lookup rest k of None \<Rightarrow> None
        | Some (cs, info) \<Rightarrow> if keep (snd (f cs)) then Some (snd (f cs), info) else None)"
    "fst ` set rest' \<subseteq> fst ` set rest"
    using Cons.IH inv(1) by blast
  let ?ch' = "if keep cs' then (k, cs', info) # rest' else rest'"
  have "retain_children keep f (e # rest) = (Inr (), ?ch')" by (simp add: e f r(1))
  moreover have "bt_inv ?ch'"
  proof -
    have "\<forall>j\<in>fst ` set rest. k < j" using Cons.prems(1) by (simp add: e)
    then have "bt_inv ((k, cs', info) # rest')" using r(2,4) unfolding bt_inv_simps by blast
    then show ?thesis using r(2) by presburger
  qed
  moreover have "bt_lookup ?ch' j = (case bt_lookup (e # rest) j of None \<Rightarrow> None
      | Some (cs, info) \<Rightarrow> if keep (snd (f cs)) then Some (snd (f cs), info) else None)" for j
    using r(3) inv(2) f by (cases "j = k") (simp_all add: e bt_lookup_Cons)
  moreover have "fst ` set ?ch' \<subseteq> fst ` set (e # rest)" using r(4) by (auto simp: e)
  ultimately show ?case by blast
qed (simp add: bt_lookup_def)

lemma lockstep_rel:
  assumes rel: "changes_rel ov (ls, prot)"
    and f: "\<And>cs g. overlay_values cs (map g ls) prot \<Longrightarrow> lin g \<Longrightarrow>
      \<exists>cs'. f cs = (Inr (), cs') \<and> overlay_values cs' (map g ls') prot'"
    and h: "\<exists>oc. h (offchain ov) = (Inr (), oc) \<and> overlay_values oc (map offchain_writes ls') prot'"
    and lin: "lin top_writes" "\<And>sk. lin (\<lambda>l. child_writes l sk)"
    and keep: "\<And>cs. keep cs \<or> is_empty cs"
    and absent: "\<And>sk. \<forall>l\<in>set ls. child_writes l sk = Map.empty \<Longrightarrow> \<forall>l\<in>set ls'. child_writes l sk = Map.empty"
  shows "\<exists>ov'. lockstep f (retain_children keep f) h ov = (Inr (), ov') \<and> changes_rel ov' (ls', prot')"
proof -
  have "overlay_values (top_changes ov) (map top_writes ls) prot" using rel by (simp add: changes_rel_def)
  from f [OF this lin(1)] obtain t
    where t: "f (top_changes ov) = (Inr (), t)" "overlay_values t (map top_writes ls') prot'" by blast
  from h obtain oc
    where oc: "h (offchain ov) = (Inr (), oc)" "overlay_values oc (map offchain_writes ls') prot'" by blast
  have child: "\<exists>cs'. f cs = (Inr (), cs') \<and> overlay_values cs' (map (\<lambda>l. child_writes l sk) ls') prot'"
      and key: "child_storage_key info = sk" if "bt_lookup (children ov) sk = Some (cs, info)" for sk cs info
  proof -
    have c: "child_storage_key info = sk" "overlay_values cs (map (\<lambda>l. child_writes l sk) ls) prot"
      using changes_relD(4) [OF rel, of sk] unfolding that child_rel_simps by (rule conjunct1, rule conjunct2)
    show "\<exists>cs'. f cs = (Inr (), cs') \<and> overlay_values cs' (map (\<lambda>l. child_writes l sk) ls') prot'"
      by (rule f [OF c(2) lin(2)])
    show "child_storage_key info = sk" by (rule c(1))
  qed
  have "\<forall>k cs info. bt_lookup (children ov) k = Some (cs, info) \<longrightarrow> (\<exists>cs'. f cs = (Inr (), cs'))"
    using child by blast
  then obtain ch where ch: "retain_children keep f (children ov) = (Inr (), ch)" "bt_inv ch"
    "\<forall>k. bt_lookup ch k = (case bt_lookup (children ov) k of None \<Rightarrow> None
        | Some (cs, info) \<Rightarrow> if keep (snd (f cs)) then Some (snd (f cs), info) else None)"
    using retain_children_rel [OF changes_relD(3) [OF rel]] by blast
  have "child_rel (bt_lookup ch sk) sk ls' prot'" for sk
  proof (cases "bt_lookup (children ov) sk")
    case None
    have "\<forall>l\<in>set ls. child_writes l sk = Map.empty"
      using changes_relD(4) [OF rel, of sk] unfolding None child_rel_simps .
    from absent [OF this] show ?thesis using ch(3) None by (simp add: child_rel_simps)
  next
    case (Some e)
    then obtain cs info where e: "bt_lookup (children ov) sk = Some (cs, info)" by (cases e) simp
    obtain cs' where cs': "f cs = (Inr (), cs')" "overlay_values cs' (map (\<lambda>l. child_writes l sk) ls') prot'"
      using child [OF e] by blast
    then show ?thesis
      using key [OF e] ch(3) e keep [of cs'] overlay_values_empty [OF cs'(2)] by (auto simp: child_rel_simps)
  qed
  then show ?thesis using t oc ch by (simp add: lockstep_def changes_rel_def)
qed

lemma closable_map: "closable prot (map g ls) = writes_closable (ls, prot)"
  by (simp add: closable_def writes_closable_def)

lemma overlay_rollback_rel:
  assumes "changes_rel ov (ls, prot)" "writes_closable (ls, prot)"
  shows "\<exists>ov'. overlay_rollback ov = (Inr (), ov') \<and> changes_rel ov' (tl ls, prot)"
  unfolding overlay_rollback_def
proof (rule lockstep_rel [OF assms(1), where lin = "\<lambda>_. True"])
  fix cs and g :: "layer_writes \<Rightarrow> storage_key \<Rightarrow> storage_value option option"
  assume "overlay_values cs (map g ls) prot"
  from cs.rel_rollback [OF this] show "\<exists>cs'. rollback_transaction cs = (Inr (), cs') \<and> overlay_values cs' (map g (tl ls)) prot"
    using assms(2) by (simp add: closable_map map_tl)
next
  show "\<exists>oc. rollback_transaction (offchain ov) = (Inr (), oc) \<and> overlay_values oc (map offchain_writes (tl ls)) prot"
    using cs.rel_rollback [OF changes_relD(2) [OF assms(1)]] assms(2) by (simp add: closable_map map_tl)
next
  fix sk assume "\<forall>l\<in>set ls. child_writes l sk = Map.empty"
  then show "\<forall>l\<in>set (tl ls). child_writes l sk = Map.empty" by (cases ls) auto
qed auto

lemma overlay_commit_rel:
  assumes "changes_rel ov (ls, prot)" "writes_closable (ls, prot)"
  shows "\<exists>ov'. overlay_commit ov = (Inr (), ov') \<and>
    changes_rel ov' (merge_writes (hd ls) (hd (tl ls)) # tl (tl ls), prot)"
  unfolding overlay_commit_def for_children_def
proof -
  obtain u l rest where ls: "ls = u # l # rest"
    using assms(2) by (cases ls; cases "tl ls") (auto simp: writes_closable_def)
  have merge: "\<exists>m'. commit_transaction m = (Inr (), m') \<and> overlay_values m' (map g (merge_writes u l # rest)) prot"
    if "overlay_values m (map g ls) prot" "g (merge_writes u l) = g l ++ g u"
    for m :: "('k :: linorder, 'v) overlayed_map" and g
    using cs.rel_commit [of m "g u" "g l" "map g rest" prot] that assms(2)
      closable_map [of prot g ls] by (simp add: ls)
  show "\<exists>ov'. lockstep commit_transaction (retain_children (\<lambda>_. True) commit_transaction) commit_transaction ov =
      (Inr (), ov') \<and> changes_rel ov' (merge_writes (hd ls) (hd (tl ls)) # tl (tl ls), prot)"
  proof (rule lockstep_rel [OF assms(1), where lin = "\<lambda>g. g (merge_writes u l) = g l ++ g u"])
    fix cs and g :: "layer_writes \<Rightarrow> storage_key \<Rightarrow> storage_value option option"
    assume "overlay_values cs (map g ls) prot" "g (merge_writes u l) = g l ++ g u"
    from merge [OF this] show "\<exists>cs'. commit_transaction cs = (Inr (), cs') \<and>
        overlay_values cs' (map g (merge_writes (hd ls) (hd (tl ls)) # tl (tl ls))) prot" by (simp add: ls)
  next
    show "\<exists>oc. commit_transaction (offchain ov) = (Inr (), oc) \<and>
        overlay_values oc (map offchain_writes (merge_writes (hd ls) (hd (tl ls)) # tl (tl ls))) prot"
      using merge [OF changes_relD(2) [OF assms(1)]] by (simp add: ls merge_writes_def)
  qed (auto simp: merge_writes_def ls)
qed

lemma overlay_enter_rel:
  assumes "changes_rel ov (ls, None)"
  shows "\<exists>ov'. overlay_enter_runtime ov = (Inr (), ov') \<and> changes_rel ov' (ls, Some (length ls - 1))"
  unfolding overlay_enter_runtime_def for_children_def
proof (rule lockstep_rel [OF assms, where lin = "\<lambda>_. True"])
  show "\<exists>oc. enter_runtime (offchain ov) = (Inr (), oc) \<and>
      overlay_values oc (map offchain_writes ls) (Some (length ls - 1))"
    using cs.rel_enter [OF changes_relD(2) [OF assms]] by simp
qed (use cs.rel_enter in fastforce)+

lemma overlay_exit_rel:
  assumes "changes_rel ov (ls, Some n)"
  shows "\<exists>ov'. overlay_exit_runtime ov = (Inr (), ov') \<and> changes_rel ov' (drop (length ls - Suc n) ls, None)"
  unfolding overlay_exit_runtime_def for_children_def
proof (rule lockstep_rel [OF assms, where lin = "\<lambda>_. True"])
  show "\<exists>oc. exit_runtime (offchain ov) = (Inr (), oc) \<and>
      overlay_values oc (map offchain_writes (drop (length ls - Suc n) ls)) None"
    using cs.rel_exit [OF changes_relD(2) [OF assms]] by (simp add: drop_map)
  fix cs and g :: "layer_writes \<Rightarrow> storage_key \<Rightarrow> storage_value option option"
  assume "overlay_values cs (map g ls) (Some n)"
  from cs.rel_exit [OF this] show "\<exists>cs'. exit_runtime cs = (Inr (), cs') \<and>
      overlay_values cs' (map g (drop (length ls - Suc n) ls)) None" by (simp add: drop_map)
qed (auto dest: in_set_dropD)

lemma overlay_refused_rel:
  assumes "changes_rel ov (ls, prot)"
  shows "\<not> writes_closable (ls, prot) \<Longrightarrow> overlay_rollback ov = (Inl NoOpenTransaction, ov)"
    "\<not> writes_closable (ls, prot) \<Longrightarrow> overlay_commit ov = (Inl NoOpenTransaction, ov)"
    "prot = Some n \<Longrightarrow> overlay_enter_runtime ov = (Inl AlreadyInRuntime, ov)"
    "prot = None \<Longrightarrow> overlay_exit_runtime ov = (Inl NotInRuntime, ov)"
proof -
  note rel = changes_relD(1) [OF assms]
  show "\<not> writes_closable (ls, prot) \<Longrightarrow> overlay_rollback ov = (Inl NoOpenTransaction, ov)"
    "\<not> writes_closable (ls, prot) \<Longrightarrow> overlay_commit ov = (Inl NoOpenTransaction, ov)"
    using cs.rel_refused [OF rel] by (simp_all add: closable_map overlay_rollback_def overlay_commit_def lockstep_def)
  show "prot = Some n \<Longrightarrow> overlay_enter_runtime ov = (Inl AlreadyInRuntime, ov)"
    using cs.rel_enter_refused rel by (fastforce simp: overlay_enter_runtime_def lockstep_def)
  show "prot = None \<Longrightarrow> overlay_exit_runtime ov = (Inl NotInRuntime, ov)"
    using cs.rel_exit_refused rel by (fastforce simp: overlay_exit_runtime_def lockstep_def)
qed

lemma overlay_start_rel:
  assumes "changes_rel ov (ls, prot)"
  shows "changes_rel (overlay_start ov) (no_writes # ls, prot)"
proof -
  have look: "bt_lookup (map (\<lambda>(k, cs, info). (k, start_transaction cs, info)) ch) sk =
      map_option (\<lambda>(cs, info). (start_transaction cs, info)) (bt_lookup ch sk)" for ch :: "(storage_key \<times> change_set \<times> child_info) list" and sk
    by (induction ch) (auto simp: bt_lookup_def)
  have inv: "bt_inv (map (\<lambda>(k, cs, info). (k, start_transaction cs, info)) (children ov))"
    using changes_relD(3) [OF assms] by (auto simp: bt_inv_def comp_def case_prod_beta)
  have "child_rel (bt_lookup (children (overlay_start ov)) sk) sk (no_writes # ls) prot" for sk
    using changes_relD(4) [OF assms, of sk] cs.rel_start
    by (cases "bt_lookup (children ov) sk") (fastforce simp: overlay_start_def look child_rel_simps no_writes_def)+
  then show ?thesis using cs.rel_start [OF changes_relD(1) [OF assms]] cs.rel_start [OF changes_relD(2) [OF assms]] inv
    by (simp add: changes_rel_def overlay_start_def no_writes_def)
qed

lemma child_rel_other [simp]:
  "child_rel e sk (l\<lparr>top_writes := m\<rparr> # ls) prot = child_rel e sk (l # ls) prot"
  "child_rel e sk (l\<lparr>offchain_writes := m'\<rparr> # ls) prot = child_rel e sk (l # ls) prot"
  by (simp_all add: child_rel_def split: option.splits)

lemma changes_rel_top:
  assumes "changes_rel ov (l # ls, prot)" "overlay_values t (m # map top_writes ls) prot"
  shows "changes_rel (ov\<lparr>top_changes := t\<rparr>) (l\<lparr>top_writes := m\<rparr> # ls, prot)"
  using assms by (simp add: changes_rel_def)

lemma changes_rel_offchain:
  assumes "changes_rel ov (l # ls, prot)" "overlay_values t (m # map offchain_writes ls) prot"
  shows "changes_rel (ov\<lparr>offchain := t\<rparr>) (l\<lparr>offchain_writes := m\<rparr> # ls, prot)"
  using assms by (simp add: changes_rel_def)

lemma changes_rel_other:
  "changes_rel ov s \<Longrightarrow> changes_rel (ov\<lparr>transaction_index_ops := x\<rparr>) s"
  "changes_rel ov s \<Longrightarrow> changes_rel (ov\<lparr>collect_extrinsics := c\<rparr>) s"
  by (simp_all add: changes_rel_def)

text \<open>The change set of a child, existing or spawned, represents the child's writes.\<close>

lemma child_entry_rel:
  assumes "changes_rel ov (ls, prot)" "child_storage_key info = sk"
  obtains cs i where
    "(case bt_lookup (children ov) sk of None \<Rightarrow> (spawn_child (top_changes ov), info) | Some e \<Rightarrow> e) = (cs, i)"
    "overlay_values cs (map (\<lambda>l. child_writes l sk) ls) prot" "child_storage_key i = sk"
proof (cases "bt_lookup (children ov) sk")
  case None
  have "\<forall>l\<in>set ls. child_writes l sk = Map.empty"
    using changes_relD(4) [OF assms(1), of sk] unfolding None child_rel_simps .
  then have "map (\<lambda>l. child_writes l sk) ls = replicate (length ls) Map.empty" by (induction ls) auto
  then show thesis using that overlay_values_spawn [OF changes_relD(1) [OF assms(1)]] None assms(2) by simp
next
  case (Some e)
  obtain cs i where e: "e = (cs, i)" by (cases e)
  show thesis using that [of cs i] changes_relD(4) [OF assms(1), of sk] by (simp add: Some e child_rel_simps)
qed

lemma with_child_rel:
  assumes rel: "changes_rel ov (l # ls, prot)" and sk: "sk = child_storage_key info"
    and f: "\<And>cs. overlay_values cs (child_writes l sk # map (\<lambda>l. child_writes l sk) ls) prot \<Longrightarrow>
      overlay_values (snd (f cs)) (g (child_writes l sk) # map (\<lambda>l. child_writes l sk) ls) prot"
  shows "\<exists>r ov'. with_child info f ov = (Inr r, ov') \<and> changes_rel ov' (child_update sk g l # ls, prot)"
proof -
  obtain cs i where e: "(case bt_lookup (children ov) sk of None \<Rightarrow> (spawn_child (top_changes ov), info) | Some e \<Rightarrow> e) = (cs, i)"
    and v: "overlay_values cs (map (\<lambda>l. child_writes l sk) (l # ls)) prot"
    and i: "child_storage_key i = sk" by (rule child_entry_rel [OF rel sk [symmetric]])
  obtain r cs' where cs': "f cs = (r, cs')" by (cases "f cs")
  have "try_update i info" using i sk by (cases i; cases info) simp
  then have w: "with_child info f ov = (Inr r, ov\<lparr>children := bt_insert sk (cs', i) (children ov)\<rparr>)"
    by (simp add: with_child_def sk [symmetric] e cs')
  note inv = changes_relD(3) [OF rel]
  have "overlay_values cs' (g (child_writes l sk) # map (\<lambda>l. child_writes l sk) ls) prot"
    using f [of cs] v cs' by simp
  then have "child_rel (bt_lookup (bt_insert sk (cs', i) (children ov)) j) j (child_update sk g l # ls) prot" for j
    using changes_relD(4) [OF rel, of j] i
    by (cases "j = sk"; cases "bt_lookup (children ov) j")
      (auto simp: bt_lookup_insert [OF inv] child_rel_simps child_update_def child_rel_def)
  then have "changes_rel (ov\<lparr>children := bt_insert sk (cs', i) (children ov)\<rparr>) (child_update sk g l # ls, prot)"
    using changes_relD(1,2) [OF rel] bt_inv_insert [OF inv] by (simp add: changes_rel_def child_update_def)
  then show ?thesis using w by blast
qed

lemma overlay_values_delete:
  "overlay_values m (l # ls) prot \<Longrightarrow> known = values_view (l # ls) \<Longrightarrow>
     overlay_values (snd (clear_where (\<lambda>k _. p k) at m)) (delete_known p known l # ls) prot"
  using overlay_values_clear unfolding delete_known_def by blast

lemma change_write_refines:
  assumes rel: "changes_rel ov (l # ls, prot)" and x: "x \<notin> {Ov_Start, Ov_Commit, Ov_Rollback, Ov_Enter, Ov_Exit}"
  shows "\<exists>ov'. change_step dec x ov = (Inr (), ov') \<and> changes_rel ov' (spec_write x (l # ls) l # ls, prot)"
proof -
  note top = changes_relD(1) [OF rel, simplified] and off = changes_relD(2) [OF rel, simplified]
  show ?thesis
  proof (cases x)
    case (Ov_Set k v)
    then show ?thesis using changes_rel_top [OF rel overlay_values_set [OF top]] by (simp add: set_storage_def)
  next
    case (Ov_Mutate k i f)
    have "(case case top_view (l # ls) k of None \<Rightarrow> Some i | Some v \<Rightarrow> v of None \<Rightarrow> [] | Some x \<Rightarrow> x) =
        (case top_view (l # ls) k of None \<Rightarrow> i | Some None \<Rightarrow> [] | Some (Some v) \<Rightarrow> v)"
      by (auto split: option.splits)
    with changes_rel_top [OF rel overlay_values_modify [OF top, of k i "extrinsic_index dec ov"
          "\<lambda>v. Some (f (case v of None \<Rightarrow> [] | Some x \<Rightarrow> x))"]]
    show ?thesis using Ov_Mutate by (simp add: value_mut_or_insert_with_def top_view_def)
  next
    case (Ov_Clear_Prefix p)
    then show ?thesis
      using changes_rel_top [OF rel overlay_values_delete [OF top refl]]
      by (simp add: clear_prefix_def top_view_def case_prod_beta)
  next
    case (Ov_Set_Offchain k v)
    then show ?thesis
      using changes_rel_offchain [OF rel overlay_values_set [OF off]]
      by (cases v) (simp_all add: set_offchain_storage_def offchain_set_def offchain_remove_def)
  next
    case (Ov_Set_Child info k v)
    let ?f = "\<lambda>cs. ((), map_set k v (extrinsic_index dec ov) cs)"
    have "\<exists>r ov'. with_child info ?f ov = (Inr r, ov') \<and>
        changes_rel ov' (child_update (child_storage_key info) (\<lambda>m. m(k \<mapsto> v)) l # ls, prot)"
      by (rule with_child_rel [OF rel refl]) (simp add: overlay_values_set)
    then show ?thesis by (simp add: Ov_Set_Child set_child_storage_def)
  next
    case (Ov_Clear_Child info)
    let ?sk = "child_storage_key info"
    have "\<exists>r ov'. with_child info (clear_where (\<lambda>_ _. True) (extrinsic_index dec ov)) ov = (Inr r, ov') \<and>
        changes_rel ov' (child_update ?sk (delete_known (\<lambda>_. True) (child_view (l # ls) ?sk)) l # ls, prot)"
      by (rule with_child_rel [OF rel refl], rule overlay_values_delete) (simp_all add: child_view_def)
    then show ?thesis by (auto simp: Ov_Clear_Child clear_child_storage_def)
  next
    case (Ov_Clear_Child_Prefix info p)
    let ?sk = "child_storage_key info"
    have "\<exists>r ov'. with_child info (clear_where (\<lambda>key _. starts_with key p) (extrinsic_index dec ov)) ov = (Inr r, ov') \<and>
        changes_rel ov' (child_update ?sk (delete_known (\<lambda>k. starts_with k p) (child_view (l # ls) ?sk)) l # ls, prot)"
      by (rule with_child_rel [OF rel refl], rule overlay_values_delete) (simp_all add: child_view_def)
    then show ?thesis by (auto simp: Ov_Clear_Child_Prefix clear_child_prefix_def)
  qed (use rel x changes_rel_other in \<open>auto simp: add_transaction_index_def set_collect_extrinsics_def\<close>)
qed

lemma changes_rel_nonempty: "changes_rel ov (ls, prot) \<Longrightarrow> ls \<noteq> []"
  using cs.rel_nonempty changes_relD(1) by fastforce

lemma change_step_refines:
  assumes rel: "changes_rel ov s" and sp: "spec_change x s = (r, s')"
  shows "\<exists>ov'. change_step dec x ov = (r, ov') \<and> changes_rel ov' s'"
proof -
  obtain ls prot where s: "s = (ls, prot)" by (cases s)
  note rel = rel [unfolded s] and sp = sp [unfolded s]
  obtain l rest where ls: "ls = l # rest" using changes_rel_nonempty [OF rel] by (cases ls) auto
  show ?thesis
  proof (cases "x \<in> {Ov_Start, Ov_Commit, Ov_Rollback, Ov_Enter, Ov_Exit}")
    case False
    then have "spec_change x (ls, prot) = (Inr (), (spec_write x ls (hd ls) # tl ls, prot))" by (cases x) auto
    then show ?thesis using change_write_refines [OF rel [unfolded ls] False] sp by (simp add: ls)
  next
    case True
    then consider "x = Ov_Start" | "x = Ov_Commit" | "x = Ov_Rollback" | "x = Ov_Enter" | "x = Ov_Exit" by blast
    then show ?thesis
    proof cases
      case 1
      then show ?thesis using overlay_start_rel [OF rel] sp by simp
    next
      case 2
      then show ?thesis using overlay_commit_rel [OF rel] overlay_refused_rel(2) [OF rel] rel sp
        by (cases "writes_closable (ls, prot)") auto
    next
      case 3
      then show ?thesis using overlay_rollback_rel [OF rel] overlay_refused_rel(1) [OF rel] rel sp
        by (cases "writes_closable (ls, prot)") auto
    next
      case 4
      then show ?thesis using overlay_enter_rel overlay_refused_rel(3) [OF rel] rel sp by (cases prot) auto
    next
      case 5
      then show ?thesis using overlay_exit_rel overlay_refused_rel(4) [OF rel] rel sp by (cases prot) auto
    qed
  qed
qed

lemma change_steps_refines:
  assumes "changes_rel ov s" "spec_changes xs s = (rs, s')"
  shows "\<exists>ov'. change_steps dec xs ov = (rs, ov') \<and> changes_rel ov' s'"
  using assms
proof (induction xs arbitrary: ov s rs)
  case (Cons x xs)
  obtain r s1 where s1: "spec_change x s = (r, s1)" by (cases "spec_change x s")
  obtain rs2 where rs2: "spec_changes xs s1 = (rs2, s')" "rs = r # rs2"
    using Cons.prems(2) s1 by (auto split: prod.splits)
  obtain ov1 where ov1: "change_step dec x ov = (r, ov1)" "changes_rel ov1 s1"
    using change_step_refines [OF Cons.prems(1) s1] by blast
  obtain ov2 where "change_steps dec xs ov1 = (rs2, ov2)" "changes_rel ov2 s'"
    using Cons.IH [OF ov1(2) rs2(1)] by blast
  then show ?case using ov1 rs2(2) by simp
qed auto

section \<open>Properties\<close>

text \<open>C14: The changes of a block are one stack of layers: for every sequence of
  operations on top storage, child storages, offchain storage and transactions, the
  results are those of the specification, in which a commit or rollback acts on all
  storages at once. In particular none of the lockstep expectations fails. All reads are
  those of the specification.\<close>

theorem changes_refine_layers:
  "case spec_changes ops ([no_writes], None) of (rs, ls, prot) \<Rightarrow>
     (case change_steps dec ops overlayed_changes_default of (rs', ov) \<Rightarrow>
        rs' = rs \<and> overlay_depth ov = length ls - 1 \<and>
        (\<forall>k. storage ov k = top_view ls k) \<and>
        (\<forall>info k. child_storage ov info k = child_view ls (child_storage_key info) k) \<and>
        (\<forall>p k. offchain_get (offchain ov) p k = offchain_view ls (p, k)))"
proof -
  obtain rs ls prot where sp: "spec_changes ops ([no_writes], None) = (rs, ls, prot)" by (metis prod.collapse)
  obtain ov where ov: "change_steps dec ops overlayed_changes_default = (rs, ov)" "changes_rel ov (ls, prot)"
    using change_steps_refines [OF changes_rel_default sp] by blast
  note changes_rel_reads [OF ov(2)]
  then show ?thesis using sp ov(1) by simp
qed

text \<open>The committed changes of one map.\<close>

lemma overlay_values_entries:
  assumes "overlay_values m vs prot"
  shows "list_ex (\<lambda>(_, ts). ts = []) (changes m) = False" "bt_inv (changes m)"
    "map_of (map (\<lambda>(k, ts). (k, iv_value (hd ts))) (changes m)) k = read_value m k"
proof -
  obtain s where s: "stack_rel m s" using assms by (auto simp: overlay_values_def overlay_rel_simps)
  then show inv: "bt_inv (changes m)" by (simp add: stack_rel_def)
  have nonempty: "ts \<noteq> []" if "(k, ts) \<in> set (changes m)" for k ts
  proof -
    have "bt_lookup (changes m) k = Some ts"
      using that bt_inv_distinct [OF inv] by (simp add: bt_lookup_def)
    then show ?thesis using s by (auto simp: stack_rel_def lookup_versions_def split: if_splits)
  qed
  then show "list_ex (\<lambda>(_, ts). ts = []) (changes m) = False" by (auto simp: list_ex_iff)
  have "map_of (map (\<lambda>(k, ts). (k, iv_value (hd ts))) es) k = Option.bind (bt_lookup es k) value_ref"
    if "\<forall>(k, ts)\<in>set es. ts \<noteq> []" for es :: "('a \<times> 'b overlayed_entry) list"
    using that
  proof (induction es)
    case (Cons e es)
    obtain j ts where e: "e = (j, ts)" by (cases e)
    show ?case using Cons by (cases ts) (auto simp: e bt_lookup_Cons)
  qed (simp add: bt_lookup_def)
  then show "map_of (map (\<lambda>(k, ts). (k, iv_value (hd ts))) (changes m)) k = read_value m k"
    using nonempty by (auto simp: read_value_def map_get_def)
qed

lemma drain_commited_values:
  assumes "overlay_values m vs prot"
  shows "length vs = 1 \<Longrightarrow> \<exists>xs. drain_commited m = Inr xs \<and> map_of xs = read_value m \<and> sorted_wrt (<) (map fst xs)"
    "length vs \<noteq> 1 \<Longrightarrow> drain_commited m = Inl Changeset_Panic"
proof -
  have d: "transaction_depth m = length vs - 1" "vs \<noteq> []"
    using overlay_values_depth [OF assms] cs.rel_nonempty [OF assms] by simp_all
  show "length vs \<noteq> 1 \<Longrightarrow> drain_commited m = Inl Changeset_Panic"
    using d by (cases vs) (auto simp: drain_commited_def)
  show "\<exists>xs. drain_commited m = Inr xs \<and> map_of xs = read_value m \<and> sorted_wrt (<) (map fst xs)" if "length vs = 1"
    using d that overlay_values_entries [OF assms]
    by (auto simp: drain_commited_def fun_eq_iff bt_inv_def comp_def case_prod_beta)
qed

lemma drain_children:
  assumes "\<And>k cs info. (k, cs, info) \<in> set ch \<Longrightarrow> \<exists>xs. drain_commited cs = Inr xs \<and> map_of xs = read_value cs"
  shows "\<exists>out. those (map (\<lambda>(k, cs, _). case drain_commited cs of Inl _ \<Rightarrow> None | Inr xs \<Rightarrow> Some (k, xs)) ch) = Some out \<and>
    (\<forall>sk. map_option map_of (map_of out sk) = map_option (\<lambda>(cs, _). read_value cs) (bt_lookup ch sk))"
  using assms
proof (induction ch)
  case (Cons e ch)
  obtain k cs info where e: "e = (k, cs, info)" by (metis prod.exhaust)
  obtain xs where xs: "drain_commited cs = Inr xs" "map_of xs = read_value cs"
    using Cons.prems [of k cs info] by (auto simp: e)
  obtain out where out: "those (map (\<lambda>(k, cs, _). case drain_commited cs of Inl _ \<Rightarrow> None | Inr xs \<Rightarrow> Some (k, xs)) ch) = Some out"
    "\<forall>sk. map_option map_of (map_of out sk) = map_option (\<lambda>(cs, _). read_value cs) (bt_lookup ch sk)"
    using Cons by fastforce
  then show ?case using xs by (auto simp: e bt_lookup_Cons)
qed (simp add: bt_lookup_def)

lemma drain_committed_rel:
  assumes "changes_rel ov ([l], prot)"
  shows "\<exists>main ch. drain_committed ov = (Inr (main, ch), ov\<lparr>top_changes := overlayed_map_default, children := []\<rparr>) \<and>
    map_of main = storage ov \<and> sorted_wrt (<) (map fst main) \<and>
    (\<forall>info k. Option.bind (map_of ch (child_storage_key info)) (\<lambda>xs. map_of xs k) = child_storage ov info k)"
proof -
  obtain main where main: "drain_commited (top_changes ov) = Inr main" "map_of main = read_value (top_changes ov)"
    "sorted_wrt (<) (map fst main)"
    using drain_commited_values(1) [OF changes_relD(1) [OF assms]] by auto
  have "\<exists>xs. drain_commited cs = Inr xs \<and> map_of xs = read_value cs" if "(k, cs, info) \<in> set (children ov)" for k cs info
  proof -
    have "bt_lookup (children ov) k = Some (cs, info)"
      using that bt_inv_distinct [OF changes_relD(3) [OF assms]] by (simp add: bt_lookup_def)
    then have "overlay_values cs [child_writes l k] prot"
      using changes_relD(4) [OF assms, of k] by (simp add: child_rel_simps)
    then show ?thesis using drain_commited_values(1) by fastforce
  qed
  then obtain ch where ch: "those (map (\<lambda>(k, cs, _). case drain_commited cs of Inl _ \<Rightarrow> None | Inr xs \<Rightarrow> Some (k, xs))
      (children ov)) = Some ch"
    "\<forall>sk. map_option map_of (map_of ch sk) = map_option (\<lambda>(cs, _). read_value cs) (bt_lookup (children ov) sk)"
    using drain_children by metis
  have "Option.bind (map_of ch (child_storage_key info)) (\<lambda>xs. map_of xs k) = child_storage ov info k" for info k
    using ch(2) [rule_format, of "child_storage_key info"]
    by (cases "map_of ch (child_storage_key info)"; cases "bt_lookup (children ov) (child_storage_key info)")
      (auto simp: child_storage_def split: prod.splits)
  then show ?thesis using main ch(1) by (simp add: drain_committed_def storage_def fun_eq_iff)
qed

lemma offchain_drain_rel:
  "overlay_values oc vs prot \<Longrightarrow>
     \<exists>xs. offchain_drain oc = (Inr xs, overlayed_map_default) \<and> map_of xs = read_value oc"
  using overlay_values_entries [of oc vs prot] by (auto simp: offchain_drain_def fun_eq_iff)

lemma drain_changes_rel:
  assumes rel: "changes_rel ov ([l], prot)" and cache: "cache_transaction cache = None"
    and rt: "fsr (current_delta (top_changes ov))
      (map (\<lambda>(_, cs, info). (info, current_delta cs)) (children ov)) = (root, tx)"
  shows "\<exists>sc cache' ov'. drain_storage_changes fsr cache ov = (Inr sc, cache', ov') \<and>
       map_of (main_storage_changes sc) = storage ov \<and> sorted_wrt (<) (map fst (main_storage_changes sc)) \<and>
       (\<forall>info k. Option.bind (map_of (child_storage_changes sc) (child_storage_key info)) (\<lambda>xs. map_of xs k) =
          child_storage ov info k) \<and>
       (\<forall>p k. map_of (offchain_storage_changes sc) (p, k) = offchain_get (offchain ov) p k) \<and>
       transaction_index_changes sc = transaction_index_ops ov \<and>
       (transaction_storage_root sc, storage_transaction sc) = (root, tx) \<and>
       ov' = overlayed_changes_default\<lparr>collect_extrinsics := collect_extrinsics ov\<rparr>"
proof -
  obtain main ch where mc: "drain_committed ov = (Inr (main, ch), ov\<lparr>top_changes := overlayed_map_default, children := []\<rparr>)"
    "map_of main = storage ov" "sorted_wrt (<) (map fst main)"
    "\<forall>info k. Option.bind (map_of ch (child_storage_key info)) (\<lambda>xs. map_of xs k) = child_storage ov info k"
    using drain_committed_rel [OF rel] by blast
  obtain oc where oc: "offchain_drain (offchain ov) = (Inr oc, overlayed_map_default)" "map_of oc = read_value (offchain ov)"
    using offchain_drain_rel [OF changes_relD(2) [OF rel]] by blast
  show ?thesis using cache rt mc oc
    by (auto simp: drain_storage_changes_def storage_root_def offchain_drain_committed_def offchain_get_def overlayed_changes_default_def)
qed

text \<open>C29: Converting the overlay into storage changes gives exactly what it holds: without
  open transactions and with an empty cache, the lists for the backend have the value each
  key reads as, in key order, the root and database transaction are those the backend
  computes, and the overlay is empty afterwards. With open transactions it panics.\<close>

theorem drain_gives_changes:
  assumes "ov = snd (change_steps dec ops overlayed_changes_default)" "cache_transaction cache = None"
  shows "(overlay_depth ov \<noteq> 0 \<longrightarrow> fst (drain_storage_changes fsr cache ov) = Inl Changeset_Panic) \<and>
    (overlay_depth ov = 0 \<longrightarrow> (\<exists>sc cache' ov'. drain_storage_changes fsr cache ov = (Inr sc, cache', ov') \<and>
       map_of (main_storage_changes sc) = storage ov \<and> sorted_wrt (<) (map fst (main_storage_changes sc)) \<and>
       (\<forall>info k. Option.bind (map_of (child_storage_changes sc) (child_storage_key info)) (\<lambda>xs. map_of xs k) =
          child_storage ov info k) \<and>
       (\<forall>p k. map_of (offchain_storage_changes sc) (p, k) = offchain_get (offchain ov) p k) \<and>
       transaction_index_changes sc = transaction_index_ops ov \<and>
       (transaction_storage_root sc, storage_transaction sc) =
          fsr (current_delta (top_changes ov)) (map (\<lambda>(_, cs, info). (info, current_delta cs)) (children ov)) \<and>
       ov' = overlayed_changes_default\<lparr>collect_extrinsics := collect_extrinsics ov\<rparr>))"
proof -
  obtain rs s where "spec_changes ops ([no_writes], None) = (rs, s)" by (cases "spec_changes ops ([no_writes], None)")
  then obtain ls prot where rel: "changes_rel ov (ls, prot)"
    using change_steps_refines [OF changes_rel_default] assms(1) by (metis prod.collapse snd_conv)
  have depth: "overlay_depth ov = length ls - 1" "ls \<noteq> []"
    using changes_rel_reads(4) [OF rel] changes_rel_nonempty [OF rel] by simp_all
  obtain root tx where rt: "fsr (current_delta (top_changes ov))
      (map (\<lambda>(_, cs, info). (info, current_delta cs)) (children ov)) = (root, tx)" by fastforce
  have "fst (drain_storage_changes fsr cache ov) = Inl Changeset_Panic" if "overlay_depth ov \<noteq> 0"
  proof -
    have "length ls \<noteq> 1" using that depth by auto
    then have "drain_commited (top_changes ov) = Inl Changeset_Panic"
      using drain_commited_values(2) [OF changes_relD(1) [OF rel]] by simp
    then show ?thesis using assms(2) rt by (simp add: drain_storage_changes_def storage_root_def drain_committed_def)
  qed
  moreover have "ls = [hd ls]" if "overlay_depth ov = 0"
    using that depth by (cases ls) auto
  ultimately show ?thesis
    using drain_changes_rel [of ov "hd ls" prot cache fsr root tx] rel assms(2) rt unfolding rt by metis
qed

definition example_changes :: overlayed_changes where
  "example_changes = snd (change_steps (\<lambda>_. None) [Ov_Start, Ov_Set_Child (ParentKeyId [7]) [3] (Some [4]),
     Ov_Set [1] (Some [2]), Ov_Commit] overlayed_changes_default)"

lemma example_changes_reads:
  "overlay_depth example_changes = 0" "storage example_changes [1] = Some (Some [2])"
  "child_storage example_changes (ParentKeyId [7]) [3] = Some (Some [4])"
  unfolding example_changes_def by code_simp+

theorem drain_gives_changes_witness:
  "\<exists>sc. fst (drain_storage_changes (\<lambda>top ch. (length top, length ch))
        \<lparr>cache_transaction = None, cache_root = None\<rparr> example_changes) = Inr sc \<and>
     map_of (main_storage_changes sc) [1] = Some (Some [2]) \<and>
     Option.bind (map_of (child_storage_changes sc) [7]) (\<lambda>xs. map_of xs [3]) = Some (Some [4])"
proof -
  let ?cache = "\<lparr>cache_transaction = None, cache_root = None\<rparr>" and ?fsr = "\<lambda>top ch. (length top, length ch)"
  have "\<exists>sc cache' ov'. drain_storage_changes ?fsr ?cache example_changes = (Inr sc, cache', ov') \<and>
      map_of (main_storage_changes sc) = storage example_changes \<and>
      (\<forall>info k. Option.bind (map_of (child_storage_changes sc) (child_storage_key info)) (\<lambda>xs. map_of xs k) =
          child_storage example_changes info k)"
    using conjunct2 [OF drain_gives_changes [OF example_changes_def, of ?cache ?fsr]]
      example_changes_reads(1) by (simp only: simp_thms storage_transaction_cache.simps) blast
  then obtain sc cache' ov' where sc: "drain_storage_changes ?fsr ?cache example_changes = (Inr sc, cache', ov')"
    "map_of (main_storage_changes sc) = storage example_changes"
    "\<forall>info k. Option.bind (map_of (child_storage_changes sc) (child_storage_key info)) (\<lambda>xs. map_of xs k) =
          child_storage example_changes info k" by blast
  show ?thesis
    using sc(1,2) sc(3) [rule_format, of "ParentKeyId [7]" "[3]"] example_changes_reads(2,3) by simp
qed

text \<open>C40: Draining the offchain changes does not panic when transactions are open, although
  it is documented to; it leaves the offchain changes out of step, so that a transaction
  that could have been committed can no longer be.\<close>

theorem offchain_drain_breaks_lockstep:
  assumes "fst (overlay_commit ov) = Inr ()" "\<forall>(_, ts)\<in>set (changes (offchain ov)). ts \<noteq> []"
  shows "isl (fst (offchain_drain_committed ov)) = False \<and>
    fst (overlay_commit (snd (offchain_drain_committed ov))) = Inl Changeset_Panic"
proof -
  have "commit_transaction overlayed_map_default = (Inl NoOpenTransaction, overlayed_map_default :: offchain_changes)"
    by (simp add: commit_transaction_def close_transaction_def overlayed_map_default_def)
  then show ?thesis using assms
    by (auto simp: overlay_commit_def lockstep_def offchain_drain_committed_def offchain_drain_def list_ex_iff
        split: prod.splits sum.splits)
qed

theorem offchain_drain_breaks_lockstep_witness:
  "let ov = overlay_start (set_offchain_storage [1] (Some [2]) overlayed_changes_default)
   in isl (fst (offchain_drain_committed ov)) = False \<and>
     fst (overlay_commit (snd (offchain_drain_committed ov))) = Inl Changeset_Panic"
  unfolding Let_def by (rule offchain_drain_breaks_lockstep) code_simp+

end
