(* ===== verification/Externalities.thy ===== *)
theory Externalities
  imports Overlayed_Changes
begin

text \<open>
  What the runtime calls for its storage, \<open>primitives/state-machine/src/ext.rs\<close> and \<open>basic.rs\<close>: reads
  go to the overlay of the theory Overlayed_Changes and, where it has no entry, to the backend;
  writes go to the overlay and drop the cached root. The backend and the codec are parameters.
  The locale \<open>ordered_storage\<close> is the contract of an iteration by keys; both implementations keep
  it. The iterators of the theory Unhashed are its clients.
\<close>


section \<open>Keys and results\<close>

definition CHILD_STORAGE_KEY_PREFIX :: storage_key where
  "CHILD_STORAGE_KEY_PREFIX = map of_char '':child_storage:''"

definition DEFAULT_CHILD_STORAGE_KEY_PREFIX :: storage_key where
  "DEFAULT_CHILD_STORAGE_KEY_PREFIX = map of_char '':child_storage:default:''"

definition is_child_storage_key :: "storage_key \<Rightarrow> bool" where
  "is_child_storage_key key = starts_with key CHILD_STORAGE_KEY_PREFIX"

definition starts_with_child_storage_key :: "storage_key \<Rightarrow> bool" where
  "starts_with_child_storage_key key =
     (if length CHILD_STORAGE_KEY_PREFIX < length key then starts_with key CHILD_STORAGE_KEY_PREFIX
      else starts_with CHILD_STORAGE_KEY_PREFIX key)"

fun prefixed_storage_key :: "child_info \<Rightarrow> storage_key" where
  "prefixed_storage_key (ParentKeyId data) = DEFAULT_CHILD_STORAGE_KEY_PREFIX @ data"

record multi_removal_results =
  maybe_cursor :: "storage_key option"
  backend_count :: u32
  unique_count :: u32
  loops_count :: u32

datatype state_version = V0 | V1

text \<open>The value of an entry of the overlay. An entry has a version (lemma \<open>entry_versions\<close> below), so the
  \<open>expect\<close> of \<open>value_ref\<close> does not fail.\<close>

definition entry_value :: "storage_value option overlayed_entry \<Rightarrow> storage_value option" where
  "entry_value ts = (case value_ref ts of None \<Rightarrow> None | Some v \<Rightarrow> v)"

text \<open>\<open>iter.find_map(|(k, v)| v.value().map(|_| k.to_vec()))\<close>.\<close>

fun find_value_key :: "(storage_key \<times> storage_value option overlayed_entry) list \<Rightarrow> storage_key option" where
  "find_value_key [] = None"
| "find_value_key ((k, ts) # rest) = (if entry_value ts \<noteq> None then Some k else find_value_key rest)"

section \<open>Parameters\<close>

text \<open>The codec and the hash function: decoding the extrinsic index, hashing a value, encoding and
  decoding a root, the encoding of a vector of one opaque value, and \<open>append_or_new\<close>.\<close>

record 'r codec =
  decode_index :: "u8 list \<Rightarrow> u32 option"
  hash_value :: "storage_value \<Rightarrow> 'r"
  encode_root :: "'r \<Rightarrow> u8 list"
  decode_root :: "u8 list \<Rightarrow> 'r option"
  empty_child_trie_root :: 'r
  encode_one :: "u8 list \<Rightarrow> u8 list"
  append_or_new :: "u8 list \<Rightarrow> u8 list \<Rightarrow> u8 list option"

text \<open>The backend, a trait in the source, as far as it is called. Its failure aborts the program, so that
  its results are taken as the successful ones; \<open>be_keys child prefix start\<close> are the keys that
  \<open>apply_to_keys_while\<close> runs through.\<close>

record ('r, 't) backend =
  be_storage :: "storage_key \<Rightarrow> storage_value option"
  be_storage_hash :: "storage_key \<Rightarrow> 'r option"
  be_child_storage :: "child_info \<Rightarrow> storage_key \<Rightarrow> storage_value option"
  be_child_storage_hash :: "child_info \<Rightarrow> storage_key \<Rightarrow> 'r option"
  be_next_storage_key :: "storage_key \<Rightarrow> storage_key option"
  be_next_child_storage_key :: "child_info \<Rightarrow> storage_key \<Rightarrow> storage_key option"
  be_keys :: "child_info option \<Rightarrow> storage_key option \<Rightarrow> storage_key option \<Rightarrow> storage_key list"
  be_full_storage_root :: "state_version \<Rightarrow> ('r, 't) full_storage_root"
  be_child_storage_root :: "state_version \<Rightarrow> child_info \<Rightarrow> (storage_key \<times> storage_value option) list \<Rightarrow> 'r \<times> bool"

text \<open>The default methods of the trait.\<close>

definition be_exists_storage :: "('r, 't) backend \<Rightarrow> storage_key \<Rightarrow> bool" where
  "be_exists_storage be key = (be_storage_hash be key \<noteq> None)"

definition be_exists_child_storage :: "('r, 't) backend \<Rightarrow> child_info \<Rightarrow> storage_key \<Rightarrow> bool" where
  "be_exists_child_storage be info key = (be_child_storage_hash be info key \<noteq> None)"

text \<open>\<open>StorageAppend::append\<close>: appends to an encoded vector, or starts it anew.\<close>

definition storage_append_value :: "'r codec \<Rightarrow> u8 list \<Rightarrow> storage_value \<Rightarrow> storage_value" where
  "storage_append_value cd v item = (case append_or_new cd item v of Some item' \<Rightarrow> item' | None \<Rightarrow> encode_one cd v)"

section \<open>The overlay alone\<close>

text \<open>\<open>BasicExternalities\<close>: an overlay without a backend. Its extensions are left out.\<close>

definition basic_insert :: "'r codec \<Rightarrow> storage_key \<Rightarrow> storage_value \<Rightarrow> overlayed_changes \<Rightarrow> overlayed_changes" where
  "basic_insert cd k v ov = set_storage (decode_index cd) k (Some v) ov"

definition basic_from_iter :: "'r codec \<Rightarrow> (storage_key \<times> storage_value) list \<Rightarrow> overlayed_changes" where
  "basic_from_iter cd kvs = fold (\<lambda>(k, v) ov. basic_insert cd k v ov) kvs overlayed_changes_default"

definition basic_into_top :: "overlayed_changes \<Rightarrow> (storage_key \<times> storage_value) list" where
  "basic_into_top ov =
     List.map_filter (\<lambda>(k, ts). map_option (\<lambda>v. (k, v)) (entry_value ts)) (changes (top_changes ov))"

definition basic_storage :: "overlayed_changes \<Rightarrow> storage_key \<Rightarrow> storage_value option" where
  "basic_storage ov key = Option.bind (storage ov key) id"

definition basic_storage_hash :: "'r codec \<Rightarrow> overlayed_changes \<Rightarrow> storage_key \<Rightarrow> u8 list option" where
  "basic_storage_hash cd ov key = map_option (\<lambda>v. encode_root cd (hash_value cd v)) (basic_storage ov key)"

definition basic_child_storage :: "overlayed_changes \<Rightarrow> child_info \<Rightarrow> storage_key \<Rightarrow> storage_value option" where
  "basic_child_storage ov info key = Option.bind (child_storage ov info key) id"

definition basic_child_storage_hash :: "'r codec \<Rightarrow> overlayed_changes \<Rightarrow> child_info \<Rightarrow> storage_key \<Rightarrow> u8 list option" where
  "basic_child_storage_hash cd ov info key =
     map_option (\<lambda>v. encode_root cd (hash_value cd v)) (basic_child_storage ov info key)"

definition basic_next_storage_key :: "overlayed_changes \<Rightarrow> storage_key \<Rightarrow> storage_key option" where
  "basic_next_storage_key ov key = find_value_key (iter_after ov key)"

definition basic_next_child_storage_key :: "overlayed_changes \<Rightarrow> child_info \<Rightarrow> storage_key \<Rightarrow> storage_key option" where
  "basic_next_child_storage_key ov info key = find_value_key (child_iter_after ov (child_storage_key info) key)"

definition basic_place_storage ::
  "'r codec \<Rightarrow> storage_key \<Rightarrow> storage_value option \<Rightarrow> overlayed_changes \<Rightarrow> overlayed_changes" where
  "basic_place_storage cd key v ov =
     (if is_child_storage_key key then ov else set_storage (decode_index cd) key v ov)"

definition basic_place_child_storage ::
  "'r codec \<Rightarrow> child_info \<Rightarrow> storage_key \<Rightarrow> storage_value option \<Rightarrow> overlayed_changes \<Rightarrow>
   (changeset_error + unit) \<times> overlayed_changes" where
  "basic_place_child_storage cd info key v ov = set_child_storage (decode_index cd) info key v ov"

definition basic_removal :: "u32 \<Rightarrow> multi_removal_results" where
  "basic_removal n = \<lparr>maybe_cursor = None, backend_count = n, unique_count = n, loops_count = n\<rparr>"

definition basic_kill_child_storage ::
  "'r codec \<Rightarrow> child_info \<Rightarrow> overlayed_changes \<Rightarrow> (changeset_error + multi_removal_results) \<times> overlayed_changes" where
  "basic_kill_child_storage cd info ov =
     (case clear_child_storage (decode_index cd) info ov of (r, ov') \<Rightarrow> (map_sum id basic_removal r, ov'))"

definition basic_clear_prefix ::
  "'r codec \<Rightarrow> storage_key \<Rightarrow> overlayed_changes \<Rightarrow> multi_removal_results \<times> overlayed_changes" where
  "basic_clear_prefix cd prefix ov =
     (if is_child_storage_key prefix
      then (\<lparr>maybe_cursor = Some prefix, backend_count = 0, unique_count = 0, loops_count = 0\<rparr>, ov)
      else case clear_prefix (decode_index cd) prefix ov of (n, ov') \<Rightarrow> (basic_removal n, ov'))"

definition basic_clear_child_prefix ::
  "'r codec \<Rightarrow> child_info \<Rightarrow> storage_key \<Rightarrow> overlayed_changes \<Rightarrow>
   (changeset_error + multi_removal_results) \<times> overlayed_changes" where
  "basic_clear_child_prefix cd info prefix ov =
     (case clear_child_prefix (decode_index cd) info prefix ov of (r, ov') \<Rightarrow> (map_sum id basic_removal r, ov'))"

definition basic_storage_append :: "'r codec \<Rightarrow> storage_key \<Rightarrow> u8 list \<Rightarrow> overlayed_changes \<Rightarrow> overlayed_changes" where
  "basic_storage_append cd key v ov =
     value_mut_or_insert_with (decode_index cd) key [] (storage_append_value cd v) ov"

section \<open>The overlay over a backend\<close>

record ('r, 't) ext =
  overlay :: overlayed_changes
  cache :: "('r, 't) storage_transaction_cache"

definition mark_dirty :: "('r, 't) ext \<Rightarrow> ('r, 't) ext" where
  "mark_dirty e = e\<lparr>cache := \<lparr>cache_transaction = None, cache_root = None\<rparr>\<rparr>"

definition ext_set_offchain_storage :: "storage_key \<Rightarrow> storage_value option \<Rightarrow> ('r, 't) ext \<Rightarrow> ('r, 't) ext" where
  "ext_set_offchain_storage key v e = e\<lparr>overlay := set_offchain_storage key v (overlay e)\<rparr>"

definition ext_storage :: "('r, 't) backend \<Rightarrow> overlayed_changes \<Rightarrow> storage_key \<Rightarrow> storage_value option" where
  "ext_storage be ov key = (case storage ov key of Some v \<Rightarrow> v | None \<Rightarrow> be_storage be key)"

definition ext_storage_hash :: "'r codec \<Rightarrow> ('r, 't) backend \<Rightarrow> overlayed_changes \<Rightarrow> storage_key \<Rightarrow> u8 list option" where
  "ext_storage_hash cd be ov key =
     map_option (encode_root cd)
       (case storage ov key of Some v \<Rightarrow> map_option (hash_value cd) v | None \<Rightarrow> be_storage_hash be key)"

definition ext_child_storage ::
  "('r, 't) backend \<Rightarrow> overlayed_changes \<Rightarrow> child_info \<Rightarrow> storage_key \<Rightarrow> storage_value option" where
  "ext_child_storage be ov info key =
     (case child_storage ov info key of Some v \<Rightarrow> v | None \<Rightarrow> be_child_storage be info key)"

definition ext_child_storage_hash ::
  "'r codec \<Rightarrow> ('r, 't) backend \<Rightarrow> overlayed_changes \<Rightarrow> child_info \<Rightarrow> storage_key \<Rightarrow> u8 list option" where
  "ext_child_storage_hash cd be ov info key =
     map_option (encode_root cd)
       (case child_storage ov info key of Some v \<Rightarrow> map_option (hash_value cd) v | None \<Rightarrow> be_child_storage_hash be info key)"

definition ext_exists_storage :: "('r, 't) backend \<Rightarrow> overlayed_changes \<Rightarrow> storage_key \<Rightarrow> bool" where
  "ext_exists_storage be ov key = (case storage ov key of Some x \<Rightarrow> x \<noteq> None | None \<Rightarrow> be_exists_storage be key)"

definition ext_exists_child_storage ::
  "('r, 't) backend \<Rightarrow> overlayed_changes \<Rightarrow> child_info \<Rightarrow> storage_key \<Rightarrow> bool" where
  "ext_exists_child_storage be ov info key =
     (case child_storage ov info key of Some x \<Rightarrow> x \<noteq> None | None \<Rightarrow> be_exists_child_storage be info key)"

text \<open>The loop that merges the keys of the overlay with those of the backend.\<close>

fun next_key_loop ::
  "(storage_key \<Rightarrow> storage_key option) \<Rightarrow> (storage_key \<times> storage_value option overlayed_entry) list \<Rightarrow>
   storage_key option \<Rightarrow> storage_key option" where
  "next_key_loop backend_next [] next_backend_key = next_backend_key"
| "next_key_loop backend_next ((k, ts) # rest) next_backend_key =
     (if (case next_backend_key of Some b \<Rightarrow> b < k | None \<Rightarrow> False) then next_backend_key
      else if entry_value ts \<noteq> None then Some k
      else if next_backend_key = Some k then next_key_loop backend_next rest (backend_next k)
      else next_key_loop backend_next rest next_backend_key)"

definition merged_next_key ::
  "(storage_key \<Rightarrow> storage_key option) \<Rightarrow> (storage_key \<times> storage_value option overlayed_entry) list \<Rightarrow>
   storage_key \<Rightarrow> storage_key option" where
  "merged_next_key backend_next overlay_changes key =
     (let next_backend_key = backend_next key
      in case (next_backend_key, overlay_changes) of
        (_, []) \<Rightarrow> next_backend_key
      | (Some _, _ # _) \<Rightarrow> next_key_loop backend_next overlay_changes next_backend_key
      | (None, _ # _) \<Rightarrow> find_value_key overlay_changes)"

definition ext_next_storage_key :: "('r, 't) backend \<Rightarrow> overlayed_changes \<Rightarrow> storage_key \<Rightarrow> storage_key option" where
  "ext_next_storage_key be ov key = merged_next_key (be_next_storage_key be) (iter_after ov key) key"

definition ext_next_child_storage_key ::
  "('r, 't) backend \<Rightarrow> overlayed_changes \<Rightarrow> child_info \<Rightarrow> storage_key \<Rightarrow> storage_key option" where
  "ext_next_child_storage_key be ov info key =
     merged_next_key (be_next_child_storage_key be info) (child_iter_after ov (child_storage_key info) key) key"

definition ext_place_storage ::
  "'r codec \<Rightarrow> storage_key \<Rightarrow> storage_value option \<Rightarrow> ('r, 't) ext \<Rightarrow> ('r, 't) ext" where
  "ext_place_storage cd key v e =
     (if is_child_storage_key key then e
      else let e1 = mark_dirty e in e1\<lparr>overlay := set_storage (decode_index cd) key v (overlay e1)\<rparr>)"

definition ext_place_child_storage ::
  "'r codec \<Rightarrow> child_info \<Rightarrow> storage_key \<Rightarrow> storage_value option \<Rightarrow> ('r, 't) ext \<Rightarrow>
   (changeset_error + unit) \<times> ('r, 't) ext" where
  "ext_place_child_storage cd info key v e =
     (let e1 = mark_dirty e
      in case set_child_storage (decode_index cd) info key v (overlay e1) of (r, ov) \<Rightarrow> (r, e1\<lparr>overlay := ov\<rparr>))"

definition saturating_inc32 :: "u32 \<Rightarrow> u32" where
  "saturating_inc32 n = (if n = - 1 then n else n + 1)"

text \<open>The closure of \<open>limit_remove_from_backend\<close> over the keys the backend runs through, up to the key
  where it returns \<open>false\<close>.\<close>

fun limit_remove_loop ::
  "'r codec \<Rightarrow> child_info option \<Rightarrow> u32 option \<Rightarrow> storage_key list \<Rightarrow> u32 \<Rightarrow> u32 \<Rightarrow> overlayed_changes \<Rightarrow>
   (changeset_error + storage_key option \<times> u32 \<times> u32) \<times> overlayed_changes" where
  "limit_remove_loop cd maybe_child maybe_limit [] delete_count loop_count ov =
     (Inr (None, delete_count, loop_count), ov)"
| "limit_remove_loop cd maybe_child maybe_limit (key # keys) delete_count loop_count ov =
     (if maybe_limit = Some loop_count then (Inr (Some key, delete_count, loop_count), ov)
      else if (case maybe_child of Some info \<Rightarrow> child_storage ov info key | None \<Rightarrow> storage ov key) \<noteq> Some None then
        (case (case maybe_child of
                 Some info \<Rightarrow> set_child_storage (decode_index cd) info key None ov
               | None \<Rightarrow> (Inr (), set_storage (decode_index cd) key None ov)) of
           (Inl err, ov') \<Rightarrow> (Inl err, ov')
         | (Inr _, ov') \<Rightarrow>
             limit_remove_loop cd maybe_child maybe_limit keys (saturating_inc32 delete_count) (saturating_inc32 loop_count) ov')
      else limit_remove_loop cd maybe_child maybe_limit keys delete_count (saturating_inc32 loop_count) ov)"

definition limit_remove_from_backend ::
  "'r codec \<Rightarrow> ('r, 't) backend \<Rightarrow> child_info option \<Rightarrow> storage_key option \<Rightarrow> u32 option \<Rightarrow> storage_key option \<Rightarrow>
   overlayed_changes \<Rightarrow> (changeset_error + storage_key option \<times> u32 \<times> u32) \<times> overlayed_changes" where
  "limit_remove_from_backend cd be maybe_child maybe_prefix maybe_limit cursor ov =
     limit_remove_loop cd maybe_child maybe_limit (be_keys be maybe_child maybe_prefix cursor) 0 0 ov"

text \<open>What \<open>kill_child_storage\<close>, \<open>clear_prefix\<close> and \<open>clear_child_prefix\<close> do after the overlay is cleared.\<close>

definition removal_after ::
  "(changeset_error + u32) \<times> overlayed_changes \<Rightarrow>
   (overlayed_changes \<Rightarrow> (changeset_error + storage_key option \<times> u32 \<times> u32) \<times> overlayed_changes) \<Rightarrow>
   (changeset_error + multi_removal_results) \<times> overlayed_changes" where
  "removal_after r f =
     (case r of
        (Inl err, ov) \<Rightarrow> (Inl err, ov)
      | (Inr n, ov) \<Rightarrow>
          (case f ov of
             (Inl err, ov') \<Rightarrow> (Inl err, ov')
           | (Inr (c, b, l), ov') \<Rightarrow>
               (Inr \<lparr>maybe_cursor = c, backend_count = b, unique_count = n + b, loops_count = l\<rparr>, ov')))"

definition ext_kill_child_storage ::
  "'r codec \<Rightarrow> ('r, 't) backend \<Rightarrow> child_info \<Rightarrow> u32 option \<Rightarrow> storage_key option \<Rightarrow> ('r, 't) ext \<Rightarrow>
   (changeset_error + multi_removal_results) \<times> ('r, 't) ext" where
  "ext_kill_child_storage cd be info maybe_limit cursor e =
     (let e1 = mark_dirty e
      in case removal_after (clear_child_storage (decode_index cd) info (overlay e1))
           (limit_remove_from_backend cd be (Some info) None maybe_limit cursor) of (r, ov) \<Rightarrow> (r, e1\<lparr>overlay := ov\<rparr>))"

definition ext_clear_prefix ::
  "'r codec \<Rightarrow> ('r, 't) backend \<Rightarrow> storage_key \<Rightarrow> u32 option \<Rightarrow> storage_key option \<Rightarrow> ('r, 't) ext \<Rightarrow>
   (changeset_error + multi_removal_results) \<times> ('r, 't) ext" where
  "ext_clear_prefix cd be prefix maybe_limit cursor e =
     (if starts_with_child_storage_key prefix
      then (Inr \<lparr>maybe_cursor = None, backend_count = 0, unique_count = 0, loops_count = 0\<rparr>, e)
      else let e1 = mark_dirty e
        in case removal_after (map_prod Inr id (clear_prefix (decode_index cd) prefix (overlay e1)))
             (limit_remove_from_backend cd be None (Some prefix) maybe_limit cursor) of (r, ov) \<Rightarrow> (r, e1\<lparr>overlay := ov\<rparr>))"

definition ext_clear_child_prefix ::
  "'r codec \<Rightarrow> ('r, 't) backend \<Rightarrow> child_info \<Rightarrow> storage_key \<Rightarrow> u32 option \<Rightarrow> storage_key option \<Rightarrow> ('r, 't) ext \<Rightarrow>
   (changeset_error + multi_removal_results) \<times> ('r, 't) ext" where
  "ext_clear_child_prefix cd be info prefix maybe_limit cursor e =
     (let e1 = mark_dirty e
      in case removal_after (clear_child_prefix (decode_index cd) info prefix (overlay e1))
           (limit_remove_from_backend cd be (Some info) (Some prefix) maybe_limit cursor) of (r, ov) \<Rightarrow> (r, e1\<lparr>overlay := ov\<rparr>))"

definition ext_storage_append ::
  "'r codec \<Rightarrow> ('r, 't) backend \<Rightarrow> storage_key \<Rightarrow> u8 list \<Rightarrow> ('r, 't) ext \<Rightarrow> ('r, 't) ext" where
  "ext_storage_append cd be key v e =
     (let e1 = mark_dirty e
      in e1\<lparr>overlay := value_mut_or_insert_with (decode_index cd) key
            (case be_storage be key of None \<Rightarrow> [] | Some x \<Rightarrow> x) (storage_append_value cd v) (overlay e1)\<rparr>)"

definition ext_storage_root ::
  "'r codec \<Rightarrow> ('r, 't) backend \<Rightarrow> state_version \<Rightarrow> ('r, 't) ext \<Rightarrow> u8 list \<times> ('r, 't) ext" where
  "ext_storage_root cd be version e =
     (case cache_root (cache e) of
        Some root \<Rightarrow> (encode_root cd root, e)
      | None \<Rightarrow>
          (case storage_root (be_full_storage_root be version) (cache e) (overlay e) of
             (root, cache') \<Rightarrow> (encode_root cd root, e\<lparr>cache := cache'\<rparr>)))"

definition stored_child_root :: "'r codec \<Rightarrow> ('r, 't) backend \<Rightarrow> overlayed_changes \<Rightarrow> child_info \<Rightarrow> 'r" where
  "stored_child_root cd be ov info =
     (case Option.bind (ext_storage be ov (prefixed_storage_key info)) (decode_root cd) of
        Some root \<Rightarrow> root | None \<Rightarrow> empty_child_trie_root cd)"

definition ext_child_storage_root ::
  "'r codec \<Rightarrow> ('r, 't) backend \<Rightarrow> child_info \<Rightarrow> state_version \<Rightarrow> ('r, 't) ext \<Rightarrow> u8 list \<times> ('r, 't) ext" where
  "ext_child_storage_root cd be info version e =
     (if cache_root (cache e) \<noteq> None then (encode_root cd (stored_child_root cd be (overlay e) info), e)
      else case bt_lookup (children (overlay e)) (child_storage_key info) of
        Some (cs, info') \<Rightarrow>
          (case be_child_storage_root be version info' (current_delta cs) of
             (root, none) \<Rightarrow>
               (encode_root cd root,
                e\<lparr>overlay := set_storage (decode_index cd) (prefixed_storage_key info)
                     (if none then None else Some (encode_root cd root)) (overlay e)\<rparr>))
      | None \<Rightarrow> (encode_root cd (stored_child_root cd be (overlay e) info), e))"

definition ext_storage_index_transaction :: "u32 \<Rightarrow> u8 list \<Rightarrow> u32 \<Rightarrow> ('r, 't) ext \<Rightarrow> ('r, 't) ext" where
  "ext_storage_index_transaction index hash n e =
     e\<lparr>overlay := add_transaction_index (Index_Insert index hash n) (overlay e)\<rparr>"

definition ext_storage_renew_transaction_index :: "u32 \<Rightarrow> u8 list \<Rightarrow> ('r, 't) ext \<Rightarrow> ('r, 't) ext" where
  "ext_storage_renew_transaction_index index hash e =
     e\<lparr>overlay := add_transaction_index (Index_Renew index hash) (overlay e)\<rparr>"

definition ext_start_transaction :: "('r, 't) ext \<Rightarrow> ('r, 't) ext" where
  "ext_start_transaction e = e\<lparr>overlay := overlay_start (overlay e)\<rparr>"

text \<open>The error is \<open>()\<close> in the source; a panic inside the overlay is kept apart.\<close>

definition ext_rollback_transaction :: "('r, 't) ext \<Rightarrow> (changeset_error + unit) \<times> ('r, 't) ext" where
  "ext_rollback_transaction e =
     (let e1 = mark_dirty e in case overlay_rollback (overlay e1) of (r, ov) \<Rightarrow> (r, e1\<lparr>overlay := ov\<rparr>))"

definition ext_commit_transaction :: "('r, 't) ext \<Rightarrow> (changeset_error + unit) \<times> ('r, 't) ext" where
  "ext_commit_transaction e = (case overlay_commit (overlay e) of (r, ov) \<Rightarrow> (r, e\<lparr>overlay := ov\<rparr>))"

text \<open>The operations of a run. Results are dropped.\<close>

datatype ext_op =
    Ext_Place storage_key "storage_value option"
  | Ext_Place_Child child_info storage_key "storage_value option"
  | Ext_Kill_Child child_info "u32 option" "storage_key option"
  | Ext_Clear_Prefix storage_key "u32 option" "storage_key option"
  | Ext_Clear_Child_Prefix child_info storage_key "u32 option" "storage_key option"
  | Ext_Append storage_key "u8 list"
  | Ext_Offchain storage_key "storage_value option"
  | Ext_Index u32 "u8 list" u32
  | Ext_Renew u32 "u8 list"
  | Ext_Root | Ext_Child_Root child_info
  | Ext_Start | Ext_Commit | Ext_Rollback

fun ext_step :: "'r codec \<Rightarrow> ('r, 't) backend \<Rightarrow> state_version \<Rightarrow> ext_op \<Rightarrow> ('r, 't) ext \<Rightarrow> ('r, 't) ext" where
  "ext_step cd be version (Ext_Place k v) e = ext_place_storage cd k v e"
| "ext_step cd be version (Ext_Place_Child info k v) e = snd (ext_place_child_storage cd info k v e)"
| "ext_step cd be version (Ext_Kill_Child info l c) e = snd (ext_kill_child_storage cd be info l c e)"
| "ext_step cd be version (Ext_Clear_Prefix p l c) e = snd (ext_clear_prefix cd be p l c e)"
| "ext_step cd be version (Ext_Clear_Child_Prefix info p l c) e = snd (ext_clear_child_prefix cd be info p l c e)"
| "ext_step cd be version (Ext_Append k v) e = ext_storage_append cd be k v e"
| "ext_step cd be version (Ext_Offchain k v) e = ext_set_offchain_storage k v e"
| "ext_step cd be version (Ext_Index i h n) e = ext_storage_index_transaction i h n e"
| "ext_step cd be version (Ext_Renew i h) e = ext_storage_renew_transaction_index i h e"
| "ext_step cd be version Ext_Root e = snd (ext_storage_root cd be version e)"
| "ext_step cd be version (Ext_Child_Root info) e = snd (ext_child_storage_root cd be info version e)"
| "ext_step cd be version Ext_Start e = ext_start_transaction e"
| "ext_step cd be version Ext_Commit e = snd (ext_commit_transaction e)"
| "ext_step cd be version Ext_Rollback e = snd (ext_rollback_transaction e)"

definition ext_steps :: "'r codec \<Rightarrow> ('r, 't) backend \<Rightarrow> state_version \<Rightarrow> ext_op list \<Rightarrow> ('r, 't) ext \<Rightarrow> ('r, 't) ext" where
  "ext_steps cd be version xs e = fold (ext_step cd be version) xs e"

section \<open>The next key\<close>

text \<open>\<open>r\<close> is the least key above \<open>k\<close> that satisfies \<open>P\<close>.\<close>

definition is_next :: "('k :: linorder \<Rightarrow> bool) \<Rightarrow> 'k \<Rightarrow> 'k option \<Rightarrow> bool" where
  "is_next P k r \<longleftrightarrow> (case r of
       None \<Rightarrow> \<forall>j. k < j \<longrightarrow> \<not> P j
     | Some j \<Rightarrow> k < j \<and> P j \<and> (\<forall>i. k < i \<and> i < j \<longrightarrow> \<not> P i))"

lemma is_next_simps:
  "is_next P k None \<longleftrightarrow> (\<forall>j. k < j \<longrightarrow> \<not> P j)"
  "is_next P k (Some j) \<longleftrightarrow> k < j \<and> P j \<and> (\<forall>i. k < i \<and> i < j \<longrightarrow> \<not> P i)"
  by (simp_all add: is_next_def)

lemma is_next_skip:
  assumes "k < a" "\<And>j. k < j \<Longrightarrow> j \<le> a \<Longrightarrow> \<not> P j" "\<And>j. a < j \<Longrightarrow> P j = Q j" "is_next Q a r"
  shows "is_next P k r"
proof -
  have low: "\<not> P j" if "k < j" "a < j \<Longrightarrow> \<not> Q j" for j
    using that assms(2) [of j] assms(3) [of j] by (cases "j \<le> a") auto
  show ?thesis
  proof (cases r)
    case None
    then show ?thesis using assms(4) low by (simp add: is_next_simps)
  next
    case (Some c)
    then have c: "a < c" "Q c" "\<And>i. a < i \<Longrightarrow> i < c \<Longrightarrow> \<not> Q i" using assms(4) by (auto simp: is_next_simps)
    moreover have "k < c" using assms(1) c(1) by (rule less_trans)
    ultimately show ?thesis using assms(3) [OF c(1)] low Some by (simp add: is_next_simps)
  qed
qed

definition merged :: "('k \<Rightarrow> storage_value option overlayed_entry option) \<Rightarrow> ('k \<Rightarrow> bool) \<Rightarrow> 'k \<Rightarrow> bool" where
  "merged m B j = (case m j of Some ts \<Rightarrow> entry_value ts \<noteq> None | None \<Rightarrow> B j)"

lemma merged_Cons:
  "merged (m(a \<mapsto> ts)) B j = (if j = a then entry_value ts \<noteq> None else merged m B j)"
  by (simp add: merged_def)

lemma next_key_loop_least:
  assumes "bt_inv es" "\<forall>j\<in>fst ` set es. k < j" "is_next B k nb" "\<And>j. is_next B j (bn j)"
  shows "is_next (merged (map_of es) B) k (next_key_loop bn es nb)"
  using assms(1-3)
proof (induction es arbitrary: k nb)
  case Nil
  then show ?case by (simp add: merged_def)
next
  case (Cons e es)
  obtain a ts where e: "e = (a, ts)" by (cases e)
  have k: "k < a" and rest: "\<forall>j\<in>fst ` set es. a < j" and inv: "bt_inv es" using Cons.prems by (auto simp: e)
  define P where "P = merged (map_of (e # es)) B"
  have at: "P a \<longleftrightarrow> entry_value ts \<noteq> None" by (simp add: P_def e merged_Cons)
  have low: "P j = B j" if "j < a" for j
  proof -
    have "map_of es j = None" using rest that by (force simp: map_of_eq_None_iff)
    then show ?thesis using that by (auto simp: P_def e merged_Cons merged_def)
  qed
  have high: "P j = merged (map_of es) B j" if "a < j" for j
    using that by (auto simp: P_def e merged_Cons)
  have "is_next P k (next_key_loop bn (e # es) nb)"
  proof (cases "\<exists>b. nb = Some b \<and> b < a")
    case True
    then obtain b where b: "nb = Some b" "b < a" by blast
    then have "next_key_loop bn (e # es) nb = Some b" by (simp add: e)
    then show ?thesis using Cons.prems(3) b low less_trans [OF _ b(2)] by (auto simp: is_next_simps)
  next
    case False
    then have below: "\<not> B j" if "k < j" "j < a" for j
      using that Cons.prems(3) by (cases nb) (auto simp: is_next_simps not_less dest: less_le_trans)
    have skip: "is_next (P) k r" if "is_next (merged (map_of es) B) a r" "entry_value ts = None" for r
      by (rule is_next_skip [OF k _ high that(1)]) (use below low that(2) at in \<open>auto simp: le_less\<close>)
    have nb: "(case nb of Some b \<Rightarrow> b < a | None \<Rightarrow> False) = False" using False by (auto split: option.splits)
    show ?thesis
    proof (cases "entry_value ts = None")
      case False
      then have "next_key_loop bn (e # es) nb = Some a" using nb by (simp add: e)
      then show ?thesis using False below low k at by (simp add: is_next_simps)
    next
      case True
      show ?thesis
      proof (cases "nb = Some a")
        case nba: True
        then have "next_key_loop bn (e # es) nb = next_key_loop bn es (bn a)" using nb True by (simp add: e)
        then show ?thesis using skip [OF Cons.IH [OF inv rest assms(4)] True] by simp
      next
        case nba: False
        have "is_next B a nb" using False nba Cons.prems(3) k
          by (cases nb) (auto simp: is_next_simps not_less le_less dest: less_trans)
        moreover have "next_key_loop bn (e # es) nb = next_key_loop bn es nb" using nb True nba by (simp add: e)
        ultimately show ?thesis using skip [OF Cons.IH [OF inv rest] True] by simp
      qed
    qed
  qed
  then show ?case by (simp only: P_def)
qed

lemma merged_next_key_least:
  assumes "bt_inv es" "\<forall>j\<in>fst ` set es. k < j" "\<And>j. is_next B j (bn j)"
  shows "is_next (merged (map_of es) B) k (merged_next_key bn es k)"
proof (cases es)
  case Nil
  have "merged Map.empty B = B" by (simp add: merged_def fun_eq_iff)
  then show ?thesis using assms(3) [of k] Nil by (cases "bn k") (simp_all add: merged_next_key_def Let_def)
next
  case (Cons e es')
  have le: "is_next (merged (map_of es) B) k (next_key_loop bn es (bn k))"
    by (rule next_key_loop_least [OF assms(1,2,3,3)])
  show ?thesis
  proof (cases "bn k")
    case None
    have eq: "find_value_key es = next_key_loop bn es None" for es by (induction es rule: find_value_key.induct) simp_all
    show ?thesis using le None Cons by (simp add: merged_next_key_def Let_def) (metis eq)
  next
    case (Some b)
    then show ?thesis using le Cons by (simp add: merged_next_key_def Let_def)
  qed
qed

text \<open>An overlay that represents a stack of layers.\<close>

definition overlay_ok :: "overlayed_changes \<Rightarrow> bool" where
  "overlay_ok ov \<longleftrightarrow> (\<exists>ls prot. changes_rel ov (ls, prot))"

lemma entry_versions:
  assumes "overlay_values m vs prot" "bt_lookup (changes m) k = Some ts"
  shows "ts \<noteq> []" "read_value m k = Some (entry_value ts)"
proof -
  have "(k, ts) \<in> set (changes m)" using assms(2) by (simp add: bt_lookup_def map_of_SomeD)
  then show ts: "ts \<noteq> []" using overlay_values_entries(1) [OF assms(1)] by (auto simp: list_ex_iff)
  then show "read_value m k = Some (entry_value ts)"
    using assms(2) by (cases ts) (simp_all add: read_value_def map_get_def entry_value_def)
qed

lemma bt_inv_filter: "bt_inv es \<Longrightarrow> bt_inv (filter P es)"
  unfolding bt_inv_def by (induction es) auto

lemma map_of_filter_above: "k < j \<Longrightarrow> map_of (filter (\<lambda>(i, _). k < i) es) j = map_of es j"
  by (induction es) auto

lemma changes_after_map:
  assumes "bt_inv (changes m)"
  shows "bt_inv (changes_after k m)" "\<forall>j\<in>fst ` set (changes_after k m). k < j"
    "k < j \<Longrightarrow> map_of (changes_after k m) j = bt_lookup (changes m) j"
proof -
  show "bt_inv (changes_after k m)" using assms by (simp add: changes_after_def bt_inv_filter)
  show "\<forall>j\<in>fst ` set (changes_after k m). k < j" by (auto simp: changes_after_def)
  show "k < j \<Longrightarrow> map_of (changes_after k m) j = bt_lookup (changes m) j"
    by (simp add: changes_after_def bt_lookup_def map_of_filter_above)
qed

lemma is_next_cong: "is_next P k r \<Longrightarrow> (\<And>j. k < j \<Longrightarrow> P j = Q j) \<Longrightarrow> is_next Q k r"
  by (cases r) (auto simp: is_next_simps)

lemma merged_next_overlay:
  assumes "overlay_values m vs prot" "\<And>j. is_next (\<lambda>j. B j \<noteq> None) j (bn j)"
  shows "is_next (\<lambda>j. (case read_value m j of Some v \<Rightarrow> v | None \<Rightarrow> B j) \<noteq> None) k
    (merged_next_key bn (changes_after k m) k)"
proof -
  note ca = changes_after_map [OF overlay_values_entries(2) [OF assms(1)]]
  have eq: "merged (map_of (changes_after k m)) (\<lambda>j. B j \<noteq> None) j =
      ((case read_value m j of Some v \<Rightarrow> v | None \<Rightarrow> B j) \<noteq> None)" if "k < j" for j
  proof (cases "bt_lookup (changes m) j")
    case None
    then have "read_value m j = None" by (simp add: read_value_def map_get_def)
    then show ?thesis using None by (simp add: merged_def ca(3) [OF that])
  next
    case (Some ts)
    then show ?thesis using entry_versions(2) [OF assms(1) Some] by (simp add: merged_def ca(3) [OF that])
  qed
  show ?thesis by (rule is_next_cong [OF merged_next_key_least [OF ca(1,2) assms(2)] eq])
qed

text \<open>Without a backend the merged search is the search for an entry that has a value.\<close>

lemma merged_next_nothing: "merged_next_key (\<lambda>_. None) es k = find_value_key es"
  by (cases es) (simp_all add: merged_next_key_def)

text \<open>The keys with a prefix are an interval.\<close>

lemma starts_with_simps [simp]:
  "starts_with k []" "starts_with [] (p # ps) = False" "starts_with (x # ks) (p # ps) \<longleftrightarrow> x = p \<and> starts_with ks ps"
  by (auto simp: starts_with_def)

lemma prefix_interval: "starts_with j p \<Longrightarrow> p \<le> i \<Longrightarrow> i \<le> j \<Longrightarrow> starts_with i p"
proof (induction p arbitrary: i j)
  case (Cons x p)
  then obtain y ys z zs where "i = y # ys" "j = z # zs" by (cases i; cases j) auto
  then show ?case using Cons by auto
qed simp

text \<open>\<open>.filter(|n| n.starts_with(&self.prefix))\<close>.\<close>

definition with_prefix_only :: "storage_key \<Rightarrow> storage_key option \<Rightarrow> storage_key option" where
  "with_prefix_only prefix maybe_next =
     (case maybe_next of None \<Rightarrow> None | Some n \<Rightarrow> if starts_with n prefix then Some n else None)"

text \<open>The keys above a key that have a prefix and a value.\<close>

definition above :: "(storage_key \<Rightarrow> storage_value option) \<Rightarrow> storage_key \<Rightarrow> storage_key \<Rightarrow> storage_key set" where
  "above read p k = {j. k < j \<and> starts_with j p \<and> read j \<noteq> None}"

lemma above_cong: "(\<And>j. k < j \<Longrightarrow> starts_with j p \<Longrightarrow> read' j = read j) \<Longrightarrow> above read' p k = above read p k"
  by (auto simp: above_def)

lemma above_finite: "finite (above read p k) \<Longrightarrow> k < n \<Longrightarrow> finite (above read p n)"
  by (erule rev_finite_subset) (auto simp: above_def dest: less_trans)

lemma sorted_list_of_set_least:
  assumes "finite A" "\<forall>a\<in>A. j < a"
  shows "sorted_list_of_set (insert j A) = j # sorted_list_of_set A"
proof -
  have "j \<notin> A" using assms(2) by auto
  then have "sorted_list_of_set (insert j A) = insort j (sorted_list_of_set A)" using assms(1) by simp
  also have "\<dots> = j # sorted_list_of_set A" by (rule insort_is_Cons) (use assms in \<open>auto simp: less_imp_le\<close>)
  finally show ?thesis .
qed

text \<open>The interface of a storage that is iterated by its keys: the next key is the least one above that has
  a value.\<close>

locale ordered_storage =
  fixes invar :: "'s \<Rightarrow> bool"
    and read_key :: "'s \<Rightarrow> storage_key \<Rightarrow> storage_value option"
    and next_key :: "'s \<Rightarrow> storage_key \<Rightarrow> storage_key option"
  assumes next_least: "invar s \<Longrightarrow> is_next (\<lambda>k. read_key s k \<noteq> None) k (next_key s k)"
begin

lemma next_with_prefix:
  assumes "invar s" "with_prefix_only p (next_key s k) = Some j"
  shows "k < j" "starts_with j p" "read_key s j \<noteq> None"
  using assms(2) next_least [OF assms(1), of k]
  by (auto simp: with_prefix_only_def is_next_simps split: option.splits if_splits)

text \<open>The next key with the prefix is the first of those above, and the others are above it.\<close>

lemma first_key:
  assumes "invar s" "p \<le> k" "finite (above (read_key s) p k)"
  shows "sorted_list_of_set (above (read_key s) p k) =
    (case with_prefix_only p (next_key s k) of None \<Rightarrow> [] | Some j \<Rightarrow> j # sorted_list_of_set (above (read_key s) p j))"
proof (cases "next_key s k")
  case None
  then have "above (read_key s) p k = {}" using next_least [OF assms(1), of k] by (auto simp: is_next_simps above_def)
  then show ?thesis using None by (simp add: with_prefix_only_def)
next
  case (Some j)
  then have j: "k < j" "read_key s j \<noteq> None" "\<And>i. k < i \<Longrightarrow> i < j \<Longrightarrow> read_key s i = None"
    using next_least [OF assms(1), of k] by (auto simp: is_next_simps)
  show ?thesis
  proof (cases "starts_with j p")
    case True
    have "i = j \<or> j < i" if "k < i" "read_key s i \<noteq> None" for i using j(3) [OF that(1)] that(2) by (cases i j rule: linorder_cases) auto
    then have S: "above (read_key s) p k = insert j (above (read_key s) p j)" using j(1,2) True by (auto simp: above_def dest: less_trans)
    then have "finite (above (read_key s) p j)" using assms(3) by simp
    then have "sorted_list_of_set (insert j (above (read_key s) p j)) = j # sorted_list_of_set (above (read_key s) p j)"
      by (rule sorted_list_of_set_least) (simp add: above_def)
    then show ?thesis using Some True unfolding S by (simp add: with_prefix_only_def)
  next
    case False
    have "\<not> starts_with i p" if "k < i" "read_key s i \<noteq> None" for i
      using prefix_interval [of i p j] assms(2) j(1) False j(3) [OF that(1)] that(2) by (meson less_imp_le not_less order_trans)
    then have "above (read_key s) p k = {}" unfolding above_def by blast
    then show ?thesis using Some False by (simp add: with_prefix_only_def)
  qed
qed

end

text \<open>A backend does what its trait promises.\<close>

definition backend_ok :: "('r, 't) backend \<Rightarrow> bool" where
  "backend_ok be \<longleftrightarrow>
     (\<forall>k. is_next (\<lambda>j. be_storage be j \<noteq> None) k (be_next_storage_key be k)) \<and>
     (\<forall>info k. is_next (\<lambda>j. be_child_storage be info j \<noteq> None) k (be_next_child_storage_key be info k))"

lemma ext_next_least:
  assumes "backend_ok be" "overlay_ok ov"
  shows "is_next (\<lambda>k. ext_storage be ov k \<noteq> None) k (ext_next_storage_key be ov k)"
  using assms merged_next_overlay [OF changes_relD(1), where B = "be_storage be" and bn = "be_next_storage_key be"]
  by (auto simp: overlay_ok_def backend_ok_def ext_storage_def storage_def ext_next_storage_key_def iter_after_def)

lemma merged_next_Nil: "merged_next_key bn [] k = bn k"
  by (cases "bn k") (simp_all add: merged_next_key_def)

lemma ext_next_child_least:
  assumes "backend_ok be" "overlay_ok ov"
  shows "is_next (\<lambda>k. ext_child_storage be ov info k \<noteq> None) k (ext_next_child_storage_key be ov info k)"
proof -
  obtain ls prot where rel: "changes_rel ov (ls, prot)" using assms(2) by (auto simp: overlay_ok_def)
  have be: "is_next (\<lambda>j. be_child_storage be info j \<noteq> None) k (be_next_child_storage_key be info k)" for k
    using assms(1) by (simp add: backend_ok_def)
  note cr = changes_relD(4) [OF rel, of "child_storage_key info"]
  show ?thesis
  proof (cases "bt_lookup (children ov) (child_storage_key info)")
    case None
    then show ?thesis using be
      by (simp add: ext_child_storage_def child_storage_def ext_next_child_storage_key_def child_iter_after_def merged_next_Nil)
  next
    case (Some e)
    obtain cs i where e: "e = (cs, i)" by (cases e)
    have "overlay_values cs (map (\<lambda>l. child_writes l (child_storage_key info)) ls) prot"
      using cr by (simp add: Some e child_rel_simps)
    from merged_next_overlay [OF this be, of k] show ?thesis
      by (simp add: Some e ext_child_storage_def child_storage_def ext_next_child_storage_key_def child_iter_after_def)
  qed
qed

interpretation ext: ordered_storage "\<lambda>(be, ov). backend_ok be \<and> overlay_ok ov"
  "\<lambda>(be, ov). ext_storage be ov" "\<lambda>(be, ov). ext_next_storage_key be ov"
  by unfold_locales (clarsimp simp del: not_None_eq simp: ext_next_least)

interpretation ext_child: ordered_storage "\<lambda>(be, ov, info). backend_ok be \<and> overlay_ok ov"
  "\<lambda>(be, ov, info). ext_child_storage be ov info" "\<lambda>(be, ov, info). ext_next_child_storage_key be ov info"
  by unfold_locales (clarsimp simp del: not_None_eq simp: ext_next_child_least)

lemma basic_next_least:
  assumes "overlay_ok ov"
  shows "is_next (\<lambda>k. basic_storage ov k \<noteq> None) k (basic_next_storage_key ov k)"
proof -
  obtain ls prot where rel: "changes_rel ov (ls, prot)" using assms by (auto simp: overlay_ok_def)
  have "is_next (\<lambda>j. (case read_value (top_changes ov) j of Some v \<Rightarrow> v | None \<Rightarrow> None) \<noteq> None) k
      (merged_next_key (\<lambda>_. None) (changes_after k (top_changes ov)) k)"
    by (rule merged_next_overlay [OF changes_relD(1) [OF rel]]) (simp add: is_next_simps)
  moreover have "basic_storage ov j = (case read_value (top_changes ov) j of Some v \<Rightarrow> v | None \<Rightarrow> None)" for j
    by (cases "read_value (top_changes ov) j") (simp_all add: basic_storage_def storage_def)
  ultimately show ?thesis by (simp add: merged_next_nothing basic_next_storage_key_def iter_after_def)
qed

interpretation basic: ordered_storage overlay_ok basic_storage basic_next_storage_key
  by unfold_locales (rule basic_next_least)

section \<open>Removing many keys\<close>

lemma overlay_ok_step:
  assumes "overlay_ok ov" "x \<notin> {Ov_Start, Ov_Commit, Ov_Rollback, Ov_Enter, Ov_Exit}"
  obtains l ls prot ov' where "changes_rel ov (l # ls, prot)" "change_step dec x ov = (Inr (), ov')"
    "changes_rel ov' (spec_write x (l # ls) l # ls, prot)" "overlay_ok ov'"
proof -
  obtain ls prot where rel: "changes_rel ov (ls, prot)" using assms(1) by (auto simp: overlay_ok_def)
  obtain l rest where ls: "ls = l # rest" using changes_rel_nonempty [OF rel] by (cases ls) auto
  from change_write_refines [OF rel [unfolded ls] assms(2), of dec] that rel show thesis unfolding ls overlay_ok_def by blast
qed

lemma top_view_hd: "top_view (l # ls) k = (case top_writes l k of Some v \<Rightarrow> Some v | None \<Rightarrow> top_view ls k)"
  by (simp add: top_view_def map_add_def split: option.splits)

lemma set_storage_view:
  assumes "overlay_ok ov"
  shows "overlay_ok (set_storage dec k v ov)" "storage (set_storage dec k v ov) = (storage ov)(k \<mapsto> v)"
proof -
  obtain l ls prot ov' where s: "changes_rel ov (l # ls, prot)" "change_step dec (Ov_Set k v) ov = (Inr (), ov')"
    "changes_rel ov' (spec_write (Ov_Set k v) (l # ls) l # ls, prot)" "overlay_ok ov'"
    by (rule overlay_ok_step [OF assms, of "Ov_Set k v" dec]) auto
  then have ov': "ov' = set_storage dec k v ov" by simp
  show "overlay_ok (set_storage dec k v ov)" using s(4) ov' by simp
  show "storage (set_storage dec k v ov) = (storage ov)(k \<mapsto> v)"
    using changes_rel_reads(1) [OF s(1)] changes_rel_reads(1) [OF s(3)]
    by (auto simp: ov' fun_eq_iff top_view_hd split: option.splits)
qed

lemma clear_prefix_view:
  assumes "overlay_ok ov"
  shows "overlay_ok (snd (clear_prefix dec p ov))"
    "storage (snd (clear_prefix dec p ov)) k = (if storage ov k \<noteq> None \<and> starts_with k p then Some None else storage ov k)"
proof -
  obtain l ls prot ov' where s: "changes_rel ov (l # ls, prot)" "change_step dec (Ov_Clear_Prefix p) ov = (Inr (), ov')"
    "changes_rel ov' (spec_write (Ov_Clear_Prefix p) (l # ls) l # ls, prot)" "overlay_ok ov'"
    by (rule overlay_ok_step [OF assms, of "Ov_Clear_Prefix p" dec]) auto
  then have ov': "ov' = snd (clear_prefix dec p ov)" by simp
  show "overlay_ok (snd (clear_prefix dec p ov))" using s(4) ov' by simp
  show "storage (snd (clear_prefix dec p ov)) k = (if storage ov k \<noteq> None \<and> starts_with k p then Some None else storage ov k)"
    using changes_rel_reads(1) [OF s(1), of k] changes_rel_reads(1) [OF s(3), of k]
    by (auto simp: ov' top_view_hd delete_known_def split: option.splits)
qed

text \<open>How many keys the loop runs through.\<close>

definition loop_length :: "u32 option \<Rightarrow> u32 \<Rightarrow> nat \<Rightarrow> nat" where
  "loop_length limit lc n = (case limit of None \<Rightarrow> n | Some l \<Rightarrow> min n (unat l - unat lc))"

lemma loop_length_Suc:
  assumes "limit \<noteq> Some lc" "\<And>l. limit = Some l \<Longrightarrow> unat lc \<le> unat l"
  shows "loop_length limit lc (Suc n) = Suc (loop_length limit (saturating_inc32 lc) n)"
    "\<And>l. limit = Some l \<Longrightarrow> unat (saturating_inc32 lc) = unat lc + 1 \<and> unat (saturating_inc32 lc) \<le> unat l"
proof -
  have lt: "unat lc < unat l" if "limit = Some l" for l using assms that by (metis le_neq_implies_less word_unat_eq_iff)
  have inc: "unat (saturating_inc32 lc) = unat lc + 1" if "limit = Some l" for l
  proof -
    have "unat l < 2 ^ 32" using unsigned_less [of l] by simp
    then have "unat lc + 1 < 2 ^ 32" using lt [OF that] by linarith
    moreover have "unat (- 1 :: u32) = 2 ^ 32 - 1" by (simp add: unsigned_minus_1_eq_mask mask_eq_exp_minus_1)
    then have "lc \<noteq> - 1" using \<open>unat lc + 1 < 2 ^ 32\<close> by auto
    ultimately show ?thesis by (simp add: saturating_inc32_def unat_word_ariths)
  qed
  show "\<And>l. limit = Some l \<Longrightarrow> unat (saturating_inc32 lc) = unat lc + 1 \<and> unat (saturating_inc32 lc) \<le> unat l"
    using lt inc by fastforce
  show "loop_length limit lc (Suc n) = Suc (loop_length limit (saturating_inc32 lc) n)"
  proof (cases limit)
    case (Some l)
    then show ?thesis using lt [OF Some] inc [OF Some] by (auto simp: loop_length_def min_def)
  qed (simp add: loop_length_def)
qed

lemma limit_remove_loop_view:
  assumes "overlay_ok ov" "\<And>l. limit = Some l \<Longrightarrow> unat lc \<le> unat l" "loop_length limit lc (length keys) = n"
  shows "\<exists>dc' lc' ov'. limit_remove_loop cd None limit keys dc lc ov =
      (Inr (if n < length keys then Some (keys ! n) else None, dc', lc'), ov') \<and> overlay_ok ov' \<and>
    (\<forall>j. storage ov' j = (if j \<in> set (take n keys) then Some None else storage ov j)) \<and>
    (\<forall>l. limit = Some l \<longrightarrow> unat lc' = unat lc + n)"
  using assms
proof (induction keys arbitrary: ov dc lc n)
  case Nil
  then show ?case by (auto simp: loop_length_def split: option.splits)
next
  case (Cons key keys)
  show ?case
  proof (cases "limit = Some lc")
    case True
    then have "n = 0" using Cons.prems(3) by (simp add: loop_length_def)
    then show ?thesis using True Cons.prems(1) by simp
  next
    case False
    note step = loop_length_Suc [OF False Cons.prems(2)]
    obtain m where n: "n = Suc m" "loop_length limit (saturating_inc32 lc) (length keys) = m"
      using Cons.prems(3) step(1) [of "length keys"] by auto
    show ?thesis
    proof (cases "storage ov key = Some None")
      case True
      then show ?thesis
        using Cons.IH [OF Cons.prems(1) _ n(2), of dc] False step(2) n(1) by (fastforce split: if_splits)
    next
      case pend: False
      note sv = set_storage_view [OF Cons.prems(1), of "decode_index cd" key None]
      show ?thesis
        using Cons.IH [OF sv(1) _ n(2), of "saturating_inc32 dc"] False pend step(2) n(1) sv(2) by (fastforce split: if_splits)
    qed
  qed
qed

text \<open>The keys the backend runs through: those with the prefix from the start on, in order.\<close>

definition backend_keys_ok :: "('r, 't) backend \<Rightarrow> bool" where
  "backend_keys_ok be \<longleftrightarrow> (\<forall>p c. sorted_wrt (<) (be_keys be None (Some p) c) \<and>
     set (be_keys be None (Some p) c) =
       {k. be_storage be k \<noteq> None \<and> starts_with k p \<and> (case c of None \<Rightarrow> True | Some c0 \<Rightarrow> c0 \<le> k)})"

lemma take_sorted:
  assumes "sorted_wrt (<) (xs :: 'a :: linorder list)"
  shows "x \<in> set (take n xs) \<longleftrightarrow> x \<in> set xs \<and> (n < length xs \<longrightarrow> x < xs ! n)"
proof (cases "n < length xs")
  case False
  then show ?thesis by simp
next
  case True
  have "x \<in> set (take n xs) \<longleftrightarrow> (\<exists>i<n. xs ! i = x)" using True by (auto simp: in_set_conv_nth)
  also have "\<dots> \<longleftrightarrow> x \<in> set xs \<and> x < xs ! n"
  proof
    assume "\<exists>i<n. xs ! i = x"
    then show "x \<in> set xs \<and> x < xs ! n" using True sorted_wrt_nth_less [OF assms] by auto
  next
    assume x: "x \<in> set xs \<and> x < xs ! n"
    then obtain i where i: "i < length xs" "xs ! i = x" by (auto simp: in_set_conv_nth)
    have "\<not> n \<le> i" using sorted_wrt_nth_less [OF assms, of n i] i x by (auto simp: le_less)
    then show "\<exists>i<n. xs ! i = x" using i(2) not_le by blast
  qed
  finally show ?thesis using True by simp
qed

section \<open>Results\<close>

text \<open>A run of \<open>clear_prefix\<close>: what is left of the keys, and how many were visited.\<close>

lemma ext_clear_prefix_run:
  assumes "overlay_ok (overlay e)" "\<not> starts_with_child_storage_key p"
    "ks = be_keys be None (Some p) cursor" "n = loop_length limit 0 (length ks)"
  shows "\<exists>r e'. ext_clear_prefix cd be p limit cursor e = (Inr r, e') \<and> overlay_ok (overlay e') \<and>
    maybe_cursor r = (if n < length ks then Some (ks ! n) else None) \<and> (\<forall>l. limit = Some l \<longrightarrow> unat (loops_count r) = n) \<and>
    (\<forall>k. storage (overlay e') k =
       (if k \<in> set (take n ks) \<or> storage (overlay e) k \<noteq> None \<and> starts_with k p then Some None else storage (overlay e) k))"
proof -
  obtain n0 ov1 where c: "clear_prefix (decode_index cd) p (overlay e) = (n0, ov1)" by fastforce
  have v1: "overlay_ok ov1" "storage ov1 k = (if storage (overlay e) k \<noteq> None \<and> starts_with k p then Some None else storage (overlay e) k)" for k
    using clear_prefix_view [OF assms(1), of "decode_index cd" p] by (simp_all add: c)
  obtain dc lc ov2 where l: "limit_remove_loop cd None limit ks 0 0 ov1 = (Inr (if n < length ks then Some (ks ! n) else None, dc, lc), ov2)"
    "overlay_ok ov2" "\<And>j. storage ov2 j = (if j \<in> set (take n ks) then Some None else storage ov1 j)" "\<And>m. limit = Some m \<Longrightarrow> unat lc = n"
    using limit_remove_loop_view [OF v1(1), of limit 0 ks n cd 0] by (auto simp: assms(4))
  have "ext_clear_prefix cd be p limit cursor e =
      (Inr \<lparr>maybe_cursor = (if n < length ks then Some (ks ! n) else None), backend_count = dc, unique_count = n0 + dc, loops_count = lc\<rparr>,
       (mark_dirty e)\<lparr>overlay := ov2\<rparr>)"
    using assms(2) c l(1)
    by (simp add: ext_clear_prefix_def Let_def removal_after_def limit_remove_from_backend_def assms(3) mark_dirty_def)
  then show ?thesis using l(2,4) by (auto simp: l(3) v1(2))
qed

text \<open>C16: Clearing a prefix that does not touch the child storage keys removes exactly the keys with the
  prefix that the overlay knows and, of the others, those from the given cursor on and below the
  returned one; all of them if no cursor is returned. Other keys keep their values, at most as many
  keys of the backend are visited as the limit allows, and nothing panics.\<close>

theorem ext_clear_prefix_exact:
  assumes "backend_keys_ok be" "overlay_ok (overlay e)" "\<not> starts_with_child_storage_key p"
  shows "\<exists>r e'. ext_clear_prefix cd be p limit cursor e = (Inr r, e') \<and> overlay_ok (overlay e') \<and>
    (\<forall>k. ext_storage be (overlay e') k =
       (if starts_with k p \<and> (storage (overlay e) k \<noteq> None \<or>
            (case cursor of None \<Rightarrow> True | Some c \<Rightarrow> c \<le> k) \<and> (case maybe_cursor r of None \<Rightarrow> True | Some c \<Rightarrow> k < c))
        then None else ext_storage be (overlay e) k)) \<and>
    (case limit of None \<Rightarrow> maybe_cursor r = None | Some l \<Rightarrow> loops_count r \<le> l)"
proof -
  define ks where "ks = be_keys be None (Some p) cursor"
  define n where "n = loop_length limit 0 (length ks)"
  have ks: "sorted_wrt (<) ks"
    "set ks = {k. be_storage be k \<noteq> None \<and> starts_with k p \<and> (case cursor of None \<Rightarrow> True | Some c \<Rightarrow> c \<le> k)}"
    using assms(1) by (simp_all add: backend_keys_ok_def ks_def)
  obtain r e' where r: "ext_clear_prefix cd be p limit cursor e = (Inr r, e')" "overlay_ok (overlay e')"
    "maybe_cursor r = (if n < length ks then Some (ks ! n) else None)" "\<And>l. limit = Some l \<Longrightarrow> unat (loops_count r) = n"
    "\<And>k. storage (overlay e') k =
       (if k \<in> set (take n ks) \<or> storage (overlay e) k \<noteq> None \<and> starts_with k p then Some None else storage (overlay e) k)"
    using ext_clear_prefix_run [OF assms(2,3) ks_def n_def, of cd] by blast
  have "ext_storage be (overlay e') k =
       (if starts_with k p \<and> (storage (overlay e) k \<noteq> None \<or>
            (case cursor of None \<Rightarrow> True | Some c \<Rightarrow> c \<le> k) \<and> (case maybe_cursor r of None \<Rightarrow> True | Some c \<Rightarrow> k < c))
        then None else ext_storage be (overlay e) k)" for k
  proof -
    have "k \<in> set (take n ks) \<longleftrightarrow> be_storage be k \<noteq> None \<and> starts_with k p \<and>
        (case cursor of None \<Rightarrow> True | Some c \<Rightarrow> c \<le> k) \<and> (case maybe_cursor r of None \<Rightarrow> True | Some c \<Rightarrow> k < c)"
      unfolding take_sorted [OF ks(1)] ks(2) by (simp add: r(3))
    then show ?thesis by (auto simp: ext_storage_def r(5))
  qed
  moreover have "case limit of None \<Rightarrow> maybe_cursor r = None | Some l \<Rightarrow> loops_count r \<le> l"
    using r(3,4) by (cases limit) (auto simp: n_def loop_length_def word_le_nat_alt)
  ultimately show ?thesis using r(1,2) by blast
qed

text \<open>A backend with one key.\<close>

definition example_backend :: "(unit, unit) backend" where
  "example_backend = \<lparr>be_storage = (\<lambda>k. if k = [1] then Some [7] else None), be_storage_hash = (\<lambda>_. None),
     be_child_storage = (\<lambda>_ _. None), be_child_storage_hash = (\<lambda>_ _. None),
     be_next_storage_key = (\<lambda>k. if k < [1] then Some [1] else None), be_next_child_storage_key = (\<lambda>_ _. None),
     be_keys = (\<lambda>info p c. if info = None \<and> starts_with [1] (case p of None \<Rightarrow> [] | Some p \<Rightarrow> p) \<and>
        (case c of None \<Rightarrow> True | Some c \<Rightarrow> c \<le> [1]) then [[1]] else []),
     be_full_storage_root = (\<lambda>_ _ _. ((), ())), be_child_storage_root = (\<lambda>_ _ _. ((), True))\<rparr>"

definition example_codec :: "unit codec" where
  "example_codec = \<lparr>decode_index = (\<lambda>_. None), hash_value = (\<lambda>_. ()), encode_root = (\<lambda>_. []), decode_root = (\<lambda>_. None),
     empty_child_trie_root = (), encode_one = id, append_or_new = (\<lambda>_ _. None)\<rparr>"

lemma example_backend_ok: "backend_ok example_backend" "backend_keys_ok example_backend" "overlay_ok overlayed_changes_default"
proof -
  show "backend_ok example_backend" by (auto simp: backend_ok_def example_backend_def is_next_simps)
  show "backend_keys_ok example_backend"
    by (auto simp: backend_keys_ok_def example_backend_def split: option.splits)
  show "overlay_ok overlayed_changes_default" unfolding overlay_ok_def using changes_rel_default by blast
qed

definition example_ext :: "(unit, unit) ext" where
  "example_ext = \<lparr>overlay = overlayed_changes_default, cache = \<lparr>cache_transaction = None, cache_root = None\<rparr>\<rparr>"

theorem ext_clear_prefix_exact_witness:
  "backend_keys_ok example_backend \<and> overlay_ok (overlay example_ext) \<and> \<not> starts_with_child_storage_key [1] \<and>
    (\<exists>r e'. ext_clear_prefix example_codec example_backend [1] (Some 0) None example_ext = (Inr r, e') \<and> loops_count r \<le> 0)"
proof -
  have "\<not> starts_with_child_storage_key [1]" by code_simp
  then show ?thesis
    using ext_clear_prefix_exact [OF example_backend_ok(2), of example_ext "[1]" example_codec "Some 0" None] example_backend_ok
    by (auto simp: example_ext_def)
qed

section \<open>The cached root\<close>

text \<open>What the root of an overlay is computed from.\<close>

definition overlay_content ::
  "overlayed_changes \<Rightarrow> (storage_key \<times> storage_value option) list \<times> (child_info \<times> (storage_key \<times> storage_value option) list) list" where
  "overlay_content ov = (current_delta (top_changes ov), map (\<lambda>(_, cs, info). (info, current_delta cs)) (children ov))"

definition content_root :: "('r, 't) backend \<Rightarrow> state_version \<Rightarrow> overlayed_changes \<Rightarrow> 'r \<times> 't" where
  "content_root be version ov = (case overlay_content ov of (main, ch) \<Rightarrow> be_full_storage_root be version main ch)"

lemma storage_root_content:
  "storage_root (be_full_storage_root be version) c ov =
     (fst (content_root be version ov),
      c\<lparr>cache_transaction := Some (snd (content_root be version ov)), cache_root := Some (fst (content_root be version ov))\<rparr>)"
  by (simp add: storage_root_def content_root_def overlay_content_def split: prod.splits)

lemma current_delta_cong:
  assumes "overlay_values m vs prot" "overlay_values m' vs' prot'" "\<And>k. read_value m k = read_value m' k"
  shows "current_delta m = current_delta m'"
proof (rule bt_extensional)
  have keys: "map fst (current_delta m) = map fst (changes m)" for m by (simp add: current_delta_def comp_def case_prod_beta)
  show "bt_inv (current_delta m)" "bt_inv (current_delta m')"
    using overlay_values_entries(2) [OF assms(1)] overlay_values_entries(2) [OF assms(2)] unfolding bt_inv_def keys .
  show "bt_lookup (current_delta m) = bt_lookup (current_delta m')"
    using overlay_values_entries(3) [OF assms(1)] overlay_values_entries(3) [OF assms(2)] assms(3)
    by (simp add: fun_eq_iff bt_lookup_def current_delta_def)
qed

lemma commit_delta:
  assumes "overlay_values m vs prot" "closable prot vs"
  shows "\<exists>m'. commit_transaction m = (Inr (), m') \<and> current_delta m' = current_delta m"
proof -
  obtain u l rest where vs: "vs = u # l # rest" using assms(2) by (cases vs; cases "tl vs") (auto simp: closable_def)
  obtain m' where m': "commit_transaction m = (Inr (), m')" "overlay_values m' ((l ++ u) # rest) prot"
    using cs.rel_commit [of m u l rest prot] assms unfolding vs by blast
  have "read_value m' k = read_value m k" for k
    using cs.rel_read [OF m'(2)] cs.rel_read [OF assms(1)] values_view_merge [of "[]" l u rest] by (simp add: vs)
  then show ?thesis using current_delta_cong [OF m'(2) assms(1)] m'(1) by blast
qed

lemma keyed_content:
  fixes ch ch' :: "(storage_key \<times> change_set \<times> child_info) list"
  assumes "bt_inv ch" "bt_inv ch'"
    "\<And>k. map_option (\<lambda>(cs, info). (info, current_delta cs)) (bt_lookup ch k) = map_option (\<lambda>(cs, info). (info, current_delta cs)) (bt_lookup ch' k)"
  shows "map (\<lambda>(_, cs, info). (info, current_delta cs)) ch = map (\<lambda>(_, cs, info). (info, current_delta cs)) ch'"
proof -
  let ?f = "\<lambda>(k, cs, info). (k, info, current_delta cs)"
  have l: "bt_lookup (map ?f ch) k = map_option (\<lambda>(cs, info). (info, current_delta cs)) (bt_lookup ch k)"
    for k and ch :: "(storage_key \<times> change_set \<times> child_info) list" by (induction ch) (auto simp: bt_lookup_def)
  have i: "bt_inv (map ?f ch)" if "bt_inv ch" for ch :: "(storage_key \<times> change_set \<times> child_info) list"
    using that by (auto simp: bt_inv_def comp_def case_prod_beta)
  have "map ?f ch = map ?f ch'" by (rule bt_extensional [OF i i]) (use assms l in \<open>auto simp: fun_eq_iff\<close>)
  then have "map snd (map ?f ch) = map snd (map ?f ch')" by (rule arg_cong)
  then show ?thesis by (simp add: comp_def case_prod_unfold)
qed

lemma commit_content:
  assumes "overlay_ok ov"
  shows "overlay_content (snd (overlay_commit ov)) = overlay_content ov"
proof -
  obtain ls prot where rel: "changes_rel ov (ls, prot)" using assms by (auto simp: overlay_ok_def)
  show ?thesis
  proof (cases "writes_closable (ls, prot)")
    case False
    then show ?thesis using overlay_refused_rel(2) [OF rel] by simp
  next
    case True
    obtain t where t: "commit_transaction (top_changes ov) = (Inr (), t)" "current_delta t = current_delta (top_changes ov)"
      using commit_delta [OF changes_relD(1) [OF rel]] True by (auto simp: closable_map)
    obtain oc where oc: "commit_transaction (offchain ov) = (Inr (), oc)"
      using cs.rel_commit [of "offchain ov" "offchain_writes (hd ls)" "offchain_writes (hd (tl ls))" "map offchain_writes (tl (tl ls))" prot]
        changes_relD(2) [OF rel] True by (cases ls; cases "tl ls") (auto simp: closable_def writes_closable_def)
    have ch: "\<exists>cs'. commit_transaction cs = (Inr (), cs') \<and> current_delta cs' = current_delta cs"
      if "bt_lookup (children ov) k = Some (cs, info)" for k cs info
    proof -
      have "overlay_values cs (map (\<lambda>l. child_writes l k) ls) prot"
        using changes_relD(4) [OF rel, of k] that by (simp add: child_rel_simps)
      then show ?thesis by (rule commit_delta) (use True in \<open>simp add: closable_map\<close>)
    qed
    obtain ch' where r: "retain_children (\<lambda>_. True) commit_transaction (children ov) = (Inr (), ch')" "bt_inv ch'"
      "\<And>k. bt_lookup ch' k = (case bt_lookup (children ov) k of None \<Rightarrow> None | Some (cs, info) \<Rightarrow> Some (snd (commit_transaction cs), info))"
    proof -
      have "\<forall>k cs info. bt_lookup (children ov) k = Some (cs, info) \<longrightarrow> (\<exists>cs'. commit_transaction cs = (Inr (), cs'))"
        using ch by blast
      from retain_children_rel [OF changes_relD(3) [OF rel] this, of "\<lambda>_. True", unfolded if_True] that show thesis by blast
    qed
    have "overlay_commit ov = (Inr (), ov\<lparr>top_changes := t, children := ch', offchain := oc\<rparr>)"
      by (simp add: overlay_commit_def for_children_def lockstep_def t r(1) oc)
    moreover have "map (\<lambda>(_, cs, info). (info, current_delta cs)) ch' = map (\<lambda>(_, cs, info). (info, current_delta cs)) (children ov)"
    proof (rule keyed_content [OF r(2) changes_relD(3) [OF rel]])
      fix k
      show "map_option (\<lambda>(cs, info). (info, current_delta cs)) (bt_lookup ch' k) =
          map_option (\<lambda>(cs, info). (info, current_delta cs)) (bt_lookup (children ov) k)"
        using ch [of k] by (cases "bt_lookup (children ov) k") (force simp: r(3))+
    qed
    ultimately show ?thesis by (simp add: overlay_content_def t(2))
  qed
qed

lemma start_content: "overlay_content (overlay_start ov) = overlay_content ov"
  by (simp add: overlay_content_def overlay_start_def current_delta_def start_transaction_def comp_def case_prod_beta)

lemma overlay_ok_change: "overlay_ok ov \<Longrightarrow> overlay_ok (snd (change_step dec x ov))"
proof -
  assume "overlay_ok ov"
  then obtain s where s: "changes_rel ov s" by (auto simp: overlay_ok_def)
  obtain r s' where "spec_change x s = (r, s')" by (cases "spec_change x s")
  from change_step_refines [OF s this, of dec] show ?thesis by (cases s') (clarsimp simp: overlay_ok_def, blast)
qed

lemmas overlay_ok_ops =
  overlay_ok_change [of _ _ "Ov_Set k v" for k v, simplified] overlay_ok_change [of _ _ "Ov_Mutate k i f" for k i f, simplified]
  overlay_ok_change [of _ _ "Ov_Set_Child info k v" for info k v, simplified]
  overlay_ok_change [of _ _ "Ov_Clear_Child info" for info, simplified snd_conv change_step.simps case_prod_beta]
  overlay_ok_change [of _ _ "Ov_Clear_Prefix p" for p, simplified]
  overlay_ok_change [of _ _ "Ov_Clear_Child_Prefix info p" for info p, simplified snd_conv change_step.simps case_prod_beta]
  overlay_ok_change [of _ _ "Ov_Set_Offchain k v" for k v, simplified] overlay_ok_change [of _ _ "Ov_Add_Index x" for x, simplified]
  overlay_ok_change [of _ _ Ov_Start, simplified] overlay_ok_change [of _ _ Ov_Commit, simplified] overlay_ok_change [of _ _ Ov_Rollback, simplified]

lemma limit_remove_loop_ok: "overlay_ok ov \<Longrightarrow> overlay_ok (snd (limit_remove_loop cd child limit keys dc lc ov))"
proof (induction keys arbitrary: dc lc ov)
  case (Cons key keys)
  define s where "s = (case child of Some info \<Rightarrow> set_child_storage (decode_index cd) info key None ov
    | None \<Rightarrow> (Inr (), set_storage (decode_index cd) key None ov))"
  have "overlay_ok (snd s)" using Cons.prems overlay_ok_ops(1,3) by (cases child) (simp_all add: s_def)
  moreover obtain r ov' where "s = (r, ov')" by fastforce
  ultimately show ?case using Cons by (cases r) (auto simp: s_def [symmetric])
qed simp

lemma removal_after_ok:
  assumes "overlay_ok (snd r)" "\<And>ov. overlay_ok ov \<Longrightarrow> overlay_ok (snd (f ov))"
  shows "overlay_ok (snd (removal_after r f))"
proof -
  obtain a ov where r: "r = (a, ov)" by fastforce
  obtain b ov' where f: "f ov = (b, ov')" by fastforce
  have "overlay_ok ov'" using assms r f by (metis snd_conv)
  then show ?thesis using assms(1) by (cases a; cases b) (auto simp: removal_after_def r f)
qed

text \<open>The cache is empty or holds the root and the transaction of the content of the overlay.\<close>

definition cache_fresh :: "('r, 't) backend \<Rightarrow> state_version \<Rightarrow> ('r, 't) ext \<Rightarrow> bool" where
  "cache_fresh be version e \<longleftrightarrow> overlay_ok (overlay e) \<and>
     (cache e = \<lparr>cache_transaction = None, cache_root = None\<rparr> \<or>
      cache e = \<lparr>cache_transaction = Some (snd (content_root be version (overlay e))),
                 cache_root = Some (fst (content_root be version (overlay e)))\<rparr>)"

lemma cache_fresh_dirty: "overlay_ok ov \<Longrightarrow> cache_fresh be version ((mark_dirty e)\<lparr>overlay := ov\<rparr>)"
  by (simp add: cache_fresh_def mark_dirty_def)

lemma cache_fresh_content:
  "cache_fresh be version e \<Longrightarrow> overlay_ok ov \<Longrightarrow> overlay_content ov = overlay_content (overlay e) \<Longrightarrow>
   cache_fresh be version (e\<lparr>overlay := ov\<rparr>)"
  by (auto simp: cache_fresh_def content_root_def)

lemma overlay_mark_dirty [simp]: "overlay (mark_dirty e) = overlay e"
  by (simp add: mark_dirty_def)

lemma ext_step_fresh:
  assumes f: "cache_fresh be version e"
  shows "cache_fresh be version (ext_step cd be version x e)"
proof -
  have ok: "overlay_ok (overlay e)" using f by (simp add: cache_fresh_def)
  note dirty = cache_fresh_dirty [where be = be and version = version and e = e]
  note lim = limit_remove_loop_ok [where cd = cd]
  show ?thesis
  proof (cases x)
    case (Ext_Place k v)
    then show ?thesis using f dirty [OF overlay_ok_ops(1) [OF ok]] by (simp add: ext_place_storage_def Let_def)
  next
    case (Ext_Place_Child info k v)
    then show ?thesis using dirty [OF overlay_ok_ops(3) [OF ok]]
      by (simp add: ext_place_child_storage_def Let_def case_prod_beta)
  next
    case (Ext_Kill_Child info l c)
    have "overlay_ok (snd (removal_after (clear_child_storage (decode_index cd) info (overlay e)) (limit_remove_from_backend cd be (Some info) None l c)))"
      by (rule removal_after_ok) (use overlay_ok_ops(4) [OF ok] lim in \<open>auto simp: limit_remove_from_backend_def\<close>)
    then show ?thesis using dirty Ext_Kill_Child by (simp add: ext_kill_child_storage_def Let_def case_prod_beta)
  next
    case (Ext_Clear_Prefix p l c)
    have "overlay_ok (snd (removal_after (map_prod Inr id (clear_prefix (decode_index cd) p (overlay e))) (limit_remove_from_backend cd be None (Some p) l c)))"
      by (rule removal_after_ok) (use overlay_ok_ops(5) [OF ok] lim in \<open>auto simp: limit_remove_from_backend_def\<close>)
    then show ?thesis using f dirty Ext_Clear_Prefix by (simp add: ext_clear_prefix_def Let_def case_prod_beta)
  next
    case (Ext_Clear_Child_Prefix info p l c)
    have "overlay_ok (snd (removal_after (clear_child_prefix (decode_index cd) info p (overlay e)) (limit_remove_from_backend cd be (Some info) (Some p) l c)))"
      by (rule removal_after_ok) (use overlay_ok_ops(6) [OF ok] lim in \<open>auto simp: limit_remove_from_backend_def\<close>)
    then show ?thesis using dirty Ext_Clear_Child_Prefix by (simp add: ext_clear_child_prefix_def Let_def case_prod_beta)
  next
    case (Ext_Append k v)
    then show ?thesis using dirty [OF overlay_ok_ops(2) [OF ok]] by (simp add: ext_storage_append_def Let_def)
  next
    case (Ext_Offchain k v)
    then show ?thesis using cache_fresh_content [OF f overlay_ok_ops(7) [OF ok]]
      by (simp add: ext_set_offchain_storage_def set_offchain_storage_def overlay_content_def)
  next
    case (Ext_Index i h n)
    then show ?thesis using cache_fresh_content [OF f overlay_ok_ops(8) [OF ok]]
      by (simp add: ext_storage_index_transaction_def add_transaction_index_def overlay_content_def)
  next
    case (Ext_Renew i h)
    then show ?thesis using cache_fresh_content [OF f overlay_ok_ops(8) [OF ok]]
      by (simp add: ext_storage_renew_transaction_index_def add_transaction_index_def overlay_content_def)
  next
    case Ext_Root
    then show ?thesis using f by (auto simp: ext_storage_root_def cache_fresh_def storage_root_content split: option.splits)
  next
    case (Ext_Child_Root info)
    then show ?thesis using f overlay_ok_ops(1) [OF ok]
      by (auto simp: ext_child_storage_root_def cache_fresh_def split: option.splits prod.splits)
  next
    case Ext_Start
    then show ?thesis using cache_fresh_content [OF f overlay_ok_ops(9) [OF ok]] by (simp add: ext_start_transaction_def start_content)
  next
    case Ext_Commit
    then show ?thesis using cache_fresh_content [OF f overlay_ok_ops(10) [OF ok] commit_content [OF ok]]
      by (simp add: ext_commit_transaction_def case_prod_beta)
  next
    case Ext_Rollback
    then show ?thesis using dirty [OF overlay_ok_ops(11) [OF ok]]
      by (simp add: ext_rollback_transaction_def Let_def case_prod_beta)
  qed
qed


text \<open>The cache does not know for which version a root was computed.\<close>

lemma cached_root_ignores_version:
  "cache_root (cache e) = Some r \<Longrightarrow> ext_storage_root cd be V0 e = ext_storage_root cd be V1 e"
  by (simp add: ext_storage_root_def)

end
