(* ===== verification/Unhashed.thy ===== *)
theory Unhashed
  imports Externalities
begin

text \<open>
  How the runtime reads and writes its storage: the host functions of \<open>primitives/io/src/lib.rs\<close> for the
  top and the child storages, the accessors of \<open>frame/support/src/storage/unhashed.rs\<close> and
  \<open>child.rs\<close>, and the three iterators over a prefix of \<open>storage/mod.rs\<close>. The decoders of
  values and the hook of a draining iterator are parameters. The body of the loop in \<open>next\<close> is a
  round; the locale \<open>key_cursor\<close> is the contract of a round, and each iterator keeps it. The lemmas
  show that an iteration is complete and what draining and clearing remove.
\<close>


section \<open>Host functions\<close>

text \<open>The storage interface of \<open>primitives/io\<close>, in the version the runtime calls.\<close>

datatype kill_storage_result = All_Removed u32 | Some_Remaining u32

definition kill_result_from :: "multi_removal_results \<Rightarrow> kill_storage_result" where
  "kill_result_from r = (case maybe_cursor r of None \<Rightarrow> All_Removed (loops_count r) | Some _ \<Rightarrow> Some_Remaining (loops_count r))"

definition io_get :: "('r, 't) backend \<Rightarrow> storage_key \<Rightarrow> ('r, 't) ext \<Rightarrow> u8 list option" where
  "io_get be key e = ext_storage be (overlay e) key"

text \<open>What is written into the buffer, and the length beyond the offset, cast to \<open>u32\<close>.\<close>

definition read_into :: "u8 list \<Rightarrow> u8 list \<Rightarrow> u32 \<Rightarrow> u8 list \<times> u32" where
  "read_into v value_out value_offset =
     (let data = drop (min (unat value_offset) (length v)) v;
          written = min (length data) (length value_out)
      in (take written data @ drop written value_out, of_nat (length data)))"

definition io_read ::
  "('r, 't) backend \<Rightarrow> storage_key \<Rightarrow> u8 list \<Rightarrow> u32 \<Rightarrow> ('r, 't) ext \<Rightarrow> u32 option \<times> u8 list" where
  "io_read be key value_out value_offset e =
     (case ext_storage be (overlay e) key of
        None \<Rightarrow> (None, value_out)
      | Some v \<Rightarrow> (case read_into v value_out value_offset of (out, n) \<Rightarrow> (Some n, out)))"

definition io_set :: "'r codec \<Rightarrow> storage_key \<Rightarrow> u8 list \<Rightarrow> ('r, 't) ext \<Rightarrow> ('r, 't) ext" where
  "io_set cd key v e = ext_place_storage cd key (Some v) e"

definition io_clear :: "'r codec \<Rightarrow> storage_key \<Rightarrow> ('r, 't) ext \<Rightarrow> ('r, 't) ext" where
  "io_clear cd key e = ext_place_storage cd key None e"

definition io_exists :: "('r, 't) backend \<Rightarrow> storage_key \<Rightarrow> ('r, 't) ext \<Rightarrow> bool" where
  "io_exists be key e = ext_exists_storage be (overlay e) key"

definition io_clear_prefix ::
  "'r codec \<Rightarrow> ('r, 't) backend \<Rightarrow> storage_key \<Rightarrow> u32 option \<Rightarrow> ('r, 't) ext \<Rightarrow> (changeset_error + kill_storage_result) \<times> ('r, 't) ext" where
  "io_clear_prefix cd be prefix limit e = map_prod (map_sum id kill_result_from) id (ext_clear_prefix cd be prefix limit None e)"

definition io_next_key :: "('r, 't) backend \<Rightarrow> storage_key \<Rightarrow> ('r, 't) ext \<Rightarrow> storage_key option" where
  "io_next_key be key e = ext_next_storage_key be (overlay e) key"

definition io_append :: "'r codec \<Rightarrow> ('r, 't) backend \<Rightarrow> storage_key \<Rightarrow> u8 list \<Rightarrow> ('r, 't) ext \<Rightarrow> ('r, 't) ext" where
  "io_append cd be key v e = ext_storage_append cd be key v e"

definition io_root :: "'r codec \<Rightarrow> ('r, 't) backend \<Rightarrow> state_version \<Rightarrow> ('r, 't) ext \<Rightarrow> u8 list \<times> ('r, 't) ext" where
  "io_root cd be version e = ext_storage_root cd be version e"

definition io_start_transaction :: "('r, 't) ext \<Rightarrow> ('r, 't) ext" where
  "io_start_transaction e = ext_start_transaction e"

text \<open>\<open>expect\<close>: every error is a panic.\<close>

definition io_rollback_transaction :: "('r, 't) ext \<Rightarrow> (changeset_error + unit) \<times> ('r, 't) ext" where
  "io_rollback_transaction e = map_prod (map_sum (\<lambda>_. Changeset_Panic) id) id (ext_rollback_transaction e)"

definition io_commit_transaction :: "('r, 't) ext \<Rightarrow> (changeset_error + unit) \<times> ('r, 't) ext" where
  "io_commit_transaction e = map_prod (map_sum (\<lambda>_. Changeset_Panic) id) id (ext_commit_transaction e)"

text \<open>The same for a child storage; the key of the storage is turned into its description.\<close>

definition io_child_get :: "('r, 't) backend \<Rightarrow> storage_key \<Rightarrow> storage_key \<Rightarrow> ('r, 't) ext \<Rightarrow> u8 list option" where
  "io_child_get be storage_key key e = ext_child_storage be (overlay e) (ParentKeyId storage_key) key"

definition io_child_read ::
  "('r, 't) backend \<Rightarrow> storage_key \<Rightarrow> storage_key \<Rightarrow> u8 list \<Rightarrow> u32 \<Rightarrow> ('r, 't) ext \<Rightarrow> u32 option \<times> u8 list" where
  "io_child_read be storage_key key value_out value_offset e =
     (case ext_child_storage be (overlay e) (ParentKeyId storage_key) key of
        None \<Rightarrow> (None, value_out)
      | Some v \<Rightarrow> (case read_into v value_out value_offset of (out, n) \<Rightarrow> (Some n, out)))"

definition io_child_set ::
  "'r codec \<Rightarrow> storage_key \<Rightarrow> storage_key \<Rightarrow> u8 list \<Rightarrow> ('r, 't) ext \<Rightarrow> (changeset_error + unit) \<times> ('r, 't) ext" where
  "io_child_set cd storage_key key v e = ext_place_child_storage cd (ParentKeyId storage_key) key (Some v) e"

definition io_child_clear ::
  "'r codec \<Rightarrow> storage_key \<Rightarrow> storage_key \<Rightarrow> ('r, 't) ext \<Rightarrow> (changeset_error + unit) \<times> ('r, 't) ext" where
  "io_child_clear cd storage_key key e = ext_place_child_storage cd (ParentKeyId storage_key) key None e"

definition io_child_storage_kill ::
  "'r codec \<Rightarrow> ('r, 't) backend \<Rightarrow> storage_key \<Rightarrow> u32 option \<Rightarrow> ('r, 't) ext \<Rightarrow> (changeset_error + kill_storage_result) \<times> ('r, 't) ext" where
  "io_child_storage_kill cd be storage_key limit e =
     map_prod (map_sum id kill_result_from) id (ext_kill_child_storage cd be (ParentKeyId storage_key) limit None e)"

definition io_child_exists :: "('r, 't) backend \<Rightarrow> storage_key \<Rightarrow> storage_key \<Rightarrow> ('r, 't) ext \<Rightarrow> bool" where
  "io_child_exists be storage_key key e = ext_exists_child_storage be (overlay e) (ParentKeyId storage_key) key"

definition io_child_clear_prefix ::
  "'r codec \<Rightarrow> ('r, 't) backend \<Rightarrow> storage_key \<Rightarrow> storage_key \<Rightarrow> u32 option \<Rightarrow> ('r, 't) ext \<Rightarrow>
   (changeset_error + kill_storage_result) \<times> ('r, 't) ext" where
  "io_child_clear_prefix cd be storage_key prefix limit e =
     map_prod (map_sum id kill_result_from) id (ext_clear_child_prefix cd be (ParentKeyId storage_key) prefix limit None e)"

definition io_child_root ::
  "'r codec \<Rightarrow> ('r, 't) backend \<Rightarrow> storage_key \<Rightarrow> state_version \<Rightarrow> ('r, 't) ext \<Rightarrow> u8 list \<times> ('r, 't) ext" where
  "io_child_root cd be storage_key version e = ext_child_storage_root cd be (ParentKeyId storage_key) version e"

definition io_child_next_key :: "('r, 't) backend \<Rightarrow> storage_key \<Rightarrow> storage_key \<Rightarrow> ('r, 't) ext \<Rightarrow> storage_key option" where
  "io_child_next_key be storage_key key e = ext_next_child_storage_key be (overlay e) (ParentKeyId storage_key) key"

section \<open>Values under a key\<close>

text \<open>\<open>frame/support/src/storage/unhashed.rs\<close>. The decoder of the type of values is a parameter, and so
  is its default; a value is put in its encoded form.\<close>

definition unhashed_get :: "(u8 list \<Rightarrow> 'a option) \<Rightarrow> ('r, 't) backend \<Rightarrow> storage_key \<Rightarrow> ('r, 't) ext \<Rightarrow> 'a option" where
  "unhashed_get dec be key e = Option.bind (io_get be key e) dec"

definition unwrap_or :: "'a option \<Rightarrow> 'a \<Rightarrow> 'a" where
  "unwrap_or v d = (case v of None \<Rightarrow> d | Some x \<Rightarrow> x)"

definition unhashed_get_or :: "(u8 list \<Rightarrow> 'a option) \<Rightarrow> ('r, 't) backend \<Rightarrow> storage_key \<Rightarrow> 'a \<Rightarrow> ('r, 't) ext \<Rightarrow> 'a" where
  "unhashed_get_or dec be key default_value e = unwrap_or (unhashed_get dec be key e) default_value"

definition unhashed_put :: "'r codec \<Rightarrow> storage_key \<Rightarrow> u8 list \<Rightarrow> ('r, 't) ext \<Rightarrow> ('r, 't) ext" where
  "unhashed_put cd key encoded e = io_set cd key encoded e"

definition unhashed_kill :: "'r codec \<Rightarrow> storage_key \<Rightarrow> ('r, 't) ext \<Rightarrow> ('r, 't) ext" where
  "unhashed_kill cd key e = io_clear cd key e"

definition unhashed_take ::
  "'r codec \<Rightarrow> (u8 list \<Rightarrow> 'a option) \<Rightarrow> ('r, 't) backend \<Rightarrow> storage_key \<Rightarrow> ('r, 't) ext \<Rightarrow> 'a option \<times> ('r, 't) ext" where
  "unhashed_take cd dec be key e =
     (let r = unhashed_get dec be key e in (r, if r \<noteq> None then unhashed_kill cd key e else e))"

definition unhashed_take_or ::
  "'r codec \<Rightarrow> (u8 list \<Rightarrow> 'a option) \<Rightarrow> ('r, 't) backend \<Rightarrow> storage_key \<Rightarrow> 'a \<Rightarrow> ('r, 't) ext \<Rightarrow> 'a \<times> ('r, 't) ext" where
  "unhashed_take_or cd dec be key default_value e =
     (case unhashed_take cd dec be key e of (r, e') \<Rightarrow> (unwrap_or r default_value, e'))"

definition unhashed_exists :: "('r, 't) backend \<Rightarrow> storage_key \<Rightarrow> ('r, 't) ext \<Rightarrow> bool" where
  "unhashed_exists be key e = io_exists be key e"

definition unhashed_kill_prefix ::
  "'r codec \<Rightarrow> ('r, 't) backend \<Rightarrow> storage_key \<Rightarrow> u32 option \<Rightarrow> ('r, 't) ext \<Rightarrow> (changeset_error + kill_storage_result) \<times> ('r, 't) ext" where
  "unhashed_kill_prefix cd be prefix limit e = io_clear_prefix cd be prefix limit e"

text \<open>The cursor that is handed in is not used.\<close>

definition removal_results_of :: "storage_key \<Rightarrow> kill_storage_result \<Rightarrow> multi_removal_results" where
  "removal_results_of cursor r =
     (case r of
        All_Removed i \<Rightarrow> \<lparr>maybe_cursor = None, backend_count = i, unique_count = i, loops_count = i\<rparr>
      | Some_Remaining i \<Rightarrow> \<lparr>maybe_cursor = Some cursor, backend_count = i, unique_count = i, loops_count = i\<rparr>)"

definition unhashed_clear_prefix ::
  "'r codec \<Rightarrow> ('r, 't) backend \<Rightarrow> storage_key \<Rightarrow> u32 option \<Rightarrow> storage_key option \<Rightarrow> ('r, 't) ext \<Rightarrow>
   (changeset_error + multi_removal_results) \<times> ('r, 't) ext" where
  "unhashed_clear_prefix cd be prefix maybe_limit unused_cursor e =
     map_prod (map_sum id (removal_results_of prefix)) id (unhashed_kill_prefix cd be prefix maybe_limit e)"

definition unhashed_get_raw :: "('r, 't) backend \<Rightarrow> storage_key \<Rightarrow> ('r, 't) ext \<Rightarrow> u8 list option" where
  "unhashed_get_raw be key e = io_get be key e"

definition unhashed_put_raw :: "'r codec \<Rightarrow> storage_key \<Rightarrow> u8 list \<Rightarrow> ('r, 't) ext \<Rightarrow> ('r, 't) ext" where
  "unhashed_put_raw cd key v e = io_set cd key v e"

section \<open>Values in a child storage\<close>

text \<open>\<open>frame/support/src/storage/child.rs\<close>.\<close>

definition child_get :: "(u8 list \<Rightarrow> 'a option) \<Rightarrow> ('r, 't) backend \<Rightarrow> child_info \<Rightarrow> storage_key \<Rightarrow> ('r, 't) ext \<Rightarrow> 'a option" where
  "child_get dec be info key e = Option.bind (io_child_get be (child_storage_key info) key e) dec"

definition child_get_or ::
  "(u8 list \<Rightarrow> 'a option) \<Rightarrow> ('r, 't) backend \<Rightarrow> child_info \<Rightarrow> storage_key \<Rightarrow> 'a \<Rightarrow> ('r, 't) ext \<Rightarrow> 'a" where
  "child_get_or dec be info key default_value e = unwrap_or (child_get dec be info key e) default_value"

definition child_put ::
  "'r codec \<Rightarrow> child_info \<Rightarrow> storage_key \<Rightarrow> u8 list \<Rightarrow> ('r, 't) ext \<Rightarrow> (changeset_error + unit) \<times> ('r, 't) ext" where
  "child_put cd info key encoded e = io_child_set cd (child_storage_key info) key encoded e"

definition child_kill ::
  "'r codec \<Rightarrow> child_info \<Rightarrow> storage_key \<Rightarrow> ('r, 't) ext \<Rightarrow> (changeset_error + unit) \<times> ('r, 't) ext" where
  "child_kill cd info key e = io_child_clear cd (child_storage_key info) key e"

definition child_take ::
  "'r codec \<Rightarrow> (u8 list \<Rightarrow> 'a option) \<Rightarrow> ('r, 't) backend \<Rightarrow> child_info \<Rightarrow> storage_key \<Rightarrow> ('r, 't) ext \<Rightarrow>
   (changeset_error + 'a option) \<times> ('r, 't) ext" where
  "child_take cd dec be info key e =
     (let r = child_get dec be info key e
      in if r \<noteq> None then map_prod (map_sum id (\<lambda>_. r)) id (child_kill cd info key e) else (Inr r, e))"

definition child_exists :: "('r, 't) backend \<Rightarrow> child_info \<Rightarrow> storage_key \<Rightarrow> ('r, 't) ext \<Rightarrow> bool" where
  "child_exists be info key e = io_child_exists be (child_storage_key info) key e"

definition child_kill_storage ::
  "'r codec \<Rightarrow> ('r, 't) backend \<Rightarrow> child_info \<Rightarrow> u32 option \<Rightarrow> ('r, 't) ext \<Rightarrow> (changeset_error + kill_storage_result) \<times> ('r, 't) ext" where
  "child_kill_storage cd be info limit e = io_child_storage_kill cd be (child_storage_key info) limit e"

definition child_clear_storage ::
  "'r codec \<Rightarrow> ('r, 't) backend \<Rightarrow> child_info \<Rightarrow> u32 option \<Rightarrow> storage_key option \<Rightarrow> ('r, 't) ext \<Rightarrow>
   (changeset_error + multi_removal_results) \<times> ('r, 't) ext" where
  "child_clear_storage cd be info maybe_limit unused_cursor e =
     map_prod (map_sum id (removal_results_of (child_storage_key info))) id
       (io_child_storage_kill cd be (child_storage_key info) maybe_limit e)"

definition child_get_raw :: "('r, 't) backend \<Rightarrow> child_info \<Rightarrow> storage_key \<Rightarrow> ('r, 't) ext \<Rightarrow> u8 list option" where
  "child_get_raw be info key e = io_child_get be (child_storage_key info) key e"

definition child_put_raw ::
  "'r codec \<Rightarrow> child_info \<Rightarrow> storage_key \<Rightarrow> u8 list \<Rightarrow> ('r, 't) ext \<Rightarrow> (changeset_error + unit) \<times> ('r, 't) ext" where
  "child_put_raw cd info key v e = io_child_set cd (child_storage_key info) key v e"

definition child_root ::
  "'r codec \<Rightarrow> ('r, 't) backend \<Rightarrow> child_info \<Rightarrow> state_version \<Rightarrow> ('r, 't) ext \<Rightarrow> u8 list \<times> ('r, 't) ext" where
  "child_root cd be info version e = io_child_root cd be (child_storage_key info) version e"

definition child_len :: "('r, 't) backend \<Rightarrow> child_info \<Rightarrow> storage_key \<Rightarrow> ('r, 't) ext \<Rightarrow> u32 option" where
  "child_len be info key e = fst (io_child_read be (child_storage_key info) key [] 0 e)"

section \<open>Iterators\<close>

text \<open>A round of the loop in \<open>next\<close> returns from it, continues it or panics.\<close>

datatype 'a round = Round_Return "'a option" | Round_Continue | Round_Panic changeset_error

text \<open>The loop. \<open>None\<close> stands for a loop that has not returned within the given number of rounds.\<close>

fun iter_next :: "('s \<Rightarrow> 'a round \<times> 's) \<Rightarrow> nat \<Rightarrow> 's \<Rightarrow> ((changeset_error + 'a option) \<times> 's) option" where
  "iter_next round 0 s = None"
| "iter_next round (Suc fuel) s =
     (case round s of
        (Round_Return r, s') \<Rightarrow> Some (Inr r, s')
      | (Round_Continue, s') \<Rightarrow> iter_next round fuel s'
      | (Round_Panic err, s') \<Rightarrow> Some (Inl err, s'))"

text \<open>Taking all items: \<open>next\<close> until it returns none.\<close>

fun iter_collect :: "('s \<Rightarrow> 'a round \<times> 's) \<Rightarrow> nat \<Rightarrow> nat \<Rightarrow> 's \<Rightarrow> ((changeset_error + 'a list) \<times> 's) option" where
  "iter_collect round fuel 0 s = None"
| "iter_collect round fuel (Suc n) s =
     (case iter_next round fuel s of
        None \<Rightarrow> None
      | Some (Inl err, s') \<Rightarrow> Some (Inl err, s')
      | Some (Inr None, s') \<Rightarrow> Some (Inr [], s')
      | Some (Inr (Some x), s') \<Rightarrow>
          map_option (map_prod (map_sum id ((#) x)) id) (iter_collect round fuel n s'))"

record 'a prefix_iterator =
  pairs_prefix :: storage_key
  pairs_previous_key :: storage_key
  pairs_drain :: bool
  pairs_closure :: "u8 list \<Rightarrow> u8 list \<Rightarrow> 'a option"

definition prefix_iterator_new :: "storage_key \<Rightarrow> storage_key \<Rightarrow> (u8 list \<Rightarrow> u8 list \<Rightarrow> 'a option) \<Rightarrow> 'a prefix_iterator" where
  "prefix_iterator_new prefix previous_key decode_fn =
     \<lparr>pairs_prefix = prefix, pairs_previous_key = previous_key, pairs_drain = False, pairs_closure = decode_fn\<rparr>"

definition prefix_iterator_drain :: "'a prefix_iterator \<Rightarrow> 'a prefix_iterator" where
  "prefix_iterator_drain it = it\<lparr>pairs_drain := True\<rparr>"

text \<open>The hook \<open>on_removal\<close> is a parameter, as the trait is in the source. The key has the prefix, so
  that the slice without it is in range.\<close>

definition prefix_round ::
  "'r codec \<Rightarrow> ('r, 't) backend \<Rightarrow> (storage_key \<Rightarrow> u8 list \<Rightarrow> ('r, 't) ext \<Rightarrow> ('r, 't) ext) \<Rightarrow>
   'a prefix_iterator \<times> ('r, 't) ext \<Rightarrow> 'a round \<times> 'a prefix_iterator \<times> ('r, 't) ext" where
  "prefix_round cd be on_removal s =
     (case s of (it, e) \<Rightarrow>
        (case with_prefix_only (pairs_prefix it) (io_next_key be (pairs_previous_key it) e) of
           None \<Rightarrow> (Round_Return None, it, e)
         | Some n \<Rightarrow>
             (let it1 = it\<lparr>pairs_previous_key := n\<rparr>
              in case unhashed_get_raw be n e of
                   None \<Rightarrow> (Round_Continue, it1, e)
                 | Some raw_value \<Rightarrow>
                     (let e1 = (if pairs_drain it then on_removal n raw_value (unhashed_kill cd n e) else e)
                      in case pairs_closure it (drop (length (pairs_prefix it)) n) raw_value of
                           Some item \<Rightarrow> (Round_Return (Some item), it1, e1)
                         | None \<Rightarrow> (Round_Continue, it1, e1)))))"

record 'a key_prefix_iterator =
  keys_prefix :: storage_key
  keys_previous_key :: storage_key
  keys_drain :: bool
  keys_closure :: "u8 list \<Rightarrow> 'a option"

definition key_prefix_iterator_new :: "storage_key \<Rightarrow> storage_key \<Rightarrow> (u8 list \<Rightarrow> 'a option) \<Rightarrow> 'a key_prefix_iterator" where
  "key_prefix_iterator_new prefix previous_key decode_fn =
     \<lparr>keys_prefix = prefix, keys_previous_key = previous_key, keys_drain = False, keys_closure = decode_fn\<rparr>"

definition key_prefix_iterator_drain :: "'a key_prefix_iterator \<Rightarrow> 'a key_prefix_iterator" where
  "key_prefix_iterator_drain it = it\<lparr>keys_drain := True\<rparr>"

definition key_prefix_round ::
  "'r codec \<Rightarrow> ('r, 't) backend \<Rightarrow>
   'a key_prefix_iterator \<times> ('r, 't) ext \<Rightarrow> 'a round \<times> 'a key_prefix_iterator \<times> ('r, 't) ext" where
  "key_prefix_round cd be s =
     (case s of (it, e) \<Rightarrow>
        (case with_prefix_only (keys_prefix it) (io_next_key be (keys_previous_key it) e) of
           None \<Rightarrow> (Round_Return None, it, e)
         | Some n \<Rightarrow>
             (let it1 = it\<lparr>keys_previous_key := n\<rparr>;
                  e1 = (if keys_drain it then unhashed_kill cd n e else e)
              in case keys_closure it (drop (length (keys_prefix it)) n) of
                   Some item \<Rightarrow> (Round_Return (Some item), it1, e1)
                 | None \<Rightarrow> (Round_Continue, it1, e1))))"

record 'a child_prefix_iterator =
  child_it_prefix :: storage_key
  child_it_info :: child_info
  child_it_previous_key :: storage_key
  child_it_drain :: bool
  fetch_previous_key :: bool
  child_it_closure :: "u8 list \<Rightarrow> u8 list \<Rightarrow> 'a option"

definition child_with_prefix :: "(u8 list \<Rightarrow> 'v option) \<Rightarrow> child_info \<Rightarrow> storage_key \<Rightarrow> (u8 list \<times> 'v) child_prefix_iterator" where
  "child_with_prefix dec info prefix =
     \<lparr>child_it_prefix = prefix, child_it_info = info, child_it_previous_key = prefix, child_it_drain = False,
      fetch_previous_key = True, child_it_closure = (\<lambda>k v. map_option (Pair k) (dec v))\<rparr>"

definition child_iterator_drain :: "'a child_prefix_iterator \<Rightarrow> 'a child_prefix_iterator" where
  "child_iterator_drain it = it\<lparr>child_it_drain := True\<rparr>"

text \<open>The first round takes the previous key itself. The slice without the prefix is out of range, and a
  panic, for a key that is shorter.\<close>

definition child_prefix_round ::
  "'r codec \<Rightarrow> ('r, 't) backend \<Rightarrow>
   'a child_prefix_iterator \<times> ('r, 't) ext \<Rightarrow> 'a round \<times> 'a child_prefix_iterator \<times> ('r, 't) ext" where
  "child_prefix_round cd be s =
     (case s of (it, e) \<Rightarrow>
        (let maybe_next =
               (if fetch_previous_key it then Some (child_it_previous_key it)
                else with_prefix_only (child_it_prefix it)
                  (io_child_next_key be (child_storage_key (child_it_info it)) (child_it_previous_key it) e));
             it0 = it\<lparr>fetch_previous_key := False\<rparr>
         in case maybe_next of
              None \<Rightarrow> (Round_Return None, it0, e)
            | Some n \<Rightarrow>
                (let it1 = it0\<lparr>child_it_previous_key := n\<rparr>
                 in case child_get_raw be (child_it_info it) n e of
                      None \<Rightarrow> (Round_Continue, it1, e)
                    | Some raw_value \<Rightarrow>
                        (case (if child_it_drain it then child_kill cd (child_it_info it) n e else (Inr (), e)) of
                           (Inl err, e1) \<Rightarrow> (Round_Panic err, it1, e1)
                         | (Inr _, e1) \<Rightarrow>
                             (if length n < length (child_it_prefix it) then (Round_Panic Changeset_Panic, it1, e1)
                              else case child_it_closure it (drop (length (child_it_prefix it)) n) raw_value of
                                Some item \<Rightarrow> (Round_Return (Some item), it1, e1)
                              | None \<Rightarrow> (Round_Continue, it1, e1))))))"

text \<open>The contract of such a loop: it has keys to do, in order, and perhaps idle rounds before them. A
  round takes the first key, and returns its item or, where there is none, continues; \<open>visited\<close>
  relates a state to one in which the given keys have been taken.\<close>

locale key_cursor =
  fixes round :: "'s \<Rightarrow> 'a round \<times> 's"
    and invar :: "'s \<Rightarrow> bool"
    and idle :: "'s \<Rightarrow> nat"
    and todo :: "'s \<Rightarrow> storage_key list"
    and item_of :: "'s \<Rightarrow> storage_key \<Rightarrow> 'a option"
    and visited :: "'s \<Rightarrow> storage_key list \<Rightarrow> 's \<Rightarrow> bool"
  assumes round_end: "invar s \<Longrightarrow> idle s = 0 \<Longrightarrow> todo s = [] \<Longrightarrow> round s = (Round_Return None, s) \<and> visited s [] s"
    and round_key: "invar s \<Longrightarrow> idle s = 0 \<Longrightarrow> todo s = k # ks \<Longrightarrow>
      \<exists>s'. round s = (case item_of s k of None \<Rightarrow> Round_Continue | Some x \<Rightarrow> Round_Return (Some x), s') \<and>
        invar s' \<and> idle s' = 0 \<and> todo s' = ks \<and> (\<forall>j\<in>set ks. item_of s' j = item_of s j) \<and>
        (\<forall>s''. visited s' ks s'' \<longrightarrow> visited s (k # ks) s'')"
    and round_idle: "invar s \<Longrightarrow> 0 < idle s \<Longrightarrow>
      \<exists>s'. round s = (Round_Continue, s') \<and> invar s' \<and> idle s' < idle s \<and> todo s' = todo s \<and>
        (\<forall>j\<in>set (todo s). item_of s' j = item_of s j) \<and> (\<forall>s''. visited s' (todo s) s'' \<longrightarrow> visited s (todo s) s'')"
begin

lemma items_cong: "(\<forall>j\<in>set ks. item_of s' j = item_of s j) \<Longrightarrow> List.map_filter (item_of s') ks = List.map_filter (item_of s) ks"
  by (induction ks) (simp_all add: map_filter_simps split: option.split)

text \<open>One call takes the keys up to and with the first that has an item.\<close>

lemma next_takes:
  "invar s \<Longrightarrow> length (todo s) + idle s < fuel \<Longrightarrow>
   \<exists>r s'. iter_next round fuel s = Some (Inr r, s') \<and>
     (r = None \<longrightarrow> List.map_filter (item_of s) (todo s) = [] \<and> visited s (todo s) s') \<and>
     (\<forall>x. r = Some x \<longrightarrow> invar s' \<and> idle s' = 0 \<and> length (todo s') < length (todo s) \<and>
          List.map_filter (item_of s) (todo s) = x # List.map_filter (item_of s') (todo s') \<and>
          (\<forall>s''. visited s' (todo s') s'' \<longrightarrow> visited s (todo s) s''))"
proof (induction fuel arbitrary: s)
  case (Suc fuel)
  consider (idle) "0 < idle s" | (finished) "idle s = 0" "todo s = []" | (key) k ks where "idle s = 0" "todo s = k # ks"
    by (cases "todo s") auto
  then show ?case
  proof cases
    case idle
    then obtain s1 where s1: "round s = (Round_Continue, s1)" "invar s1" "idle s1 < idle s" "todo s1 = todo s"
      "\<forall>j\<in>set (todo s). item_of s1 j = item_of s j" "\<forall>s''. visited s1 (todo s) s'' \<longrightarrow> visited s (todo s) s''"
      using round_idle [OF Suc.prems(1)] by blast
    have "length (todo s1) + idle s1 < fuel" using Suc.prems(2) s1(3,4) by simp
    from Suc.IH [OF s1(2) this, unfolded s1(4) items_cong [OF s1(5)]] s1(6) show ?thesis
      unfolding iter_next.simps s1(1) prod.case round.case by blast
  next
    case finished
    then show ?thesis using round_end [OF Suc.prems(1)] by (simp add: map_filter_simps)
  next
    case key
    then obtain s1 where s1: "round s = (case item_of s k of None \<Rightarrow> Round_Continue | Some x \<Rightarrow> Round_Return (Some x), s1)"
      "invar s1" "idle s1 = 0" "todo s1 = ks" "\<forall>j\<in>set ks. item_of s1 j = item_of s j"
      "\<forall>s''. visited s1 ks s'' \<longrightarrow> visited s (k # ks) s''"
      using round_key [OF Suc.prems(1)] by blast
    show ?thesis
    proof (cases "item_of s k")
      case None
      have "length (todo s1) + idle s1 < fuel" using Suc.prems(2) s1(3,4) key by simp
      note ih = Suc.IH [OF s1(2) this, unfolded s1(4) items_cong [OF s1(5)]]
      have n: "length ks < length (todo s)" using key by simp
      from ih obtain r s' where r: "iter_next round fuel s1 = Some (Inr r, s')"
        "r = None \<longrightarrow> List.map_filter (item_of s) ks = [] \<and> visited s1 ks s'"
        "\<forall>x. r = Some x \<longrightarrow> invar s' \<and> idle s' = 0 \<and> length (todo s') < length ks \<and>
          List.map_filter (item_of s) ks = x # List.map_filter (item_of s') (todo s') \<and>
          (\<forall>s''. visited s' (todo s') s'' \<longrightarrow> visited s1 ks s'')" by blast
      show ?thesis
        using r s1(6) n by (intro exI [of _ r] exI [of _ s']) (auto simp: s1(1) None map_filter_simps key(2))
    next
      case (Some x)
      then show ?thesis using s1 items_cong [OF s1(5)] key by (simp add: map_filter_simps)
    qed
  qed
qed simp

text \<open>So all items are collected, within one round more than there are keys and idle rounds.\<close>

lemma collect_takes:
  "invar s \<Longrightarrow> length (todo s) + idle s < fuel \<Longrightarrow> length (todo s) < n \<Longrightarrow>
   \<exists>s'. iter_collect round fuel n s = Some (Inr (List.map_filter (item_of s) (todo s)), s') \<and> visited s (todo s) s'"
proof (induction n arbitrary: s)
  case (Suc n)
  obtain r s1 where r: "iter_next round fuel s = Some (Inr r, s1)"
    and c: "r = None \<longrightarrow> List.map_filter (item_of s) (todo s) = [] \<and> visited s (todo s) s1"
      "\<forall>x. r = Some x \<longrightarrow> invar s1 \<and> idle s1 = 0 \<and> length (todo s1) < length (todo s) \<and>
          List.map_filter (item_of s) (todo s) = x # List.map_filter (item_of s1) (todo s1) \<and>
          (\<forall>s''. visited s1 (todo s1) s'' \<longrightarrow> visited s (todo s) s'')"
    using next_takes [OF Suc.prems(1,2)] by blast
  show ?case
  proof (cases r)
    case None
    then show ?thesis using r c by auto
  next
    case (Some x)
    have "invar s1" "length (todo s1) + idle s1 < fuel" "length (todo s1) < n" using c Some Suc.prems(2,3) by auto
    from Suc.IH [OF this] r c Some show ?thesis by auto
  qed
qed simp

end

section \<open>What an iteration visits\<close>

text \<open>What a write changes.\<close>

lemma place_reads:
  assumes "overlay_ok (overlay e)"
  shows "overlay_ok (overlay (ext_place_storage cd k v e))"
    "ext_storage be (overlay (ext_place_storage cd k v e)) j =
      (if j = k \<and> \<not> is_child_storage_key k then v else ext_storage be (overlay e) j)"
  using assms set_storage_view [OF assms, of "decode_index cd" k v]
  by (auto simp: ext_place_storage_def ext_storage_def)

lemma place_child_reads:
  assumes "overlay_ok (overlay e)"
  shows "\<exists>e'. ext_place_child_storage cd info k v e = (Inr (), e') \<and> overlay_ok (overlay e') \<and>
    (\<forall>j. ext_child_storage be (overlay e') info j = (if j = k then v else ext_child_storage be (overlay e) info j))"
proof -
  obtain l ls prot ov' where s: "changes_rel (overlay e) (l # ls, prot)"
    "change_step (decode_index cd) (Ov_Set_Child info k v) (overlay e) = (Inr (), ov')"
    "changes_rel ov' (spec_write (Ov_Set_Child info k v) (l # ls) l # ls, prot)" "overlay_ok ov'"
    by (rule overlay_ok_step [OF assms, of "Ov_Set_Child info k v" "decode_index cd"]) auto
  have "child_storage ov' info j = (if j = k then Some v else child_storage (overlay e) info j)" for j
    using changes_rel_reads(2) [OF s(1), of info j] changes_rel_reads(2) [OF s(3), of info j]
    by (auto simp: child_view_def child_update_def map_add_def)
  then show ?thesis using s(2,4) by (auto simp: ext_place_child_storage_def ext_child_storage_def)
qed

text \<open>How the storage reads after the keys of a list were taken: a draining iteration removes them, child
  storage keys excepted, which cannot be removed in this way.\<close>

definition after_visit ::
  "(storage_key \<Rightarrow> storage_value option) \<Rightarrow> storage_key \<Rightarrow> bool \<Rightarrow> (storage_key \<Rightarrow> bool) \<Rightarrow> storage_key list \<Rightarrow>
   (storage_key \<Rightarrow> storage_value option) \<Rightarrow> bool" where
  "after_visit read p drain removable ks read' \<longleftrightarrow>
     (\<forall>j. starts_with j p \<longrightarrow> read' j = (if drain \<and> j \<in> set ks \<and> removable j then None else read j))"

lemma after_visit_above:
  assumes "after_visit read p drain removable [n] read'"
  shows "above read' p n = above read p n" "j \<in> above read p n \<Longrightarrow> read' j = read j"
    "after_visit read' p drain removable ks read'' \<Longrightarrow> after_visit read p drain removable (n # ks) read''"
  using assms by (auto simp: after_visit_def above_def split: if_splits)

text \<open>The hook on removals may write, but not under the prefix.\<close>

definition removal_hook_ok ::
  "('r, 't) backend \<Rightarrow> (storage_key \<Rightarrow> u8 list \<Rightarrow> ('r, 't) ext \<Rightarrow> ('r, 't) ext) \<Rightarrow> storage_key \<Rightarrow> bool" where
  "removal_hook_ok be hook p \<longleftrightarrow> (\<forall>k v e. overlay_ok (overlay e) \<longrightarrow>
     overlay_ok (overlay (hook k v e)) \<and>
     (\<forall>j. starts_with j p \<longrightarrow> ext_storage be (overlay (hook k v e)) j = ext_storage be (overlay e) j))"

definition pairs_invar where
  "pairs_invar be hook s \<longleftrightarrow> (case s of (it, e) \<Rightarrow>
     backend_ok be \<and> overlay_ok (overlay e) \<and> removal_hook_ok be hook (pairs_prefix it) \<and>
     pairs_prefix it \<le> pairs_previous_key it \<and> finite (above (ext_storage be (overlay e)) (pairs_prefix it) (pairs_previous_key it)))"

definition pairs_todo where
  "pairs_todo be s = (case s of (it, e) \<Rightarrow>
     sorted_list_of_set (above (ext_storage be (overlay e)) (pairs_prefix it) (pairs_previous_key it)))"

definition pairs_item where
  "pairs_item be s k = (case s of (it, e) \<Rightarrow>
     pairs_closure it (drop (length (pairs_prefix it)) k) (the (ext_storage be (overlay e) k)))"

definition pairs_visited where
  "pairs_visited be s ks s' \<longleftrightarrow> (case (s, s') of ((it, e), (it', e')) \<Rightarrow>
     it' = it\<lparr>pairs_previous_key := last (pairs_previous_key it # ks)\<rparr> \<and> overlay_ok (overlay e') \<and>
     after_visit (ext_storage be (overlay e)) (pairs_prefix it) (pairs_drain it) (\<lambda>j. \<not> is_child_storage_key j) ks
       (ext_storage be (overlay e')))"

lemma prefix_round_key:
  assumes inv: "pairs_invar be hook (it, e)" and todo: "pairs_todo be (it, e) = k # ks"
  shows "\<exists>s'. prefix_round cd be hook (it, e) =
      (case pairs_item be (it, e) k of None \<Rightarrow> Round_Continue | Some x \<Rightarrow> Round_Return (Some x), s') \<and>
    pairs_invar be hook s' \<and> pairs_todo be s' = ks \<and> (\<forall>j\<in>set ks. pairs_item be s' j = pairs_item be (it, e) j) \<and>
    (\<forall>s''. pairs_visited be s' ks s'' \<longrightarrow> pairs_visited be (it, e) (k # ks) s'')"
proof -
  let ?p = "pairs_prefix it" and ?R = "ext_storage be (overlay e)"
  have i: "backend_ok be" "overlay_ok (overlay e)" "removal_hook_ok be hook ?p" "?p \<le> pairs_previous_key it"
    "finite (above ?R ?p (pairs_previous_key it))" using inv by (simp_all add: pairs_invar_def)
  have n: "with_prefix_only ?p (ext_next_storage_key be (overlay e) (pairs_previous_key it)) = Some k"
    "ks = sorted_list_of_set (above ?R ?p k)"
    using ext.first_key [of "(be, overlay e)" ?p "pairs_previous_key it"] i todo
    by (auto simp: pairs_todo_def split: option.splits)
  have k: "pairs_previous_key it < k" "starts_with k ?p" "?R k \<noteq> None"
    using ext.next_with_prefix [of "(be, overlay e)" ?p "pairs_previous_key it" k] i n(1) by auto
  then obtain raw where raw: "?R k = Some raw" by blast
  define e1 where "e1 = (if pairs_drain it then hook k raw (unhashed_kill cd k e) else e)"
  have e1: "overlay_ok (overlay e1)"
    "after_visit ?R ?p (pairs_drain it) (\<lambda>j. \<not> is_child_storage_key j) [k] (ext_storage be (overlay e1))"
  proof -
    note d = place_reads(1) [OF i(2), where cd = cd and k = k and v = None]
      place_reads(2) [OF i(2), where be = be and cd = cd and k = k and v = None]
    have "overlay_ok (overlay (hook k raw (unhashed_kill cd k e))) \<and>
      (\<forall>j. starts_with j ?p \<longrightarrow> ext_storage be (overlay (hook k raw (unhashed_kill cd k e))) j = ext_storage be (overlay (unhashed_kill cd k e)) j)"
      using i(3) d(1) unfolding removal_hook_ok_def unhashed_kill_def io_clear_def by blast
    then show "overlay_ok (overlay e1)"
      "after_visit ?R ?p (pairs_drain it) (\<lambda>j. \<not> is_child_storage_key j) [k] (ext_storage be (overlay e1))"
      using i(2) d(2) by (simp_all add: e1_def after_visit_def unhashed_kill_def io_clear_def)
  qed
  note v = after_visit_above [OF e1(2)]
  have sub: "finite (above ?R ?p k)" by (rule above_finite [OF i(5) k(1)])
  let ?s' = "(it\<lparr>pairs_previous_key := k\<rparr>, e1)"
  have "prefix_round cd be hook (it, e) = (case pairs_item be (it, e) k of None \<Rightarrow> Round_Continue | Some x \<Rightarrow> Round_Return (Some x), ?s')"
    using n(1) raw by (auto simp: prefix_round_def io_next_key_def unhashed_get_raw_def io_get_def pairs_item_def e1_def Let_def split: option.splits)
  moreover have "pairs_invar be hook ?s'"
    using i e1(1) sub k(1) v(1) by (auto simp: pairs_invar_def)
  moreover have "pairs_todo be ?s' = ks" using n(2) v(1) by (simp add: pairs_todo_def)
  moreover have "\<forall>j\<in>set ks. pairs_item be ?s' j = pairs_item be (it, e) j"
    using v(2) sub by (simp add: n(2) pairs_item_def)
  moreover have "\<forall>s''. pairs_visited be ?s' ks s'' \<longrightarrow> pairs_visited be (it, e) (k # ks) s''"
    using v(3) by (auto simp: pairs_visited_def)
  ultimately show ?thesis by blast
qed

interpretation pairs: key_cursor "prefix_round cd be hook" "pairs_invar be hook" "\<lambda>_. 0" "pairs_todo be" "pairs_item be" "pairs_visited be"
  for cd :: "'r codec" and be :: "('r, 't) backend" and hook :: "storage_key \<Rightarrow> u8 list \<Rightarrow> ('r, 't) ext \<Rightarrow> ('r, 't) ext"
proof (unfold_locales, goal_cases)
  case (1 s)
  obtain it e where s: "s = (it, e)" by fastforce
  have i: "backend_ok be" "overlay_ok (overlay e)" "pairs_prefix it \<le> pairs_previous_key it"
    "finite (above (ext_storage be (overlay e)) (pairs_prefix it) (pairs_previous_key it))"
    using 1(1) by (simp_all add: s pairs_invar_def)
  have "with_prefix_only (pairs_prefix it) (ext_next_storage_key be (overlay e) (pairs_previous_key it)) = None"
    using ext.first_key [of "(be, overlay e)" "pairs_prefix it" "pairs_previous_key it"] i 1(3)
    by (auto simp: s pairs_todo_def split: option.splits)
  then show ?case using i(2)
    by (simp add: s prefix_round_def io_next_key_def pairs_visited_def after_visit_def)
next
  case (2 s k ks)
  then show ?case using prefix_round_key [of be hook "fst s" "snd s" k ks cd] by simp
qed simp

text \<open>An iterator over keys is one over pairs that does not look at the value and has no hook.\<close>

definition as_pairs :: "'a key_prefix_iterator \<Rightarrow> 'a prefix_iterator" where
  "as_pairs it = \<lparr>pairs_prefix = keys_prefix it, pairs_previous_key = keys_previous_key it, pairs_drain = keys_drain it,
     pairs_closure = (\<lambda>k v. keys_closure it k)\<rparr>"

definition pairs_state :: "'a key_prefix_iterator \<times> ('r, 't) ext \<Rightarrow> 'a prefix_iterator \<times> ('r, 't) ext" where
  "pairs_state s = map_prod as_pairs id s"

lemma pairs_state_inj: "pairs_state s = pairs_state s' \<longleftrightarrow> s = s'"
proof -
  have "as_pairs it = as_pairs it' \<longleftrightarrow> it = it'" for it it' :: "'a key_prefix_iterator"
    by (cases it; cases it') (auto simp: as_pairs_def fun_eq_iff)
  then show ?thesis by (cases s; cases s') (simp add: pairs_state_def)
qed

lemma key_round_pairs:
  assumes "pairs_invar be (\<lambda>_ _ e. e) (pairs_state s)"
  shows "prefix_round cd be (\<lambda>_ _ e. e) (pairs_state s) = map_prod id pairs_state (key_prefix_round cd be s)"
proof -
  obtain it e where s: "s = (it, e)" by fastforce
  have i: "backend_ok be" "overlay_ok (overlay e)" using assms by (simp_all add: s pairs_invar_def pairs_state_def)
  have v: "ext_storage be (overlay e) n \<noteq> None"
    if "with_prefix_only (keys_prefix it) (ext_next_storage_key be (overlay e) (keys_previous_key it)) = Some n" for n
    using ext.next_with_prefix [of "(be, overlay e)" "keys_prefix it" "keys_previous_key it" n] i that by simp
  show ?thesis
  proof (cases "with_prefix_only (keys_prefix it) (ext_next_storage_key be (overlay e) (keys_previous_key it))")
    case None
    then show ?thesis by (simp add: s pairs_state_def prefix_round_def key_prefix_round_def as_pairs_def io_next_key_def)
  next
    case (Some n)
    then obtain raw where "ext_storage be (overlay e) n = Some raw" using v by blast
    then show ?thesis using Some
      by (cases "keys_closure it (drop (length (keys_prefix it)) n)")
        (simp_all add: s pairs_state_def prefix_round_def key_prefix_round_def as_pairs_def io_next_key_def
          unhashed_get_raw_def io_get_def Let_def)
  qed
qed

interpretation keys: key_cursor "key_prefix_round cd be" "\<lambda>s. pairs_invar be (\<lambda>_ _ e. e) (pairs_state s)" "\<lambda>_. 0"
  "\<lambda>s. pairs_todo be (pairs_state s)" "\<lambda>s. pairs_item be (pairs_state s)" "\<lambda>s ks s'. pairs_visited be (pairs_state s) ks (pairs_state s')"
  for cd :: "'r codec" and be :: "('r, 't) backend"
proof (unfold_locales, goal_cases)
  case (1 s)
  obtain r s' where r: "key_prefix_round cd be s = (r, s')" by (rule prod.exhaust)
  then show ?case
    using pairs.round_end [OF 1, of cd] key_round_pairs [OF 1(1), of cd] by (simp add: pairs_state_inj)
next
  case (2 s k ks)
  obtain r s' where r: "key_prefix_round cd be s = (r, s')" by (rule prod.exhaust)
  from pairs.round_key [OF 2, of cd, unfolded key_round_pairs [OF 2(1)] r] r show ?case by (auto simp del: split_paired_All)
qed simp

text \<open>The iterator over a child storage starts with the prefix itself, if it is a key.\<close>

definition child_invar where
  "child_invar be s \<longleftrightarrow> (case s of (it, e) \<Rightarrow>
     backend_ok be \<and> overlay_ok (overlay e) \<and>
     child_it_prefix it \<le> child_it_previous_key it \<and> starts_with (child_it_previous_key it) (child_it_prefix it) \<and>
     finite (above (ext_child_storage be (overlay e) (child_it_info it)) (child_it_prefix it) (child_it_previous_key it)))"

definition child_idle where
  "child_idle be s = (case s of (it, e) \<Rightarrow>
     if fetch_previous_key it \<and> ext_child_storage be (overlay e) (child_it_info it) (child_it_previous_key it) = None then 1 else (0 :: nat))"

definition child_todo where
  "child_todo be s = (case s of (it, e) \<Rightarrow>
     (if fetch_previous_key it \<and> ext_child_storage be (overlay e) (child_it_info it) (child_it_previous_key it) \<noteq> None
      then [child_it_previous_key it] else []) @
     sorted_list_of_set (above (ext_child_storage be (overlay e) (child_it_info it)) (child_it_prefix it) (child_it_previous_key it)))"

definition child_item where
  "child_item be s k = (case s of (it, e) \<Rightarrow>
     child_it_closure it (drop (length (child_it_prefix it)) k) (the (ext_child_storage be (overlay e) (child_it_info it) k)))"

definition child_visited where
  "child_visited be s ks s' \<longleftrightarrow> (case (s, s') of ((it, e), (it', e')) \<Rightarrow>
     it' = it\<lparr>fetch_previous_key := False, child_it_previous_key := last (child_it_previous_key it # ks)\<rparr> \<and> overlay_ok (overlay e') \<and>
     after_visit (ext_child_storage be (overlay e) (child_it_info it)) (child_it_prefix it) (child_it_drain it) (\<lambda>_. True) ks
       (ext_child_storage be (overlay e') (child_it_info it)))"

lemma io_child_eq [simp]:
  "io_child_next_key be (child_storage_key info) k e = ext_next_child_storage_key be (overlay e) info k"
  "child_get_raw be info k e = ext_child_storage be (overlay e) info k"
  "child_kill cd info k e = ext_place_child_storage cd info k None e"
  by (cases info; simp add: io_child_next_key_def child_get_raw_def io_child_get_def child_kill_def io_child_clear_def)+

text \<open>The key that a round takes.\<close>

definition child_next where
  "child_next be it e = (if fetch_previous_key it then Some (child_it_previous_key it)
     else with_prefix_only (child_it_prefix it) (ext_next_child_storage_key be (overlay e) (child_it_info it) (child_it_previous_key it)))"

lemma child_next_todo:
  assumes "child_invar be (it, e)" "child_idle be (it, e) = 0"
  shows "child_todo be (it, e) = (case child_next be it e of None \<Rightarrow> []
      | Some n \<Rightarrow> n # sorted_list_of_set (above (ext_child_storage be (overlay e) (child_it_info it)) (child_it_prefix it) n))"
    "child_next be it e = Some n \<Longrightarrow> child_it_previous_key it \<le> n \<and> starts_with n (child_it_prefix it) \<and>
      ext_child_storage be (overlay e) (child_it_info it) n \<noteq> None \<and>
      finite (above (ext_child_storage be (overlay e) (child_it_info it)) (child_it_prefix it) n)"
proof -
  let ?s = "(be, overlay e, child_it_info it)"
  have i: "backend_ok be" "overlay_ok (overlay e)" "child_it_prefix it \<le> child_it_previous_key it"
    "starts_with (child_it_previous_key it) (child_it_prefix it)"
    "finite (above (ext_child_storage be (overlay e) (child_it_info it)) (child_it_prefix it) (child_it_previous_key it))"
    using assms(1) by (simp_all add: child_invar_def)
  show "child_todo be (it, e) = (case child_next be it e of None \<Rightarrow> []
      | Some n \<Rightarrow> n # sorted_list_of_set (above (ext_child_storage be (overlay e) (child_it_info it)) (child_it_prefix it) n))"
    using ext_child.first_key [of ?s "child_it_prefix it" "child_it_previous_key it"] i assms(2)
    by (auto simp: child_todo_def child_next_def child_idle_def split: option.splits if_splits)
  show "child_it_previous_key it \<le> n \<and> starts_with n (child_it_prefix it) \<and>
      ext_child_storage be (overlay e) (child_it_info it) n \<noteq> None \<and>
      finite (above (ext_child_storage be (overlay e) (child_it_info it)) (child_it_prefix it) n)"
    if n: "child_next be it e = Some n"
  proof (cases "fetch_previous_key it")
    case True
    then show ?thesis using i n assms(2) by (auto simp: child_next_def child_idle_def split: if_splits)
  next
    case False
    then show ?thesis
      using ext_child.next_with_prefix [of ?s "child_it_prefix it" "child_it_previous_key it" n] i n above_finite [OF i(5), of n]
      by (auto simp: child_next_def)
  qed
qed

lemma child_round_key:
  assumes inv: "child_invar be (it, e)" "child_idle be (it, e) = 0" and todo: "child_todo be (it, e) = k # ks"
  shows "\<exists>s'. child_prefix_round cd be (it, e) =
      (case child_item be (it, e) k of None \<Rightarrow> Round_Continue | Some x \<Rightarrow> Round_Return (Some x), s') \<and>
    child_invar be s' \<and> child_idle be s' = 0 \<and> child_todo be s' = ks \<and> (\<forall>j\<in>set ks. child_item be s' j = child_item be (it, e) j) \<and>
    (\<forall>s''. child_visited be s' ks s'' \<longrightarrow> child_visited be (it, e) (k # ks) s'')"
proof -
  let ?p = "child_it_prefix it" and ?R = "ext_child_storage be (overlay e) (child_it_info it)"
  have i: "backend_ok be" "overlay_ok (overlay e)" "?p \<le> child_it_previous_key it" using inv by (simp_all add: child_invar_def)
  have n: "child_next be it e = Some k" "ks = sorted_list_of_set (above ?R ?p k)"
    using child_next_todo(1) [OF inv] todo by (auto split: option.splits)
  note k = child_next_todo(2) [OF inv n(1)]
  then obtain raw where raw: "?R k = Some raw" by blast
  have len: "\<not> length k < length ?p" using k by (auto simp: starts_with_def dest: arg_cong [where f = length])
  obtain e1 where e1: "(if child_it_drain it then child_kill cd (child_it_info it) k e else (Inr (), e)) = (Inr (), e1)" "overlay_ok (overlay e1)"
    "after_visit ?R ?p (child_it_drain it) (\<lambda>_. True) [k] (ext_child_storage be (overlay e1) (child_it_info it))"
    using i(2) place_child_reads [OF i(2), of cd "child_it_info it" k None be]
    by (cases "child_it_drain it") (auto simp: after_visit_def)
  note v = after_visit_above [OF e1(3)]
  let ?s' = "(it\<lparr>fetch_previous_key := False, child_it_previous_key := k\<rparr>, e1)"
  have "child_prefix_round cd be (it, e) = (case child_item be (it, e) k of None \<Rightarrow> Round_Continue | Some x \<Rightarrow> Round_Return (Some x), ?s')"
    unfolding child_prefix_round_def Let_def io_child_eq prod.case n(1) [unfolded child_next_def] option.case raw e1(1) [unfolded io_child_eq] sum.case if_not_P [OF len]
    using raw by (cases "child_item be (it, e) k") (simp_all add: child_item_def)
  moreover have "child_invar be ?s'" using i e1(2) k v(1) by (auto simp: child_invar_def)
  moreover have "child_idle be ?s' = 0" "child_todo be ?s' = ks" using n(2) v(1) by (simp_all add: child_todo_def child_idle_def)
  moreover have "\<forall>j\<in>set ks. child_item be ?s' j = child_item be (it, e) j"
    using v(2) k by (simp add: n(2) child_item_def)
  moreover have "\<forall>s''. child_visited be ?s' ks s'' \<longrightarrow> child_visited be (it, e) (k # ks) s''"
    using v(3) by (auto simp: child_visited_def)
  ultimately show ?thesis by blast
qed

interpretation child: key_cursor "child_prefix_round cd be" "child_invar be" "child_idle be" "child_todo be" "child_item be" "child_visited be"
  for cd :: "'r codec" and be :: "('r, 't) backend"
proof (unfold_locales, goal_cases)
  case (1 s)
  obtain it e where s: "s = (it, e)" by fastforce
  have n: "child_next be it e = None" using child_next_todo(1) [of be it e] 1 by (auto simp: s split: option.splits)
  then have f: "\<not> fetch_previous_key it"
    "with_prefix_only (child_it_prefix it) (ext_next_child_storage_key be (overlay e) (child_it_info it) (child_it_previous_key it)) = None"
    by (auto simp: child_next_def split: if_splits)
  then have "it\<lparr>fetch_previous_key := False\<rparr> = it" by (cases it) simp
  moreover have "overlay_ok (overlay e)" using 1(1) by (simp add: s child_invar_def)
  ultimately show ?case
    using f by (simp add: s child_prefix_round_def child_visited_def after_visit_def Let_def)
next
  case (2 s k ks)
  then show ?case using child_round_key [of be "fst s" "snd s" k ks cd] by simp
next
  case (3 s)
  obtain it e where s: "s = (it, e)" by fastforce
  have f: "fetch_previous_key it" "ext_child_storage be (overlay e) (child_it_info it) (child_it_previous_key it) = None"
    using 3(2) by (auto simp: s child_idle_def split: if_splits)
  let ?s' = "(it\<lparr>fetch_previous_key := False\<rparr>, e)"
  have "child_prefix_round cd be s = (Round_Continue, ?s')" using f by (simp add: s child_prefix_round_def Let_def)
  moreover have "child_invar be ?s'" "child_idle be ?s' < child_idle be s" "child_todo be ?s' = child_todo be s"
    using 3(1) f by (simp_all add: s child_invar_def child_idle_def child_todo_def)
  moreover have "child_item be ?s' = child_item be s" by (simp add: s child_item_def fun_eq_iff)
  moreover have "child_visited be ?s' ks s'' \<longrightarrow> child_visited be s ks s''" for ks s''
    by (cases s'') (simp add: s child_visited_def)
  ultimately show ?case by metis
qed

section \<open>Iteration\<close>

text \<open>C5: An iteration over a prefix is complete. Over a backend that keeps its contract, taking all
  items of a \<open>PrefixIterator\<close> ends within one round more than there are keys with the prefix above
  the previous key, and yields the item of each of them, in the order of the keys and each once, for
  the value that the storage had at the start; keys that fail to decode are skipped. A draining
  iterator removes exactly these keys, those that fail to decode included, except keys of child
  storages, which it cannot remove; without draining nothing changes. The hook on removals may write
  elsewhere, but not under the prefix.\<close>

theorem prefix_iteration_complete:
  fixes be :: "('r, 't) backend"
  assumes be: "backend_ok be" and ov: "overlay_ok (overlay e)" and hook: "removal_hook_ok be hook (pairs_prefix it)"
    and prev: "pairs_prefix it \<le> pairs_previous_key it"
    and keys: "K = above (ext_storage be (overlay e)) (pairs_prefix it) (pairs_previous_key it)" "finite K" "card K < rounds"
  shows "\<exists>it' e'. iter_collect (prefix_round cd be hook) rounds rounds (it, e) =
      Some (Inr (List.map_filter (\<lambda>k. pairs_closure it (drop (length (pairs_prefix it)) k) (the (ext_storage be (overlay e) k)))
        (sorted_list_of_set K)), it', e') \<and> overlay_ok (overlay e') \<and>
    (\<forall>j. starts_with j (pairs_prefix it) \<longrightarrow> ext_storage be (overlay e') j =
       (if pairs_drain it \<and> j \<in> K \<and> \<not> is_child_storage_key j then None else ext_storage be (overlay e) j))"
proof -
  have inv: "pairs_invar be hook (it, e)" and todo: "pairs_todo be (it, e) = sorted_list_of_set K"
    using assms by (simp_all add: pairs_invar_def pairs_todo_def)
  have it: "pairs_item be (it, e) = (\<lambda>k. pairs_closure it (drop (length (pairs_prefix it)) k) (the (ext_storage be (overlay e) k)))"
    by (simp add: pairs_item_def fun_eq_iff)
  have len: "length (pairs_todo be (it, e)) < rounds" using keys by (simp add: todo)
  obtain s' where "iter_collect (prefix_round cd be hook) rounds rounds (it, e) =
      Some (Inr (List.map_filter (pairs_item be (it, e)) (sorted_list_of_set K)), s')" "pairs_visited be (it, e) (sorted_list_of_set K) s'"
    using pairs.collect_takes [OF inv _ len, of rounds cd] len by (auto simp: todo)
  then show ?thesis using keys(2) unfolding it by (cases s') (auto simp: pairs_visited_def after_visit_def)
qed

text \<open>The same for an iterator over the keys alone.\<close>

lemma key_iteration_complete:
  fixes be :: "('r, 't) backend"
  assumes be: "backend_ok be" and ov: "overlay_ok (overlay e)" and prev: "keys_prefix it \<le> keys_previous_key it"
    and keys: "K = above (ext_storage be (overlay e)) (keys_prefix it) (keys_previous_key it)" "finite K" "card K < rounds"
  shows "\<exists>it' e'. iter_collect (key_prefix_round cd be) rounds rounds (it, e) =
      Some (Inr (List.map_filter (\<lambda>k. keys_closure it (drop (length (keys_prefix it)) k)) (sorted_list_of_set K)), it', e') \<and>
    overlay_ok (overlay e') \<and>
    (\<forall>j. starts_with j (keys_prefix it) \<longrightarrow> ext_storage be (overlay e') j =
       (if keys_drain it \<and> j \<in> K \<and> \<not> is_child_storage_key j then None else ext_storage be (overlay e) j))"
proof -
  let ?s = "pairs_state (it, e)"
  have inv: "pairs_invar be (\<lambda>_ _ e. e) ?s" and todo: "pairs_todo be ?s = sorted_list_of_set K"
    using assms by (simp_all add: pairs_invar_def pairs_todo_def pairs_state_def as_pairs_def removal_hook_ok_def)
  have it: "pairs_item be ?s = (\<lambda>k. keys_closure it (drop (length (keys_prefix it)) k))"
    by (simp add: pairs_item_def pairs_state_def as_pairs_def fun_eq_iff)
  have len: "length (pairs_todo be ?s) < rounds" using keys by (simp add: todo)
  obtain s' where "iter_collect (key_prefix_round cd be) rounds rounds (it, e) =
      Some (Inr (List.map_filter (pairs_item be ?s) (sorted_list_of_set K)), s')" "pairs_visited be ?s (sorted_list_of_set K) (pairs_state s')"
    using keys.collect_takes [OF inv _ len, of rounds cd] len by (auto simp: todo)
  then show ?thesis using keys(2) unfolding it
    by (cases s') (auto simp: pairs_visited_def after_visit_def pairs_state_def as_pairs_def)
qed

text \<open>C19: An iteration over a child storage, started by \<open>with_prefix\<close>, likewise yields every key that has
  the prefix, the prefix itself included, with the part of the key after the prefix and the decoded
  value; values that fail to decode are skipped. Draining removes all keys with the prefix. Neither
  the slice without the prefix nor the writes panic.\<close>

theorem child_iteration_complete:
  fixes be :: "('r, 't) backend"
  assumes be: "backend_ok be" and ov: "overlay_ok (overlay e)"
    and keys: "K = {k. starts_with k p \<and> ext_child_storage be (overlay e) info k \<noteq> None}" "finite K" "card K + 1 < rounds"
    and it: "it = (if drain then child_iterator_drain (child_with_prefix dec info p) else child_with_prefix dec info p)"
  shows "\<exists>it' e'. iter_collect (child_prefix_round cd be) rounds rounds (it, e) =
      Some (Inr (List.map_filter (\<lambda>k. map_option (Pair (drop (length p) k)) (dec (the (ext_child_storage be (overlay e) info k))))
        (sorted_list_of_set K)), it', e') \<and> overlay_ok (overlay e') \<and>
    (\<forall>j. starts_with j p \<longrightarrow> ext_child_storage be (overlay e') info j =
       (if drain then None else ext_child_storage be (overlay e) info j))"
proof -
  let ?R = "ext_child_storage be (overlay e) info"
  have it': "child_it_prefix it = p" "child_it_previous_key it = p" "child_it_info it = info" "child_it_drain it = drain"
    "fetch_previous_key it" "child_it_closure it = (\<lambda>k v. map_option (Pair k) (dec v))"
    by (simp_all add: it child_with_prefix_def child_iterator_drain_def)
  have le: "k = p \<or> p < k" if "starts_with k p" for k
    using that by (induction k p rule: list_induct2') auto
  have pp: "starts_with p p" by (simp add: starts_with_def)
  have K: "K = (if ?R p \<noteq> None then {p} else {}) \<union> above ?R p p"
    unfolding keys(1) above_def using pp by (cases "?R p") (auto dest: le)
  then have fin: "finite (above ?R p p)" using keys(2) by simp
  have todo: "child_todo be (it, e) = sorted_list_of_set K"
  proof (cases "?R p")
    case (Some v)
    have "sorted_list_of_set (insert p (above ?R p p)) = p # sorted_list_of_set (above ?R p p)"
      by (rule sorted_list_of_set_least [OF fin]) (simp add: above_def)
    then show ?thesis using Some by (simp add: K child_todo_def it' del: sorted_list_of_set_insert_remove)
  qed (simp add: K child_todo_def it')
  have inv: "child_invar be (it, e)" using be ov fin pp by (simp add: child_invar_def it')
  have item: "child_item be (it, e) = (\<lambda>k. map_option (Pair (drop (length p) k)) (dec (the (?R k))))"
    by (simp add: child_item_def fun_eq_iff it')
  have len: "length (child_todo be (it, e)) + child_idle be (it, e) < rounds" "length (child_todo be (it, e)) < rounds"
    using keys by (simp_all add: todo child_idle_def)
  obtain s' where "iter_collect (child_prefix_round cd be) rounds rounds (it, e) =
      Some (Inr (List.map_filter (child_item be (it, e)) (sorted_list_of_set K)), s')" "child_visited be (it, e) (sorted_list_of_set K) s'"
    using child.collect_takes [OF inv len, of cd] by (auto simp: todo)
  then show ?thesis using keys(2) unfolding item
    by (cases s') (auto simp: child_visited_def after_visit_def it' keys(1))
qed

text \<open>Examples: draining a storage of one key in the backend, and a child storage of one key.\<close>

definition example_iterator :: "(u8 list \<times> u8 list) prefix_iterator" where
  "example_iterator = prefix_iterator_drain (prefix_iterator_new [] [] (\<lambda>k v. Some (k, v)))"

lemma example_ext_ok: "overlay_ok (overlay example_ext)"
  using example_backend_ok(3) by (simp add: example_ext_def)

lemma example_reads: "ext_storage example_backend (overlay example_ext) k = (if k = [1] then Some [7] else None)"
proof -
  have "storage (overlay example_ext) k = None"
    by (simp add: example_ext_def storage_def overlayed_changes_default_def overlayed_map_default_def read_value_def map_get_def bt_lookup_def)
  then show ?thesis by (simp add: ext_storage_def example_backend_def)
qed

theorem prefix_iteration_complete_witness:
  "\<exists>it' e'. iter_collect (prefix_round example_codec example_backend (\<lambda>_ _ e. e)) 2 2 (example_iterator, example_ext) =
     Some (Inr [([1], [7])], it', e') \<and> ext_storage example_backend (overlay e') [1] = None"
proof -
  have it: "pairs_prefix example_iterator = []" "pairs_previous_key example_iterator = []" "pairs_drain example_iterator"
    "pairs_closure example_iterator = (\<lambda>k v. Some (k, v))"
    by (simp_all add: example_iterator_def prefix_iterator_drain_def prefix_iterator_new_def)
  have h: "overlay_ok (overlay example_ext)" "removal_hook_ok example_backend (\<lambda>_ _ e. e) (pairs_prefix example_iterator)"
    "pairs_prefix example_iterator \<le> pairs_previous_key example_iterator"
    "{[1]} = above (ext_storage example_backend (overlay example_ext)) (pairs_prefix example_iterator) (pairs_previous_key example_iterator)"
    using example_ext_ok by (auto simp: removal_hook_ok_def it above_def example_reads)
  have "\<not> is_child_storage_key [1]" by code_simp
  then show ?thesis
    using prefix_iteration_complete [OF example_backend_ok(1) h, of 2 example_codec] by (auto simp: it example_reads map_filter_simps)
qed

definition example_child :: "(unit, unit) ext" where
  "example_child = snd (child_put example_codec (ParentKeyId [7]) [] [4] example_ext)"

lemma example_child_reads:
  "overlay_ok (overlay example_child)"
  "ext_child_storage example_backend (overlay example_child) (ParentKeyId [7]) k = (if k = [] then Some [4] else None)"
proof -
  have "ext_child_storage example_backend (overlay example_ext) (ParentKeyId [7]) k = None" for k
    by (simp add: ext_child_storage_def example_ext_def child_storage_def overlayed_changes_default_def bt_lookup_def example_backend_def)
  then show "overlay_ok (overlay example_child)"
    "ext_child_storage example_backend (overlay example_child) (ParentKeyId [7]) k = (if k = [] then Some [4] else None)"
    using place_child_reads [OF example_ext_ok, of example_codec "ParentKeyId [7]" "[]" "Some [4]" example_backend]
    by (auto simp: example_child_def child_put_def io_child_set_def)
qed

theorem child_iteration_complete_witness:
  "\<exists>it' e'. iter_collect (child_prefix_round example_codec example_backend) 3 3
      (child_iterator_drain (child_with_prefix Some (ParentKeyId [7]) []), example_child) = Some (Inr [([], [4])], it', e') \<and>
    ext_child_storage example_backend (overlay e') (ParentKeyId [7]) [] = None"
proof -
  let ?K = "{k. starts_with k [] \<and> ext_child_storage example_backend (overlay example_child) (ParentKeyId [7]) k \<noteq> None}"
  have K: "?K = {[]}" by (auto simp: example_child_reads)
  show ?thesis
    using child_iteration_complete [OF example_backend_ok(1) example_child_reads(1), of ?K "[]" "ParentKeyId [7]" 3
        "child_iterator_drain (child_with_prefix Some (ParentKeyId [7]) [])" True Some example_codec]
    unfolding K by (auto simp: example_child_reads map_filter_simps)
qed

section \<open>Clearing a prefix from the runtime\<close>

text \<open>C36: \<open>unhashed::clear_prefix\<close> makes no progress within a block. It ignores the cursor it is handed, so
  that a call that stopped at its limit and returned a cursor returns the same result whenever it is
  made again over the same backend, whatever has been removed in between and whatever cursor is
  passed, and a repeated call removes nothing: a loop until no cursor is returned, which the
  documentation of the cursor suggests, does not end.\<close>

theorem clear_prefix_no_progress:
  assumes be: "backend_keys_ok be" and ok: "overlay_ok (overlay e)" "overlay_ok (overlay d)" and p: "\<not> starts_with_child_storage_key p"
    and run: "unhashed_clear_prefix cd be p limit c e = (Inr r, e')" "maybe_cursor r \<noteq> None"
  shows "fst (unhashed_clear_prefix cd be p limit c' d) = Inr r \<and>
    (\<forall>k. ext_storage be (overlay (snd (unhashed_clear_prefix cd be p limit c' e'))) k = ext_storage be (overlay e') k)"
proof -
  define ks where "ks = be_keys be None (Some p) None"
  define n where "n = loop_length limit 0 (length ks)"
  have ks: "starts_with k p" if "k \<in> set (take n ks)" for k
    using be in_set_takeD [OF that] by (simp add: backend_keys_ok_def ks_def)
  have x: "\<exists>x x'. unhashed_clear_prefix cd be p limit c' d = (Inr x, x') \<and> overlay_ok (overlay x') \<and>
      (maybe_cursor x \<noteq> None \<longleftrightarrow> n < length ks) \<and> (\<forall>l. limit = Some l \<longrightarrow> loops_count x = of_nat n) \<and>
      x = removal_results_of p (if n < length ks then Some_Remaining (loops_count x) else All_Removed (loops_count x)) \<and>
      (\<forall>k. storage (overlay x') k =
         (if k \<in> set (take n ks) \<or> storage (overlay d) k \<noteq> None \<and> starts_with k p then Some None else storage (overlay d) k))"
    if d: "overlay_ok (overlay d)" for c' d
  proof -
    obtain q x' where q: "ext_clear_prefix cd be p limit None d = (Inr q, x')" "overlay_ok (overlay x')"
      "maybe_cursor q = (if n < length ks then Some (ks ! n) else None)" "\<forall>l. limit = Some l \<longrightarrow> unat (loops_count q) = n"
      "\<forall>k. storage (overlay x') k =
         (if k \<in> set (take n ks) \<or> storage (overlay d) k \<noteq> None \<and> starts_with k p then Some None else storage (overlay d) k)"
      using ext_clear_prefix_run [OF d p ks_def n_def, of cd] by blast
    then show ?thesis
      by (auto simp: unhashed_clear_prefix_def unhashed_kill_prefix_def io_clear_prefix_def kill_result_from_def removal_results_of_def
          intro: word_unat_eq_iff [THEN iffD1])
  qed
  obtain l where l: "limit = Some l" using x [OF ok(1), of c] run by (cases limit) (auto simp: n_def loop_length_def)
  have "fst (unhashed_clear_prefix cd be p limit c' d) = Inr r" using x [OF ok(1), of c] x [OF ok(2), of c'] run l by auto
  moreover have e': "overlay_ok (overlay e')" "storage (overlay e') k =
      (if k \<in> set (take n ks) \<or> storage (overlay e) k \<noteq> None \<and> starts_with k p then Some None else storage (overlay e) k)" for k
    using x [OF ok(1), of c] run(1) by auto
  moreover have "storage (overlay (snd (unhashed_clear_prefix cd be p limit c' e'))) k = storage (overlay e') k" for k
    using x [OF e'(1), of c'] e'(2) ks by auto
  ultimately show ?thesis by (simp add: ext_storage_def)
qed

theorem clear_prefix_no_progress_witness:
  "\<exists>r e'. unhashed_clear_prefix example_codec example_backend [1] (Some 0) None example_ext = (Inr r, e') \<and> maybe_cursor r = Some [1] \<and>
    fst (unhashed_clear_prefix example_codec example_backend [1] (Some 0) (Some [1]) e') = Inr r"
proof -
  let ?c = "unhashed_clear_prefix example_codec example_backend [1] (Some 0) None example_ext"
  let ?r = "\<lparr>maybe_cursor = Some [1], backend_count = 0, unique_count = 0, loops_count = 0\<rparr>"
  have f: "fst ?c = Inr ?r" by code_simp
  have p: "\<not> starts_with_child_storage_key [1]" by code_simp
  have e: "?c = (Inr ?r, snd ?c)" using f by (metis prod.collapse)
  have "overlay_ok (overlay (snd ?c))"
    using ext_clear_prefix_run [OF example_ext_ok p refl refl, where be = example_backend and cursor = None and limit = "Some 0" and cd = example_codec]
    by (auto simp: unhashed_clear_prefix_def unhashed_kill_prefix_def io_clear_prefix_def)
  from clear_prefix_no_progress [OF example_backend_ok(2) example_ext_ok this p e, of "Some [1]"]
  show ?thesis using e by fastforce
qed

section \<open>Single values\<close>

text \<open>A value that was put is read back, and other keys read as before.\<close>

lemma unhashed_put_get:
  assumes "overlay_ok (overlay e)" "\<not> is_child_storage_key k"
  shows "unhashed_get dec be j (unhashed_put cd k v e) = (if j = k then dec v else unhashed_get dec be j e)"
  using place_reads(2) [OF assms(1), of be cd k "Some v" j] assms(2)
  by (simp add: unhashed_get_def unhashed_put_def io_set_def io_get_def)

text \<open>Taking a value removes it, provided that it decodes.\<close>

lemma unhashed_take_exact:
  assumes "overlay_ok (overlay e)" "\<not> is_child_storage_key k" "unhashed_take cd dec be k e = (r, e')"
  shows "r = unhashed_get dec be k e"
    "ext_storage be (overlay e') j = (if j = k \<and> r \<noteq> None then None else ext_storage be (overlay e) j)"
  using assms(3) place_reads(2) [OF assms(1), of be cd k None j] assms(2)
  by (auto simp: unhashed_take_def unhashed_kill_def io_clear_def Let_def split: if_splits)

text \<open>A value that does not decode stays, although \<open>take_or\<close> says that there is no entry on return.\<close>

lemma take_or_keeps_corrupt:
  assumes "io_get be k e = Some v" "dec v = None"
  shows "case unhashed_take_or cd dec be k d e of (x, e') \<Rightarrow> x = d \<and> unhashed_get_raw be k e' = Some v"
  using assms by (simp add: unhashed_take_or_def unhashed_take_def unhashed_get_def unwrap_or_def unhashed_get_raw_def)

text \<open>Reading into a buffer copies what fits and reports the length beyond the offset.\<close>

lemma read_into_exact:
  assumes "read_into v out off = (out', n)" "length v < 2 ^ 32"
  shows "length out' = length out" "unat n = length v - unat off"
    "i < length out \<Longrightarrow> out' ! i = (if unat off + i < length v then v ! (unat off + i) else out ! i)"
proof -
  have o: "out' = take (min (length (drop (unat off) v)) (length out)) (drop (unat off) v) @ drop (min (length (drop (unat off) v)) (length out)) out"
    and n: "n = of_nat (length v - unat off)"
    using assms(1) by (auto simp: read_into_def Let_def min_def split: if_splits)
  show "length out' = length out" by (simp add: o)
  show "unat n = length v - unat off" using assms(2) by (simp add: n unat_of_nat32)
  show "i < length out \<Longrightarrow> out' ! i = (if unat off + i < length v then v ! (unat off + i) else out ! i)"
    by (auto simp: o nth_append min_def)
qed

end
