(* ===== verification/Storage_Layers.thy ===== *)
theory Storage_Layers
  imports Unhashed
begin

text \<open>
  Storage layers: \<open>with_transaction\<close>, \<open>with_transaction_unchecked\<close>,
  \<open>with_storage_layer\<close> and \<open>in_storage_layer\<close> of
  \<open>frame/support/src/storage/transactional.rs\<close>, with the accessors of
  \<open>storage/unhashed.rs\<close> they use, over the externalities. A layer is a body of type
  state to outcome and state; the count of open layers is itself stored under
  \<open>:transaction_level:\<close>, outside of the transaction it counts. The lemmas show that a layer is
  atomic, that it restores the count, and that layers nest.
\<close>


section \<open>Levels\<close>

definition TRANSACTION_LEVEL_KEY :: storage_key where
  "TRANSACTION_LEVEL_KEY = map of_char '':transaction_level:''"

definition TRANSACTIONAL_LIMIT :: u32 where
  "TRANSACTIONAL_LIMIT = 255"

text \<open>The codec of a level is a parameter.\<close>

record level_codec =
  encode_level :: "u32 \<Rightarrow> u8 list"
  decode_level :: "u8 list \<Rightarrow> u32 option"

definition get_transaction_level :: "level_codec \<Rightarrow> ('r, 't) backend \<Rightarrow> ('r, 't) ext \<Rightarrow> u32" where
  "get_transaction_level lc be e = unhashed_get_or (decode_level lc) be TRANSACTION_LEVEL_KEY 0 e"

definition set_transaction_level :: "'r codec \<Rightarrow> level_codec \<Rightarrow> u32 \<Rightarrow> ('r, 't) ext \<Rightarrow> ('r, 't) ext" where
  "set_transaction_level cd lc level e = unhashed_put cd TRANSACTION_LEVEL_KEY (encode_level lc level) e"

definition kill_transaction_level :: "'r codec \<Rightarrow> ('r, 't) ext \<Rightarrow> ('r, 't) ext" where
  "kill_transaction_level cd e = unhashed_kill cd TRANSACTION_LEVEL_KEY e"

text \<open>\<open>Inl ()\<close> is \<open>Err(())\<close>; \<open>Inr ()\<close> hands out the guard.\<close>

definition inc_transaction_level ::
  "'r codec \<Rightarrow> level_codec \<Rightarrow> ('r, 't) backend \<Rightarrow> ('r, 't) ext \<Rightarrow> (unit + unit) \<times> ('r, 't) ext" where
  "inc_transaction_level cd lc be e =
     (let existing_levels = get_transaction_level lc be e
      in if TRANSACTIONAL_LIMIT \<le> existing_levels then (Inl (), e)
         else (Inr (), set_transaction_level cd lc (existing_levels + 1) e))"

text \<open>Dropping the guard.\<close>

definition dec_transaction_level ::
  "'r codec \<Rightarrow> level_codec \<Rightarrow> ('r, 't) backend \<Rightarrow> ('r, 't) ext \<Rightarrow> ('r, 't) ext" where
  "dec_transaction_level cd lc be e =
     (let existing_levels = get_transaction_level lc be e
      in if existing_levels = 0 then e
         else if existing_levels = 1 then kill_transaction_level cd e
         else set_transaction_level cd lc (existing_levels - 1) e)"

definition is_transactional :: "level_codec \<Rightarrow> ('r, 't) backend \<Rightarrow> ('r, 't) ext \<Rightarrow> bool" where
  "is_transactional lc be e \<longleftrightarrow> 0 < get_transaction_level lc be e"

section \<open>Layers\<close>

datatype 'a transaction_outcome = Outcome_Commit 'a | Outcome_Rollback 'a

text \<open>The end of a layer. A failed commit or rollback is a panic, the outer \<open>Inl\<close>.\<close>

definition close_layer ::
  "'a transaction_outcome \<Rightarrow> ('r, 't) ext \<Rightarrow> (changeset_error + 'a) \<times> ('r, 't) ext" where
  "close_layer out e =
     (case out of
        Outcome_Commit res \<Rightarrow> map_prod (map_sum id (\<lambda>_. res)) id (io_commit_transaction e)
      | Outcome_Rollback res \<Rightarrow> map_prod (map_sum id (\<lambda>_. res)) id (io_rollback_transaction e))"

text \<open>\<open>limit_reached\<close> is \<open>TransactionalError::LimitReached\<close> in the caller's type of errors.\<close>

definition with_transaction ::
  "'r codec \<Rightarrow> level_codec \<Rightarrow> ('r, 't) backend \<Rightarrow> 'err \<Rightarrow>
   (('r, 't) ext \<Rightarrow> ('err + 'a) transaction_outcome \<times> ('r, 't) ext) \<Rightarrow> ('r, 't) ext \<Rightarrow>
   (changeset_error + ('err + 'a)) \<times> ('r, 't) ext" where
  "with_transaction cd lc be limit_reached f e =
     (case inc_transaction_level cd lc be e of
        (Inl _, e1) \<Rightarrow> (Inr (Inl limit_reached), e1)
      | (Inr _, e1) \<Rightarrow>
          (case f (io_start_transaction e1) of (out, e2) \<Rightarrow>
             (case close_layer out e2 of
                (Inl err, e3) \<Rightarrow> (Inl err, e3)
              | (Inr res, e3) \<Rightarrow> (Inr res, dec_transaction_level cd lc be e3))))"

definition with_transaction_unchecked ::
  "'r codec \<Rightarrow> level_codec \<Rightarrow> ('r, 't) backend \<Rightarrow>
   (('r, 't) ext \<Rightarrow> 'a transaction_outcome \<times> ('r, 't) ext) \<Rightarrow> ('r, 't) ext \<Rightarrow> (changeset_error + 'a) \<times> ('r, 't) ext" where
  "with_transaction_unchecked cd lc be f e =
     (case inc_transaction_level cd lc be e of (maybe_guard, e1) \<Rightarrow>
        (case f (io_start_transaction e1) of (out, e2) \<Rightarrow>
           (case close_layer out e2 of
              (Inl err, e3) \<Rightarrow> (Inl err, e3)
            | (Inr res, e3) \<Rightarrow> (Inr res, if maybe_guard = Inr () then dec_transaction_level cd lc be e3 else e3))))"

definition layer_outcome :: "('err + 'a) \<times> ('r, 't) ext \<Rightarrow> ('err + 'a) transaction_outcome \<times> ('r, 't) ext" where
  "layer_outcome r = (case r of (Inr x, e) \<Rightarrow> (Outcome_Commit (Inr x), e) | (Inl x, e) \<Rightarrow> (Outcome_Rollback (Inl x), e))"

definition with_storage_layer_ext ::
  "'r codec \<Rightarrow> level_codec \<Rightarrow> ('r, 't) backend \<Rightarrow> 'err \<Rightarrow>
   (('r, 't) ext \<Rightarrow> ('err + 'a) \<times> ('r, 't) ext) \<Rightarrow> ('r, 't) ext \<Rightarrow>
   (changeset_error + ('err + 'a)) \<times> ('r, 't) ext" where
  "with_storage_layer_ext cd lc be limit_reached f e = with_transaction cd lc be limit_reached (\<lambda>e. layer_outcome (f e)) e"

definition in_storage_layer ::
  "'r codec \<Rightarrow> level_codec \<Rightarrow> ('r, 't) backend \<Rightarrow> 'err \<Rightarrow>
   (('r, 't) ext \<Rightarrow> ('err + 'a) \<times> ('r, 't) ext) \<Rightarrow> ('r, 't) ext \<Rightarrow>
   (changeset_error + ('err + 'a)) \<times> ('r, 't) ext" where
  "in_storage_layer cd lc be limit_reached f e =
     (if is_transactional lc be e then map_prod Inr id (f e) else with_storage_layer_ext cd lc be limit_reached f e)"

section \<open>Atomicity\<close>

lemma level_key_plain: "is_child_storage_key TRANSACTION_LEVEL_KEY = False"
  by code_simp

lemma place_level:
  assumes "changes_rel (overlay e) (l # ls, prot)"
  shows "changes_rel (overlay (ext_place_storage cd TRANSACTION_LEVEL_KEY w e))
    (l\<lparr>top_writes := (top_writes l)(TRANSACTION_LEVEL_KEY \<mapsto> w)\<rparr> # ls, prot)"
  using change_write_refines [OF assms, of "Ov_Set TRANSACTION_LEVEL_KEY w" "decode_index cd"]
  by (simp add: ext_place_storage_def level_key_plain Let_def)

lemma layer_closable: "changes_rel ov (ls, prot) \<Longrightarrow> writes_closable (x # ls, prot)"
  using cs.rel_bound [OF changes_relD(1)] changes_rel_nonempty
  by (cases prot) (fastforce simp: writes_closable_def)+

lemma ext_storage_rel:
  assumes "changes_rel (overlay e) (ls, prot)"
  shows "ext_storage be (overlay e) k = (case top_view ls k of Some v \<Rightarrow> v | None \<Rightarrow> be_storage be k)"
    "ext_child_storage be (overlay e) info k = (case child_view ls (child_storage_key info) k of Some v \<Rightarrow> v | None \<Rightarrow> be_child_storage be info k)"
    "offchain_get (offchain (overlay e)) p k = offchain_view ls (p, k)"
  using changes_rel_reads [OF assms] by (simp_all add: ext_storage_def ext_child_storage_def)

text \<open>The level is absent or a positive number.\<close>

definition level_ok :: "level_codec \<Rightarrow> ('r, 't) backend \<Rightarrow> ('r, 't) ext \<Rightarrow> bool" where
  "level_ok lc be e \<longleftrightarrow> (case ext_storage be (overlay e) TRANSACTION_LEVEL_KEY of
       None \<Rightarrow> True | Some v \<Rightarrow> \<exists>n. 0 < n \<and> v = encode_level lc n)"

text \<open>The body of a layer: it leaves the layers below and the level as they were.\<close>

definition layer_ok :: "level_codec \<Rightarrow> ('r, 't) backend \<Rightarrow> (('r, 't) ext \<Rightarrow> 'b \<times> ('r, 't) ext) \<Rightarrow> bool" where
  "layer_ok lc be f \<longleftrightarrow> (\<forall>e l ls prot. changes_rel (overlay e) (l # ls, prot) \<and> level_ok lc be e \<longrightarrow>
     (\<exists>l'. changes_rel (overlay (snd (f e))) (l' # ls, prot)) \<and>
     ext_storage be (overlay (snd (f e))) TRANSACTION_LEVEL_KEY = ext_storage be (overlay e) TRANSACTION_LEVEL_KEY)"

definition level_codec_ok :: "level_codec \<Rightarrow> bool" where
  "level_codec_ok lc \<longleftrightarrow> (\<forall>n. decode_level lc (encode_level lc n) = Some n)"

lemma level_read:
  assumes "level_codec_ok lc" "ext_storage be (overlay e) TRANSACTION_LEVEL_KEY = Some (encode_level lc n)"
  shows "get_transaction_level lc be e = n"
  using assms by (simp add: get_transaction_level_def unhashed_get_or_def unwrap_or_def unhashed_get_def io_get_def level_codec_ok_def)

lemma top_view_level [simp]:
  "top_view (l\<lparr>top_writes := (top_writes l)(key \<mapsto> w)\<rparr> # ls) = (top_view (l # ls))(key \<mapsto> w)"
  by (auto simp: fun_eq_iff top_view_hd)

lemma other_views_level [simp]:
  "child_view (l\<lparr>top_writes := m\<rparr> # ls) = child_view (l # ls)" "offchain_view (l\<lparr>top_writes := m\<rparr> # ls) = offchain_view (l # ls)"
  by (simp_all add: child_view_def offchain_view_def fun_eq_iff)

lemma merge_views:
  "top_view (merge_writes u l # ls) = top_view (u # l # ls)" "child_view (merge_writes u l # ls) = child_view (u # l # ls)"
  "offchain_view (merge_writes u l # ls) = offchain_view (u # l # ls)"
  by (simp_all add: top_view_def child_view_def offchain_view_def merge_writes_def fun_eq_iff map_add_def split: option.splits)

text \<open>Taking the level back: it reads as it did before the layer was opened.\<close>

lemma dec_level:
  assumes rel: "changes_rel (overlay e) (l # ls, prot)" and lc: "level_codec_ok lc"
    and now: "ext_storage be (overlay e) TRANSACTION_LEVEL_KEY = Some (encode_level lc (n + 1))"
    and before: "before = (if n = 0 then None else Some (encode_level lc n))" "n < 255"
  shows "changes_rel (overlay (dec_transaction_level cd lc be e))
    (l\<lparr>top_writes := (top_writes l)(TRANSACTION_LEVEL_KEY \<mapsto> before)\<rparr> # ls, prot)"
proof -
  have "n \<noteq> - 1" using before(2) by (auto simp: word_less_nat_alt unsigned_minus_1_eq_mask mask_eq_exp_minus_1)
  then have "n + 1 \<noteq> 0" by (simp add: eq_neg_iff_add_eq_0)
  moreover have "n + 1 = 1 \<longleftrightarrow> n = 0" by simp
  ultimately show ?thesis
    using place_level [OF rel, of cd before] level_read [OF lc now] before(1)
    by (cases "n = 0")
      (simp_all add: dec_transaction_level_def kill_transaction_level_def set_transaction_level_def unhashed_kill_def unhashed_put_def io_clear_def io_set_def)
qed

text \<open>Everything that can be read.\<close>

definition reads ::
  "('r, 't) backend \<Rightarrow> ('r, 't) ext \<Rightarrow>
   (storage_key \<Rightarrow> storage_value option) \<times> (child_info \<Rightarrow> storage_key \<Rightarrow> storage_value option) \<times>
   (storage_key \<Rightarrow> storage_key \<Rightarrow> offchain_change option)" where
  "reads be e = (ext_storage be (overlay e), ext_child_storage be (overlay e), offchain_get (offchain (overlay e)))"

definition view_reads ::
  "('r, 't) backend \<Rightarrow> layer_writes list \<Rightarrow>
   (storage_key \<Rightarrow> storage_value option) \<times> (child_info \<Rightarrow> storage_key \<Rightarrow> storage_value option) \<times>
   (storage_key \<Rightarrow> storage_key \<Rightarrow> offchain_change option)" where
  "view_reads be ls = (\<lambda>k. case top_view ls k of Some v \<Rightarrow> v | None \<Rightarrow> be_storage be k,
     \<lambda>info k. case child_view ls (child_storage_key info) k of Some v \<Rightarrow> v | None \<Rightarrow> be_child_storage be info k,
     \<lambda>p k. offchain_view ls (p, k))"

definition set_read :: "storage_key \<Rightarrow> storage_value option \<Rightarrow> ((storage_key \<Rightarrow> storage_value option) \<times> 'x) \<Rightarrow> ((storage_key \<Rightarrow> storage_value option) \<times> 'x)" where
  "set_read k v r = apfst (\<lambda>s. s(k := v)) r"

lemma reads_rel: "changes_rel (overlay e) (ls, prot) \<Longrightarrow> reads be e = view_reads be ls"
  by (simp add: reads_def view_reads_def fun_eq_iff ext_storage_rel)

lemma view_reads_simps:
  "view_reads be (l\<lparr>top_writes := (top_writes l)(k \<mapsto> w)\<rparr> # ls) = set_read k w (view_reads be (l # ls))"
  "view_reads be (merge_writes u l # ls) = view_reads be (u # l # ls)"
  "view_reads be (no_writes # ls) = view_reads be ls"
  by (auto simp: view_reads_def set_read_def merge_views fun_eq_iff)
    (simp_all add: top_view_def child_view_def offchain_view_def no_writes_def)

lemma set_read_simps [simp]:
  "set_read k v (set_read k w r) = set_read k v r" "fst (set_read k v r) k = v" "fst (reads be e) = ext_storage be (overlay e)"
  "set_read k (fst r k) r = r"
  by (simp_all add: set_read_def reads_def prod_eq_iff)

lemma level_before:
  assumes "level_codec_ok lc" "level_ok lc be e"
  shows "ext_storage be (overlay e) TRANSACTION_LEVEL_KEY =
    (if get_transaction_level lc be e = 0 then None else Some (encode_level lc (get_transaction_level lc be e)))"
proof (cases "ext_storage be (overlay e) TRANSACTION_LEVEL_KEY")
  case None
  then show ?thesis by (simp add: get_transaction_level_def unhashed_get_or_def unwrap_or_def unhashed_get_def io_get_def)
next
  case (Some v)
  then obtain n where "0 < n" "v = encode_level lc n" using assms(2) by (auto simp: level_ok_def)
  then show ?thesis using level_read [OF assms(1)] Some by auto
qed

lemma close_layer_rel:
  assumes "changes_rel (overlay e) (u # l # ls, prot)" "writes_closable (u # l # ls, prot)"
  shows "\<exists>e'. close_layer (Outcome_Rollback res) e = (Inr res, e') \<and> changes_rel (overlay e') (l # ls, prot)"
    "\<exists>e'. close_layer (Outcome_Commit res) e = (Inr res, e') \<and> changes_rel (overlay e') (merge_writes u l # ls, prot)"
  using overlay_rollback_rel [OF assms] overlay_commit_rel [OF assms]
  by (auto simp: close_layer_def io_commit_transaction_def io_rollback_transaction_def ext_rollback_transaction_def ext_commit_transaction_def Let_def)

text \<open>One layer, in terms of the stack of layers.\<close>

lemma with_transaction_rel:
  assumes lc: "level_codec_ok lc" and f: "layer_ok lc be f" and lv: "level_ok lc be e"
    and rel: "changes_rel (overlay e) (l # ls, prot)" and n: "n = get_transaction_level lc be e" "n < 255"
  obtains inner out mid l' e' where "f inner = (out, mid)"
    "reads be inner = set_read TRANSACTION_LEVEL_KEY (Some (encode_level lc (n + 1))) (reads be e)"
    "with_transaction cd lc be lr f e = (Inr (case out of Outcome_Commit r \<Rightarrow> r | Outcome_Rollback r \<Rightarrow> r), e')"
    "changes_rel (overlay e') (l' # ls, prot)"
    "reads be e' = (case out of Outcome_Rollback _ \<Rightarrow> reads be e
       | Outcome_Commit _ \<Rightarrow> set_read TRANSACTION_LEVEL_KEY (ext_storage be (overlay e) TRANSACTION_LEVEL_KEY) (reads be mid))"
proof -
  let ?L = TRANSACTION_LEVEL_KEY
  let ?v = "Some (encode_level lc (n + 1))"
  define l1 where "l1 = l\<lparr>top_writes := (top_writes l)(?L \<mapsto> ?v)\<rparr>"
  define before where "before = ext_storage be (overlay e) ?L"
  have b: "before = (if n = 0 then None else Some (encode_level lc n))" using level_before [OF lc lv] n by (simp add: before_def)
  define e1 where "e1 = set_transaction_level cd lc (n + 1) e"
  define inner where "inner = io_start_transaction e1"
  have inc: "inc_transaction_level cd lc be e = (Inr (), e1)"
    using n by (simp add: inc_transaction_level_def Let_def TRANSACTIONAL_LIMIT_def e1_def not_le [symmetric] del: not_le)
  have rel1: "changes_rel (overlay e1) (l1 # ls, prot)"
    using place_level [OF rel] by (simp add: e1_def l1_def set_transaction_level_def unhashed_put_def io_set_def)
  have rel2: "changes_rel (overlay inner) (no_writes # l1 # ls, prot)"
    using overlay_start_rel [OF rel1] by (simp add: inner_def io_start_transaction_def ext_start_transaction_def)
  have ri: "reads be inner = set_read ?L ?v (reads be e)"
    using reads_rel [OF rel2, of be] reads_rel [OF rel, of be] by (simp add: view_reads_simps l1_def)
  then have li: "ext_storage be (overlay inner) ?L = ?v" by (metis set_read_simps(2,3))
  have "n + 1 \<noteq> 0" using n(2) by (auto simp: word_less_nat_alt unsigned_minus_1_eq_mask mask_eq_exp_minus_1 eq_neg_iff_add_eq_0 [symmetric])
  then have "level_ok lc be inner" using li by (auto simp: level_ok_def word_neq_0_conv)
  then obtain u where u: "changes_rel (overlay (snd (f inner))) (u # l1 # ls, prot)"
    "ext_storage be (overlay (snd (f inner))) ?L = ?v"
    using f rel2 li unfolding layer_ok_def by metis
  obtain out mid where fi: "f inner = (out, mid)" by fastforce
  note u = u [unfolded fi snd_conv]
  note cl = close_layer_rel [OF u(1) layer_closable [OF rel1]]
  obtain l2 e3 where e3: "close_layer out mid = (Inr (case out of Outcome_Commit r \<Rightarrow> r | Outcome_Rollback r \<Rightarrow> r), e3)"
    "changes_rel (overlay e3) (l2 # ls, prot)"
    "view_reads be (l2 # ls) = (case out of Outcome_Commit _ \<Rightarrow> reads be mid | Outcome_Rollback _ \<Rightarrow> set_read ?L ?v (reads be e))"
  proof (cases out)
    case (Outcome_Commit r)
    then show thesis using cl(2) [of r] that [of _ "merge_writes u l1"] reads_rel [OF u(1), of be] by (auto simp: view_reads_simps)
  next
    case (Outcome_Rollback r)
    then show thesis using cl(1) [of r] that [of _ l1] reads_rel [OF rel, of be] by (auto simp: view_reads_simps l1_def)
  qed
  have "fst (reads be e3) ?L = ?v"
    using u(2) e3(3) reads_rel [OF e3(2), of be] by (cases out) simp_all
  then have lv3: "ext_storage be (overlay e3) ?L = ?v" by simp
  note d = dec_level [OF e3(2) lc lv3 b n(2), of cd]
  have "with_transaction cd lc be lr f e =
      (Inr (case out of Outcome_Commit r \<Rightarrow> r | Outcome_Rollback r \<Rightarrow> r), dec_transaction_level cd lc be e3)"
    using inc fi e3(1) by (simp add: with_transaction_def inner_def)
  moreover have "reads be (dec_transaction_level cd lc be e3) = (case out of Outcome_Rollback _ \<Rightarrow> reads be e
       | Outcome_Commit _ \<Rightarrow> set_read ?L before (reads be mid))"
    using reads_rel [OF d, of be] e3(3) set_read_simps(4) [of ?L "reads be e"]
    by (cases out) (simp_all add: view_reads_simps before_def)
  ultimately show thesis using that [OF fi ri _ d] unfolding before_def by blast
qed

lemma with_transaction_full:
  "255 \<le> get_transaction_level lc be e \<Longrightarrow> with_transaction cd lc be lr f e = (Inr (Inl lr), e)"
  by (simp add: with_transaction_def inc_transaction_level_def TRANSACTIONAL_LIMIT_def Let_def)

text \<open>Layers nest: running a layer is itself a body that a layer can run.\<close>

lemma layer_nests:
  assumes lc: "level_codec_ok lc" and f: "layer_ok lc be f"
  shows "layer_ok lc be (with_transaction cd lc be lr f)"
  unfolding layer_ok_def
proof (intro allI impI, elim conjE)
  fix e l ls prot
  assume rel: "changes_rel (overlay e) (l # ls, prot)" and lv: "level_ok lc be e"
  let ?w = "with_transaction cd lc be lr f"
  show "(\<exists>l'. changes_rel (overlay (snd (?w e))) (l' # ls, prot)) \<and>
    ext_storage be (overlay (snd (?w e))) TRANSACTION_LEVEL_KEY = ext_storage be (overlay e) TRANSACTION_LEVEL_KEY"
  proof (cases "get_transaction_level lc be e < 255")
    case False
    then show ?thesis using rel with_transaction_full [of lc be e cd lr f] by (auto simp: not_less)
  next
    case True
    obtain out :: "('c + 'd) transaction_outcome" and mid l' e' where w: "?w e = (Inr (case out of Outcome_Commit r \<Rightarrow> r | Outcome_Rollback r \<Rightarrow> r), e')"
      "changes_rel (overlay e') (l' # ls, prot)"
      "reads be e' = (case out of Outcome_Rollback _ \<Rightarrow> reads be e
       | Outcome_Commit _ \<Rightarrow> set_read TRANSACTION_LEVEL_KEY (ext_storage be (overlay e) TRANSACTION_LEVEL_KEY) (reads be mid))"
      using with_transaction_rel [OF lc f lv rel refl True] by metis
    have "fst (reads be e') TRANSACTION_LEVEL_KEY = ext_storage be (overlay e) TRANSACTION_LEVEL_KEY"
      using w(3) by (cases out) simp_all
    then show ?thesis using w(1,2) unfolding set_read_simps(3) by auto
  qed
qed

text \<open>A write of any key but the level is a body, and so are two bodies in a row.\<close>

lemma layer_ok_place:
  fixes be :: "('r, 't) backend"
  assumes "k \<noteq> TRANSACTION_LEVEL_KEY"
  shows "layer_ok lc be (\<lambda>e. (x, ext_place_storage cd k v e))"
  unfolding layer_ok_def
proof (intro allI impI, elim conjE)
  fix e :: "('r, 't) ext" and l ls prot
  assume rel: "changes_rel (overlay e) (l # ls, prot)"
  note w = change_write_refines [OF rel, of "Ov_Set k v" "decode_index cd"]
  show "(\<exists>l'. changes_rel (overlay (snd (x, ext_place_storage cd k v e))) (l' # ls, prot)) \<and>
    ext_storage be (overlay (snd (x, ext_place_storage cd k v e))) TRANSACTION_LEVEL_KEY = ext_storage be (overlay e) TRANSACTION_LEVEL_KEY"
  proof (cases "is_child_storage_key k")
    case True
    then show ?thesis using rel by (auto simp: ext_place_storage_def)
  next
    case False
    let ?e = "ext_place_storage cd k v e"
    have r: "changes_rel (overlay ?e) (l\<lparr>top_writes := (top_writes l)(k \<mapsto> v)\<rparr> # ls, prot)"
      using w False by (simp add: ext_place_storage_def Let_def)
    have "reads be ?e = set_read k v (reads be e)"
      using reads_rel [OF r, of be] reads_rel [OF rel, of be] by (simp add: view_reads_simps)
    then have "fst (reads be ?e) TRANSACTION_LEVEL_KEY = fst (reads be e) TRANSACTION_LEVEL_KEY"
      using assms by (simp add: set_read_def del: set_read_simps)
    then show ?thesis using r by auto
  qed
qed

lemma layer_ok_seq:
  assumes f: "layer_ok lc be f" and g: "\<And>x. layer_ok lc be (g x)"
  shows "layer_ok lc be (\<lambda>e. case f e of (x, e1) \<Rightarrow> g x e1)"
  unfolding layer_ok_def
proof (intro allI impI, elim conjE)
  fix e l ls prot
  assume rel: "changes_rel (overlay e) (l # ls, prot)" and lv: "level_ok lc be e"
  obtain x e1 where fe: "f e = (x, e1)" by fastforce
  obtain l1 where l1: "changes_rel (overlay e1) (l1 # ls, prot)"
    "ext_storage be (overlay e1) TRANSACTION_LEVEL_KEY = ext_storage be (overlay e) TRANSACTION_LEVEL_KEY"
    using f rel lv fe unfolding layer_ok_def by (metis snd_conv)
  then have "level_ok lc be e1" using lv by (simp add: level_ok_def)
  then have "(\<exists>l'. changes_rel (overlay (snd (g x e1))) (l' # ls, prot)) \<and>
    ext_storage be (overlay (snd (g x e1))) TRANSACTION_LEVEL_KEY = ext_storage be (overlay e1) TRANSACTION_LEVEL_KEY"
    using g [of x] l1(1) unfolding layer_ok_def by blast
  then show "(\<exists>l'. changes_rel (overlay (snd (case f e of (x, e1) \<Rightarrow> g x e1))) (l' # ls, prot)) \<and>
    ext_storage be (overlay (snd (case f e of (x, e1) \<Rightarrow> g x e1))) TRANSACTION_LEVEL_KEY =
      ext_storage be (overlay e) TRANSACTION_LEVEL_KEY"
    using l1(2) fe by simp
qed

text \<open>C6: A storage layer is atomic. At the limit of 255 levels a new layer is refused and nothing
  changes. Below it the body runs one level deeper on the storage as it was, and the result is the
  body's: after \<open>Rollback\<close> every read of the top storage, of the child storages and of the
  offchain writes is what it was before the call, and after \<open>Commit\<close> it is what the body left, with
  the level again as before the call. Closing the layer never panics, and the call is itself a body
  that may run within a layer, so this holds at every depth of nesting. The level must be absent or
  the encoding of a positive number, and the body must leave the level and the layers below alone,
  which writes, sequences and nested layers do.\<close>

theorem with_transaction_atomic:
  assumes lc: "level_codec_ok lc" and f: "layer_ok lc be f" and lv: "level_ok lc be e" and ov: "overlay_ok (overlay e)"
  shows "(if 255 \<le> get_transaction_level lc be e then with_transaction cd lc be lr f e = (Inr (Inl lr), e)
     else \<exists>inner out mid e'.
       f inner = (out, mid) \<and>
       reads be inner = set_read TRANSACTION_LEVEL_KEY (Some (encode_level lc (get_transaction_level lc be e + 1))) (reads be e) \<and>
       with_transaction cd lc be lr f e = (Inr (case out of Outcome_Commit r \<Rightarrow> r | Outcome_Rollback r \<Rightarrow> r), e') \<and>
       overlay_ok (overlay e') \<and>
       reads be e' = (case out of Outcome_Rollback _ \<Rightarrow> reads be e
         | Outcome_Commit _ \<Rightarrow> set_read TRANSACTION_LEVEL_KEY (ext_storage be (overlay e) TRANSACTION_LEVEL_KEY) (reads be mid))) \<and>
     layer_ok lc be (with_transaction cd lc be lr f)"
proof (cases "255 \<le> get_transaction_level lc be e")
  case True
  then show ?thesis using with_transaction_full layer_nests [OF lc f] by simp
next
  case False
  obtain l ls prot where rel: "changes_rel (overlay e) (l # ls, prot)"
    using ov changes_rel_nonempty unfolding overlay_ok_def by (metis list.exhaust)
  have n: "get_transaction_level lc be e < 255" using False by (simp add: not_le)
  show ?thesis
    unfolding if_not_P [OF False]
    by (rule conjI [OF _ layer_nests [OF lc f]], rule with_transaction_rel [OF lc f lv rel refl n, of cd lr], unfold overlay_ok_def, blast)
qed

text \<open>A body that writes a key and then fails, in a layer of its own.\<close>

definition example_level_codec :: level_codec where
  "example_level_codec = \<lparr>encode_level = (\<lambda>n. [ucast n, ucast (drop_bit 8 n), ucast (drop_bit 16 n), ucast (drop_bit 24 n)]),
     decode_level = (\<lambda>bs. case bs of [a, b, c, d] \<Rightarrow>
        Some (or (ucast a) (or (push_bit 8 (ucast b)) (or (push_bit 16 (ucast c)) (push_bit 24 (ucast d))))) | _ \<Rightarrow> None)\<rparr>"

lemma example_level_codec_ok: "level_codec_ok example_level_codec"
proof -
  have top_byte: "i - 16 < 8" if "bit n i" "\<not> bit n (24 + (i - 24))" for n :: u32 and i
    using that by (cases "i < 24") simp_all
  have "or (ucast (ucast n :: u8)) (or (push_bit 8 (ucast (ucast (drop_bit 8 n) :: u8)))
      (or (push_bit 16 (ucast (ucast (drop_bit 16 n) :: u8))) (push_bit 24 (ucast (ucast (drop_bit 24 n) :: u8))))) = n" for n :: u32
    by (rule bit_word_eqI) (auto simp: bit_simps top_byte)
  then show ?thesis by (simp add: level_codec_ok_def example_level_codec_def)
qed

definition example_body :: "(unit, unit) ext \<Rightarrow> (unit + unit) transaction_outcome \<times> (unit, unit) ext" where
  "example_body e = (Outcome_Rollback (Inl ()), ext_place_storage example_codec [1] (Some [9]) e)"

theorem with_transaction_atomic_witness:
  "level_codec_ok example_level_codec \<and> layer_ok example_level_codec example_backend example_body \<and>
   level_ok example_level_codec example_backend example_ext \<and> overlay_ok (overlay example_ext) \<and>
   (\<exists>e'. with_transaction example_codec example_level_codec example_backend () example_body example_ext = (Inr (Inl ()), e') \<and>
     reads example_backend e' = reads example_backend example_ext)"
proof -
  have "[1] \<noteq> TRANSACTION_LEVEL_KEY" by code_simp
  then have f: "layer_ok example_level_codec example_backend example_body"
    unfolding example_body_def by (rule layer_ok_place)
  have n: "ext_storage example_backend (overlay example_ext) TRANSACTION_LEVEL_KEY = None" by code_simp
  then have l: "level_ok example_level_codec example_backend example_ext" by (simp add: level_ok_def)
  note o = example_ext_ok
  have z: "get_transaction_level example_level_codec example_backend example_ext = 0"
    using n by (simp add: get_transaction_level_def unhashed_get_or_def unwrap_or_def unhashed_get_def io_get_def)
  show ?thesis
    using with_transaction_atomic [OF example_level_codec_ok f l o, of example_codec "()"] z f l o example_level_codec_ok
    by (auto simp: example_body_def)
qed

end
