(* ===== verification/System_Accounts.thy ===== *)
theory System_Accounts
  imports Prelude
begin

text \<open>
  Accounts and their reference counters, \<open>frame/system/src/lib.rs\<close>, in the configuration
  of the node runtime: the account data are those of the balances pallet and nothing else
  reacts to new or killed accounts. Storage maps are partial functions; reading an absent
  account gives the default one, and a mutation always writes the entry back. Counters are
  32-bit integers and balances 128-bit ones, both as natural numbers with the saturating
  or wrapping operations of the source. Depositing an event appends it to a log.
\<close>

section \<open>Integers\<close>

definition max_ref_count :: nat where
  "max_ref_count = 2 ^ 32 - 1"

definition max_balance :: nat where
  "max_balance = 2 ^ 128 - 1"

definition checked_add :: "nat \<Rightarrow> nat \<Rightarrow> nat option" where
  "checked_add a b = (if a + b \<le> max_balance then Some (a + b) else None)"

definition checked_sub :: "nat \<Rightarrow> nat \<Rightarrow> nat option" where
  "checked_sub a b = (if b \<le> a then Some (a - b) else None)"

definition saturating_add :: "nat \<Rightarrow> nat \<Rightarrow> nat" where
  "saturating_add a b = min (a + b) max_balance"

text \<open>Subtraction of natural numbers saturates. The unchecked operators wrap.\<close>

definition saturating_sub :: "nat \<Rightarrow> nat \<Rightarrow> nat" where
  "saturating_sub a b = a - b"

definition wrapping_add :: "nat \<Rightarrow> nat \<Rightarrow> nat" where
  "wrapping_add a b = (a + b) mod 2 ^ 128"

definition wrapping_sub :: "nat \<Rightarrow> nat \<Rightarrow> nat" where
  "wrapping_sub a b = (a + (2 ^ 128 - b)) mod 2 ^ 128"

section \<open>State\<close>

record account_data =
  free :: nat
  reserved :: nat
  misc_frozen :: nat
  fee_frozen :: nat

definition default_data :: account_data where
  "default_data = \<lparr>free = 0, reserved = 0, misc_frozen = 0, fee_frozen = 0\<rparr>"

record account_info =
  nonce :: nat
  consumers :: nat
  providers :: nat
  sufficients :: nat
  acc_data :: account_data

definition default_info :: account_info where
  "default_info = \<lparr>nonce = 0, consumers = 0, providers = 0, sufficients = 0, acc_data = default_data\<rparr>"

datatype token_error =
  NoFunds | WouldDie | BelowMinimum | CannotCreate | UnknownAsset | Frozen | Unsupported

datatype arithmetic_error = Underflow | Overflow | DivisionByZero

datatype module_error =
    VestingBalance | LiquidityRestrictions | InsufficientBalance | ExistentialDeposit
  | KeepAlive_Error | ExistingVestingSchedule | DeadAccount | TooManyReserves

datatype dispatch_error =
    CannotLookup | BadOrigin | Module module_error | ConsumerRemaining | NoProviders
  | TooManyConsumers | Token token_error | Arithmetic arithmetic_error

datatype inc_ref_status = Created | Existed

datatype dec_ref_status = Reaped | Exists

datatype balance_status = Status_Free | Status_Reserved

datatype 'a event =
    NewAccount 'a
  | KilledAccount 'a
  | Endowed 'a nat
  | DustLost 'a nat
  | Transfer 'a 'a nat
  | BalanceSet 'a nat nat
  | Reserved_Event 'a nat
  | Unreserved 'a nat
  | ReserveRepatriated 'a 'a nat balance_status
  | Deposit 'a nat
  | Withdraw 'a nat
  | Slashed 'a nat

datatype reasons = Reasons_Fee | Reasons_Misc | Reasons_All

record balance_lock =
  lock_id :: nat
  lock_amount :: nat
  lock_reasons :: reasons

record reserve_data =
  reserve_id :: nat
  reserve_amount :: nat

record 'a chain_state =
  account :: "'a \<Rightarrow> account_info option"
  total_issuance :: nat
  locks :: "'a \<Rightarrow> balance_lock list option"
  reserves :: "'a \<Rightarrow> reserve_data list option"
  events :: "'a event list"

definition deposit_event :: "'a event \<Rightarrow> 'a chain_state \<Rightarrow> 'a chain_state" where
  "deposit_event e s = s\<lparr>events := events s @ [e]\<rparr>"

definition get_account :: "'a chain_state \<Rightarrow> 'a \<Rightarrow> account_info" where
  "get_account s who = (case account s who of None \<Rightarrow> default_info | Some a \<Rightarrow> a)"

definition put_account :: "'a \<Rightarrow> account_info \<Rightarrow> 'a chain_state \<Rightarrow> 'a chain_state" where
  "put_account who a s = s\<lparr>account := (account s)(who \<mapsto> a)\<rparr>"

definition remove_account :: "'a \<Rightarrow> 'a chain_state \<Rightarrow> 'a chain_state" where
  "remove_account who s = s\<lparr>account := (account s)(who := None)\<rparr>"

section \<open>Reference counters\<close>

definition account_exists :: "'a chain_state \<Rightarrow> 'a \<Rightarrow> bool" where
  "account_exists s who = (account s who \<noteq> None)"

definition on_created_account :: "'a \<Rightarrow> 'a chain_state \<Rightarrow> 'a chain_state" where
  "on_created_account who s = deposit_event (NewAccount who) s"

definition on_killed_account :: "'a \<Rightarrow> 'a chain_state \<Rightarrow> 'a chain_state" where
  "on_killed_account who s = deposit_event (KilledAccount who) s"

definition ref_saturating_inc :: "nat \<Rightarrow> nat" where
  "ref_saturating_inc n = min (n + 1) max_ref_count"

definition inc_providers :: "'a \<Rightarrow> 'a chain_state \<Rightarrow> inc_ref_status \<times> 'a chain_state" where
  "inc_providers who s =
     (let a = get_account s who in
      if providers a = 0 \<and> sufficients a = 0
      then (Created, put_account who (a\<lparr>providers := 1\<rparr>) (on_created_account who s))
      else (Existed, put_account who (a\<lparr>providers := ref_saturating_inc (providers a)\<rparr>) s))"

definition dec_providers :: "'a \<Rightarrow> 'a chain_state \<Rightarrow> (dispatch_error + dec_ref_status) \<times> 'a chain_state" where
  "dec_providers who s =
     (case account s who of
        None \<Rightarrow> (Inr Reaped, s)
      | Some a \<Rightarrow>
          let p = (if providers a = 0 then 1 else providers a) in
          if p = 1 \<and> consumers a = 0 \<and> sufficients a = 0
          then (Inr Reaped, remove_account who (on_killed_account who s))
          else if p = 1 \<and> consumers a > 0 then (Inl ConsumerRemaining, s)
          else (Inr Exists, put_account who (a\<lparr>providers := p - 1\<rparr>) s))"

definition inc_sufficients :: "'a \<Rightarrow> 'a chain_state \<Rightarrow> inc_ref_status \<times> 'a chain_state" where
  "inc_sufficients who s =
     (let a = get_account s who in
      if (providers a + sufficients a) mod 2 ^ 32 = 0
      then (Created, put_account who (a\<lparr>sufficients := 1\<rparr>) (on_created_account who s))
      else (Existed, put_account who (a\<lparr>sufficients := ref_saturating_inc (sufficients a)\<rparr>) s))"

definition dec_sufficients :: "'a \<Rightarrow> 'a chain_state \<Rightarrow> dec_ref_status \<times> 'a chain_state" where
  "dec_sufficients who s =
     (case account s who of
        None \<Rightarrow> (Reaped, s)
      | Some a \<Rightarrow>
          if sufficients a \<le> 1 \<and> providers a = 0
          then (Reaped, remove_account who (on_killed_account who s))
          else (Exists, put_account who
            (a\<lparr>sufficients := (if sufficients a = 0 then max_ref_count else sufficients a - 1)\<rparr>) s))"

definition reference_count :: "'a chain_state \<Rightarrow> 'a \<Rightarrow> nat" where
  "reference_count s who =
     (providers (get_account s who) + sufficients (get_account s who)) mod 2 ^ 32"

definition inc_consumers :: "nat \<Rightarrow> 'a \<Rightarrow> 'a chain_state \<Rightarrow> (dispatch_error + unit) \<times> 'a chain_state" where
  "inc_consumers max_consumers who s =
     (let a = get_account s who in
      if providers a > 0 then
        if consumers a < max_consumers
        then (Inr (), put_account who (a\<lparr>consumers := ref_saturating_inc (consumers a)\<rparr>) s)
        else (Inl TooManyConsumers, s)
      else (Inl NoProviders, s))"

definition inc_consumers_without_limit :: "'a \<Rightarrow> 'a chain_state \<Rightarrow> (dispatch_error + unit) \<times> 'a chain_state" where
  "inc_consumers_without_limit who s =
     (let a = get_account s who in
      if providers a > 0
      then (Inr (), put_account who (a\<lparr>consumers := ref_saturating_inc (consumers a)\<rparr>) s)
      else (Inl NoProviders, s))"

definition dec_consumers :: "'a \<Rightarrow> 'a chain_state \<Rightarrow> 'a chain_state" where
  "dec_consumers who s =
     (let a = get_account s who in
      put_account who (if consumers a > 0 then a\<lparr>consumers := consumers a - 1\<rparr> else a) s)"

definition is_provider_required :: "'a chain_state \<Rightarrow> 'a \<Rightarrow> bool" where
  "is_provider_required s who = (consumers (get_account s who) \<noteq> 0)"

definition can_dec_provider :: "'a chain_state \<Rightarrow> 'a \<Rightarrow> bool" where
  "can_dec_provider s who = (consumers (get_account s who) = 0 \<or> providers (get_account s who) > 1)"

definition can_inc_consumer :: "nat \<Rightarrow> 'a chain_state \<Rightarrow> 'a \<Rightarrow> bool" where
  "can_inc_consumer max_consumers s who =
     (providers (get_account s who) > 0 \<and> consumers (get_account s who) < max_consumers)"

definition inc_account_nonce :: "'a \<Rightarrow> 'a chain_state \<Rightarrow> 'a chain_state" where
  "inc_account_nonce who s =
     put_account who ((get_account s who)\<lparr>nonce := (nonce (get_account s who) + 1) mod 2 ^ 32\<rparr>) s"

section \<open>The account data\<close>

definition is_providing :: "account_data \<Rightarrow> bool" where
  "is_providing d = (d \<noteq> default_data)"

definition stored_data :: "'a chain_state \<Rightarrow> 'a \<Rightarrow> account_data option" where
  "stored_data s who =
     (let d = acc_data (get_account s who) in if is_providing d then Some d else None)"

definition set_data :: "'a \<Rightarrow> account_data option \<Rightarrow> 'a chain_state \<Rightarrow> 'a chain_state" where
  "set_data who d s =
     put_account who ((get_account s who)\<lparr>acc_data := (case d of None \<Rightarrow> default_data | Some x \<Rightarrow> x)\<rparr>) s"

text \<open>What \<open>try_mutate_exists\<close> does once the closure has returned: the reference of this
  provider follows the presence of data.\<close>

definition write_back ::
  "'a \<Rightarrow> bool \<Rightarrow> account_data option \<Rightarrow> 'a chain_state \<Rightarrow> (dispatch_error + unit) \<times> 'a chain_state" where
  "write_back who was_providing some_data s =
     (if \<not> was_providing \<and> some_data \<noteq> None then (Inr (), set_data who some_data (snd (inc_providers who s)))
      else if was_providing \<and> some_data = None then
        (case dec_providers who s of
           (Inl e, s') \<Rightarrow> (Inl e, s')
         | (Inr Reaped, s') \<Rightarrow> (Inr (), s')
         | (Inr Exists, s') \<Rightarrow> (Inr (), set_data who some_data s'))
      else if \<not> was_providing \<and> some_data = None then (Inr (), s)
      else (Inr (), set_data who some_data s))"

text \<open>The closure gets the data if there are any and returns a result with the new data. If
  the write fails, the result is dropped: \<open>drop_result\<close> is the effect of its destructor.\<close>

definition try_mutate_exists ::
  "('r \<Rightarrow> 'a chain_state \<Rightarrow> 'a chain_state) \<Rightarrow> 'a \<Rightarrow>
   (account_data option \<Rightarrow> 'a chain_state \<Rightarrow> (dispatch_error + 'r \<times> account_data option) \<times> 'a chain_state) \<Rightarrow>
   'a chain_state \<Rightarrow> (dispatch_error + 'r) \<times> 'a chain_state" where
  "try_mutate_exists drop_result who f s =
     (case f (stored_data s who) s of
        (Inl e, s1) \<Rightarrow> (Inl e, s1)
      | (Inr (r, some_data), s1) \<Rightarrow>
          (case write_back who (stored_data s who \<noteq> None) some_data s1 of
             (Inl e, s2) \<Rightarrow> (Inl e, drop_result r s2)
           | (Inr _, s2) \<Rightarrow> (Inr r, s2)))"

end
