(* ===== verification/Balances.thy ===== *)
theory Balances
  imports System_Accounts
begin

text \<open>
  The balances pallet, \<open>frame/balances/src/lib.rs\<close>, over the account store of the system
  pallet and with dust dropped (\<open>DustRemoval = ()\<close>), as the node runtime configures it.
  The configuration constants are a record. A closure that mutates an account is a function
  of the account, of whether it is new and of the state; imbalances act on the total
  issuance when they are dropped, also when an error discards the result that holds them.
\<close>

section \<open>Configuration and reasons\<close>

record config =
  existential_deposit :: nat
  max_locks :: nat
  max_reserves :: nat

datatype existence_requirement = KeepAlive | AllowDeath

type_synonym withdraw_reasons = u8

definition TRANSACTION_PAYMENT :: withdraw_reasons where "TRANSACTION_PAYMENT = 1"
definition TRANSFER :: withdraw_reasons where "TRANSFER = 2"
definition RESERVE :: withdraw_reasons where "RESERVE = 4"
definition FEE :: withdraw_reasons where "FEE = 8"
definition TIP :: withdraw_reasons where "TIP = 16"

definition reasons_from :: "withdraw_reasons \<Rightarrow> reasons" where
  "reasons_from r =
     (if r = TRANSACTION_PAYMENT then Reasons_Fee
      else if r AND TRANSACTION_PAYMENT = TRANSACTION_PAYMENT then Reasons_All
      else Reasons_Misc)"

definition reasons_or :: "reasons \<Rightarrow> reasons \<Rightarrow> reasons" where
  "reasons_or a b = (if a = b then a else Reasons_All)"

section \<open>Account data\<close>

fun frozen :: "account_data \<Rightarrow> reasons \<Rightarrow> nat" where
  "frozen d Reasons_All = max (misc_frozen d) (fee_frozen d)"
| "frozen d Reasons_Misc = misc_frozen d"
| "frozen d Reasons_Fee = fee_frozen d"

definition usable :: "account_data \<Rightarrow> reasons \<Rightarrow> nat" where
  "usable d r = saturating_sub (free d) (frozen d r)"

definition total :: "account_data \<Rightarrow> nat" where
  "total d = saturating_add (free d) (reserved d)"

definition account_of :: "'a chain_state \<Rightarrow> 'a \<Rightarrow> account_data" where
  "account_of s who = acc_data (get_account s who)"

definition free_balance :: "'a chain_state \<Rightarrow> 'a \<Rightarrow> nat" where
  "free_balance s who = free (account_of s who)"

definition usable_balance :: "'a chain_state \<Rightarrow> 'a \<Rightarrow> nat" where
  "usable_balance s who = usable (account_of s who) Reasons_Misc"

definition usable_balance_for_fees :: "'a chain_state \<Rightarrow> 'a \<Rightarrow> nat" where
  "usable_balance_for_fees s who = usable (account_of s who) Reasons_Fee"

definition reserved_balance :: "'a chain_state \<Rightarrow> 'a \<Rightarrow> nat" where
  "reserved_balance s who = reserved (account_of s who)"

definition total_balance :: "'a chain_state \<Rightarrow> 'a \<Rightarrow> nat" where
  "total_balance s who = total (account_of s who)"

section \<open>Imbalances\<close>

datatype positive_imbalance = PositiveImbalance (pos_amount: nat)
datatype negative_imbalance = NegativeImbalance (neg_amount: nat)

datatype ('s, 'o) same_or_other = Same 's | Other 'o | Neither

fun pos_split :: "positive_imbalance \<Rightarrow> nat \<Rightarrow> positive_imbalance \<times> positive_imbalance" where
  "pos_split (PositiveImbalance a) amount =
     (PositiveImbalance (min a amount), PositiveImbalance (a - min a amount))"

fun pos_merge :: "positive_imbalance \<Rightarrow> positive_imbalance \<Rightarrow> positive_imbalance" where
  "pos_merge (PositiveImbalance a) (PositiveImbalance b) = PositiveImbalance (saturating_add a b)"

fun pos_offset ::
  "positive_imbalance \<Rightarrow> negative_imbalance \<Rightarrow> (positive_imbalance, negative_imbalance) same_or_other" where
  "pos_offset (PositiveImbalance a) (NegativeImbalance b) =
     (if a > b then Same (PositiveImbalance (a - b))
      else if b > a then Other (NegativeImbalance (b - a)) else Neither)"

fun neg_split :: "negative_imbalance \<Rightarrow> nat \<Rightarrow> negative_imbalance \<times> negative_imbalance" where
  "neg_split (NegativeImbalance a) amount =
     (NegativeImbalance (min a amount), NegativeImbalance (a - min a amount))"

fun neg_merge :: "negative_imbalance \<Rightarrow> negative_imbalance \<Rightarrow> negative_imbalance" where
  "neg_merge (NegativeImbalance a) (NegativeImbalance b) = NegativeImbalance (saturating_add a b)"

fun neg_offset ::
  "negative_imbalance \<Rightarrow> positive_imbalance \<Rightarrow> (negative_imbalance, positive_imbalance) same_or_other" where
  "neg_offset (NegativeImbalance a) (PositiveImbalance b) =
     (if a > b then Same (NegativeImbalance (a - b))
      else if b > a then Other (PositiveImbalance (b - a)) else Neither)"

fun drop_positive :: "positive_imbalance \<Rightarrow> 'a chain_state \<Rightarrow> 'a chain_state" where
  "drop_positive (PositiveImbalance a) s = s\<lparr>total_issuance := saturating_add (total_issuance s) a\<rparr>"

fun drop_negative :: "negative_imbalance \<Rightarrow> 'a chain_state \<Rightarrow> 'a chain_state" where
  "drop_negative (NegativeImbalance a) s = s\<lparr>total_issuance := saturating_sub (total_issuance s) a\<rparr>"

section \<open>Mutating an account\<close>

type_synonym 'a dust_cleaner = "('a \<times> negative_imbalance) option"

fun drop_dust_cleaner :: "'a dust_cleaner \<Rightarrow> 'a chain_state \<Rightarrow> 'a chain_state" where
  "drop_dust_cleaner None s = s"
| "drop_dust_cleaner (Some (who, dust)) s =
     drop_negative dust (deposit_event (DustLost who (neg_amount dust)) s)"

definition post_mutation :: "config \<Rightarrow> account_data \<Rightarrow> account_data option \<times> negative_imbalance option" where
  "post_mutation cfg new =
     (if total new < existential_deposit cfg
      then (None, if total new = 0 then None else Some (NegativeImbalance (total new)))
      else (Some new, None))"

definition drop_option :: "('r \<Rightarrow> 's \<Rightarrow> 's) \<Rightarrow> 'r option \<Rightarrow> 's \<Rightarrow> 's" where
  "drop_option f x s = (case x of None \<Rightarrow> s | Some r \<Rightarrow> f r s)"

type_synonym ('a, 'r) account_closure =
  "account_data \<Rightarrow> bool \<Rightarrow> 'a chain_state \<Rightarrow> (dispatch_error + 'r \<times> account_data) \<times> 'a chain_state"

definition try_mutate_account_with_dust ::
  "config \<Rightarrow> ('r \<Rightarrow> 'a chain_state \<Rightarrow> 'a chain_state) \<Rightarrow> 'a \<Rightarrow> ('a, 'r) account_closure \<Rightarrow>
   'a chain_state \<Rightarrow> (dispatch_error + 'r \<times> 'a dust_cleaner) \<times> 'a chain_state" where
  "try_mutate_account_with_dust cfg drop_result who f s =
     (case try_mutate_exists (\<lambda>(_, dust, r) s. drop_result r (drop_option drop_negative dust s)) who
        (\<lambda>maybe_account s0.
          let is_new = (maybe_account = None);
              acc = (case maybe_account of None \<Rightarrow> default_data | Some d \<Rightarrow> d)
          in case f acc is_new s0 of
            (Inl e, s1) \<Rightarrow> (Inl e, s1)
          | (Inr (r, acc'), s1) \<Rightarrow>
              (Inr ((if is_new then Some (free acc') else None, snd (post_mutation cfg acc'), r),
                 fst (post_mutation cfg acc')), s1)) s of
        (Inl e, s1) \<Rightarrow> (Inl e, s1)
      | (Inr (maybe_endowed, maybe_dust, r), s1) \<Rightarrow>
          (Inr (r, map_option (\<lambda>dust. (who, dust)) maybe_dust),
           (case maybe_endowed of None \<Rightarrow> s1 | Some endowed \<Rightarrow> deposit_event (Endowed who endowed) s1)))"

definition try_mutate_account ::
  "config \<Rightarrow> ('r \<Rightarrow> 'a chain_state \<Rightarrow> 'a chain_state) \<Rightarrow> 'a \<Rightarrow> ('a, 'r) account_closure \<Rightarrow>
   'a chain_state \<Rightarrow> (dispatch_error + 'r) \<times> 'a chain_state" where
  "try_mutate_account cfg drop_result who f s =
     (case try_mutate_account_with_dust cfg drop_result who f s of
        (Inl e, s1) \<Rightarrow> (Inl e, s1)
      | (Inr (r, dust_cleaner), s1) \<Rightarrow> (Inr r, drop_dust_cleaner dust_cleaner s1))"

definition no_drop :: "'r \<Rightarrow> 's \<Rightarrow> 's" where
  "no_drop r s = s"

definition mutate_account ::
  "config \<Rightarrow> ('r \<Rightarrow> 'a chain_state \<Rightarrow> 'a chain_state) \<Rightarrow> 'a \<Rightarrow> (account_data \<Rightarrow> 'r \<times> account_data) \<Rightarrow>
   'a chain_state \<Rightarrow> (dispatch_error + 'r) \<times> 'a chain_state" where
  "mutate_account cfg drop_result who f s =
     try_mutate_account cfg drop_result who (\<lambda>acc _ s. (Inr (f acc), s)) s"

section \<open>Consequences\<close>

datatype deposit_consequence_t = Dep_BelowMinimum | Dep_CannotCreate | Dep_UnknownAsset | Dep_Overflow | Dep_Success

datatype withdraw_consequence_t =
    Wd_NoFunds | Wd_WouldDie | Wd_UnknownAsset | Wd_Underflow | Wd_Overflow | Wd_Frozen
  | Wd_ReducedToZero nat | Wd_Success

fun deposit_into_result :: "deposit_consequence_t \<Rightarrow> dispatch_error + unit" where
  "deposit_into_result Dep_BelowMinimum = Inl (Token BelowMinimum)"
| "deposit_into_result Dep_CannotCreate = Inl (Token CannotCreate)"
| "deposit_into_result Dep_UnknownAsset = Inl (Token UnknownAsset)"
| "deposit_into_result Dep_Overflow = Inl (Arithmetic Overflow)"
| "deposit_into_result Dep_Success = Inr ()"

fun withdraw_into_result :: "withdraw_consequence_t \<Rightarrow> dispatch_error + nat" where
  "withdraw_into_result Wd_NoFunds = Inl (Token NoFunds)"
| "withdraw_into_result Wd_WouldDie = Inl (Token WouldDie)"
| "withdraw_into_result Wd_UnknownAsset = Inl (Token UnknownAsset)"
| "withdraw_into_result Wd_Underflow = Inl (Arithmetic Underflow)"
| "withdraw_into_result Wd_Overflow = Inl (Arithmetic Overflow)"
| "withdraw_into_result Wd_Frozen = Inl (Token Frozen)"
| "withdraw_into_result (Wd_ReducedToZero r) = Inr r"
| "withdraw_into_result Wd_Success = Inr 0"

definition deposit_consequence :: "config \<Rightarrow> 'a chain_state \<Rightarrow> nat \<Rightarrow> account_data \<Rightarrow> bool \<Rightarrow> deposit_consequence_t" where
  "deposit_consequence cfg s amount acc mint =
     (if amount = 0 then Dep_Success
      else if mint \<and> checked_add (total_issuance s) amount = None then Dep_Overflow
      else case checked_add (total acc) amount of
        None \<Rightarrow> Dep_Overflow
      | Some new_total \<Rightarrow> if new_total < existential_deposit cfg then Dep_BelowMinimum else Dep_Success)"

definition withdraw_consequence :: "config \<Rightarrow> 'a chain_state \<Rightarrow> 'a \<Rightarrow> nat \<Rightarrow> account_data \<Rightarrow> withdraw_consequence_t" where
  "withdraw_consequence cfg s who amount acc =
     (if amount = 0 then Wd_Success
      else if checked_sub (total_issuance s) amount = None then Wd_Underflow
      else case checked_sub (total acc) amount of
        None \<Rightarrow> Wd_NoFunds
      | Some new_total \<Rightarrow>
          if new_total < existential_deposit cfg \<and> \<not> can_dec_provider s who then Wd_WouldDie
          else let success = (if new_total < existential_deposit cfg then Wd_ReducedToZero new_total else Wd_Success)
            in case checked_sub (free acc) amount of
              None \<Rightarrow> Wd_NoFunds
            | Some new_free \<Rightarrow> if new_free < frozen acc Reasons_All then Wd_Frozen else success)"

section \<open>Currency\<close>

definition can_slash :: "'a chain_state \<Rightarrow> 'a \<Rightarrow> nat \<Rightarrow> bool" where
  "can_slash s who v = (v = 0 \<or> v \<le> free_balance s who)"

definition burn :: "nat \<Rightarrow> 'a chain_state \<Rightarrow> positive_imbalance \<times> 'a chain_state" where
  "burn amount s =
     (if amount = 0 then (PositiveImbalance 0, s)
      else case checked_sub (total_issuance s) amount of
        Some issued \<Rightarrow> (PositiveImbalance amount, s\<lparr>total_issuance := issued\<rparr>)
      | None \<Rightarrow> (PositiveImbalance (total_issuance s), s\<lparr>total_issuance := 0\<rparr>))"

definition issue :: "nat \<Rightarrow> 'a chain_state \<Rightarrow> negative_imbalance \<times> 'a chain_state" where
  "issue amount s =
     (if amount = 0 then (NegativeImbalance 0, s)
      else case checked_add (total_issuance s) amount of
        Some issued \<Rightarrow> (NegativeImbalance amount, s\<lparr>total_issuance := issued\<rparr>)
      | None \<Rightarrow> (NegativeImbalance (max_balance - total_issuance s), s\<lparr>total_issuance := max_balance\<rparr>))"

definition ensure_can_withdraw ::
  "'a chain_state \<Rightarrow> 'a \<Rightarrow> nat \<Rightarrow> withdraw_reasons \<Rightarrow> nat \<Rightarrow> dispatch_error + unit" where
  "ensure_can_withdraw s who amount rs new_balance =
     (if amount = 0 \<or> frozen (account_of s who) (reasons_from rs) \<le> new_balance then Inr ()
      else Inl (Module LiquidityRestrictions))"

text \<open>The innermost closure of \<open>transfer\<close>: the new account of the receiver and of the sender.\<close>

definition transfer_accounts ::
  "config \<Rightarrow> 'a chain_state \<Rightarrow> 'a \<Rightarrow> nat \<Rightarrow> existence_requirement \<Rightarrow> account_data \<Rightarrow> account_data \<Rightarrow>
   dispatch_error + account_data \<times> account_data" where
  "transfer_accounts cfg s transactor v er to_account from_account =
     bindR (ok_or (checked_sub (free from_account) v) (Module InsufficientBalance)) (\<lambda>from_free.
     bindR (ok_or (checked_add (free to_account) v) (Arithmetic Overflow)) (\<lambda>to_free.
       let to' = to_account\<lparr>free := to_free\<rparr>; from' = from_account\<lparr>free := from_free\<rparr> in
       if total to' < existential_deposit cfg then Inl (Module ExistentialDeposit)
       else case ensure_can_withdraw s transactor v TRANSFER from_free of
         Inl _ \<Rightarrow> Inl (Module LiquidityRestrictions)
       | Inr _ \<Rightarrow>
           if (er = AllowDeath \<and> can_dec_provider s transactor) \<or> existential_deposit cfg \<le> total from'
           then Inr (to', from') else Inl (Module KeepAlive_Error)))"

definition transfer ::
  "config \<Rightarrow> 'a \<Rightarrow> 'a \<Rightarrow> nat \<Rightarrow> existence_requirement \<Rightarrow> 'a chain_state \<Rightarrow>
   (dispatch_error + unit) \<times> 'a chain_state" where
  "transfer cfg transactor dest v er s =
     (if v = 0 \<or> transactor = dest then (Inr (), s)
      else case try_mutate_account_with_dust cfg drop_dust_cleaner dest
        (\<lambda>to_account _ s0.
          case try_mutate_account_with_dust cfg no_drop transactor
            (\<lambda>from_account _ s1. (transfer_accounts cfg s1 transactor v er to_account from_account, s1)) s0 of
            (Inl e, s2) \<Rightarrow> (Inl e, s2)
          | (Inr (to', dust_cleaner), s2) \<Rightarrow> (Inr (dust_cleaner, to'), s2)) s of
        (Inl e, s') \<Rightarrow> (Inl e, s')
      | (Inr (from_dust, to_dust), s') \<Rightarrow>
          (Inr (), deposit_event (Transfer transactor dest v) (drop_dust_cleaner to_dust (drop_dust_cleaner from_dust s'))))"

text \<open>One attempt of \<open>slash\<close>: the second leaves the existential deposit.\<close>

definition best_slash :: "config \<Rightarrow> bool \<Rightarrow> nat \<Rightarrow> account_data \<Rightarrow> nat" where
  "best_slash cfg first v acc =
     (if first then v
      else min v (saturating_sub (wrapping_add (free acc) (reserved acc)) (existential_deposit cfg)))"

definition slash_account ::
  "config \<Rightarrow> bool \<Rightarrow> nat \<Rightarrow> account_data \<Rightarrow> (negative_imbalance \<times> nat) \<times> account_data" where
  "slash_account cfg first v acc =
     (let best_value = best_slash cfg first v acc;
          free_slash = min (free acc) best_value;
          acc' = acc\<lparr>free := free acc - free_slash\<rparr>;
          remaining_slash = best_value - free_slash
      in if remaining_slash \<noteq> 0 then
           let reserved_slash = min (reserved acc') remaining_slash
           in ((NegativeImbalance (wrapping_add free_slash reserved_slash), v - free_slash - reserved_slash),
               acc'\<lparr>reserved := reserved acc' - reserved_slash\<rparr>)
         else ((NegativeImbalance free_slash, v - free_slash), acc'))"

definition drop_slash :: "negative_imbalance \<times> nat \<Rightarrow> 'a chain_state \<Rightarrow> 'a chain_state" where
  "drop_slash r s = drop_negative (fst r) s"

text \<open>The loop \<open>for attempt in 0..2\<close> shared by \<open>slash\<close> and \<open>slash_reserved\<close>, which differ in
  the closure.\<close>

fun slash_attempts ::
  "config \<Rightarrow> 'a \<Rightarrow> nat \<Rightarrow> (bool \<Rightarrow> account_data \<Rightarrow> (negative_imbalance \<times> nat) \<times> account_data) \<Rightarrow>
   bool list \<Rightarrow> 'a chain_state \<Rightarrow> (negative_imbalance \<times> nat) \<times> 'a chain_state" where
  "slash_attempts cfg who v f [] s = ((NegativeImbalance 0, v), s)"
| "slash_attempts cfg who v f (first # rest) s =
     (case try_mutate_account cfg drop_slash who (\<lambda>acc _ s. (Inr (f first acc), s)) s of
        (Inr (imbalance, not_slashed), s1) \<Rightarrow>
          ((imbalance, not_slashed), deposit_event (Slashed who (saturating_sub v not_slashed)) s1)
      | (Inl _, s1) \<Rightarrow> slash_attempts cfg who v f rest s1)"

definition slash :: "config \<Rightarrow> 'a \<Rightarrow> nat \<Rightarrow> 'a chain_state \<Rightarrow> (negative_imbalance \<times> nat) \<times> 'a chain_state" where
  "slash cfg who v s =
     (if v = 0 then ((NegativeImbalance 0, 0), s)
      else if total_balance s who = 0 then ((NegativeImbalance 0, v), s)
      else slash_attempts cfg who v (\<lambda>first. slash_account cfg first v) [True, False] s)"

definition deposit_into_existing ::
  "config \<Rightarrow> 'a \<Rightarrow> nat \<Rightarrow> 'a chain_state \<Rightarrow> (dispatch_error + positive_imbalance) \<times> 'a chain_state" where
  "deposit_into_existing cfg who v s =
     (if v = 0 then (Inr (PositiveImbalance 0), s)
      else try_mutate_account cfg drop_positive who
        (\<lambda>acc is_new s.
          if is_new then (Inl (Module DeadAccount), s)
          else case checked_add (free acc) v of
            None \<Rightarrow> (Inl (Arithmetic Overflow), s)
          | Some x \<Rightarrow> (Inr (PositiveImbalance v, acc\<lparr>free := x\<rparr>), deposit_event (Deposit who v) s)) s)"

definition deposit_creating ::
  "config \<Rightarrow> 'a \<Rightarrow> nat \<Rightarrow> 'a chain_state \<Rightarrow> positive_imbalance \<times> 'a chain_state" where
  "deposit_creating cfg who v s =
     (if v = 0 then (PositiveImbalance 0, s)
      else case try_mutate_account cfg drop_positive who
        (\<lambda>acc is_new s.
          if v < existential_deposit cfg \<and> is_new then (Inl (Module ExistentialDeposit), s)
          else case checked_add (free acc) v of
            None \<Rightarrow> (Inr (PositiveImbalance 0, acc), s)
          | Some x \<Rightarrow> (Inr (PositiveImbalance v, acc\<lparr>free := x\<rparr>), deposit_event (Deposit who v) s)) s of
        (Inl _, s1) \<Rightarrow> (PositiveImbalance 0, s1)
      | (Inr r, s1) \<Rightarrow> (r, s1))"

definition withdraw ::
  "config \<Rightarrow> 'a \<Rightarrow> nat \<Rightarrow> withdraw_reasons \<Rightarrow> existence_requirement \<Rightarrow> 'a chain_state \<Rightarrow>
   (dispatch_error + negative_imbalance) \<times> 'a chain_state" where
  "withdraw cfg who v rs liveness s =
     (if v = 0 then (Inr (NegativeImbalance 0), s)
      else try_mutate_account cfg drop_negative who
        (\<lambda>acc _ s.
          case checked_sub (free acc) v of
            None \<Rightarrow> (Inl (Module InsufficientBalance), s)
          | Some new_free \<Rightarrow>
              let ed = existential_deposit cfg;
                  would_be_dead = (wrapping_add new_free (reserved acc) < ed);
                  would_kill = (would_be_dead \<and> ed \<le> wrapping_add (free acc) (reserved acc))
              in if \<not> (liveness = AllowDeath \<or> \<not> would_kill) then (Inl (Module KeepAlive_Error), s)
                 else case ensure_can_withdraw s who v rs new_free of
                   Inl e \<Rightarrow> (Inl e, s)
                 | Inr _ \<Rightarrow> (Inr (NegativeImbalance v, acc\<lparr>free := new_free\<rparr>), deposit_event (Withdraw who v) s)) s)"

datatype signed_imbalance = Signed_Positive positive_imbalance | Signed_Negative negative_imbalance

fun drop_signed :: "signed_imbalance \<Rightarrow> 'a chain_state \<Rightarrow> 'a chain_state" where
  "drop_signed (Signed_Positive p) s = drop_positive p s"
| "drop_signed (Signed_Negative n) s = drop_negative n s"

definition make_free_balance_be ::
  "config \<Rightarrow> 'a \<Rightarrow> nat \<Rightarrow> 'a chain_state \<Rightarrow> signed_imbalance \<times> 'a chain_state" where
  "make_free_balance_be cfg who v s =
     (case try_mutate_account cfg drop_signed who
        (\<lambda>acc is_new s.
          if saturating_add v (reserved acc) < existential_deposit cfg \<and> is_new
          then (Inl (Module ExistentialDeposit), s)
          else (Inr (if free acc \<le> v then Signed_Positive (PositiveImbalance (v - free acc))
                     else Signed_Negative (NegativeImbalance (free acc - v)), acc\<lparr>free := v\<rparr>),
                deposit_event (BalanceSet who v (reserved acc)) s)) s of
        (Inl _, s1) \<Rightarrow> (Signed_Positive (PositiveImbalance 0), s1)
      | (Inr r, s1) \<Rightarrow> (r, s1))"

section \<open>Reserves\<close>

definition can_reserve :: "'a chain_state \<Rightarrow> 'a \<Rightarrow> nat \<Rightarrow> bool" where
  "can_reserve s who v =
     (v = 0 \<or> (case checked_sub (free (account_of s who)) v of
        None \<Rightarrow> False
      | Some new_balance \<Rightarrow> ensure_can_withdraw s who v RESERVE new_balance = Inr ()))"

definition reserve :: "config \<Rightarrow> 'a \<Rightarrow> nat \<Rightarrow> 'a chain_state \<Rightarrow> (dispatch_error + unit) \<times> 'a chain_state" where
  "reserve cfg who v s =
     (if v = 0 then (Inr (), s)
      else case try_mutate_account cfg no_drop who
        (\<lambda>acc _ s.
          (bindR (ok_or (checked_sub (free acc) v) (Module InsufficientBalance)) (\<lambda>new_free.
           bindR (ok_or (checked_add (reserved acc) v) (Arithmetic Overflow)) (\<lambda>new_reserved.
           bindR (ensure_can_withdraw s who v RESERVE new_free) (\<lambda>_.
             Inr ((), acc\<lparr>free := new_free, reserved := new_reserved\<rparr>)))), s)) s of
        (Inl e, s1) \<Rightarrow> (Inl e, s1)
      | (Inr _, s1) \<Rightarrow> (Inr (), deposit_event (Reserved_Event who v) s1))"

definition unreserve :: "config \<Rightarrow> 'a \<Rightarrow> nat \<Rightarrow> 'a chain_state \<Rightarrow> nat \<times> 'a chain_state" where
  "unreserve cfg who v s =
     (if v = 0 then (0, s)
      else if total_balance s who = 0 then (v, s)
      else case mutate_account cfg no_drop who
        (\<lambda>acc. let actual = min (reserved acc) v in
          (actual, acc\<lparr>reserved := reserved acc - actual, free := saturating_add (free acc) actual\<rparr>)) s of
        (Inl _, s1) \<Rightarrow> (v, s1)
      | (Inr actual, s1) \<Rightarrow> (v - actual, deposit_event (Unreserved who actual) s1))"

definition slash_reserved_account ::
  "config \<Rightarrow> nat \<Rightarrow> bool \<Rightarrow> account_data \<Rightarrow> (negative_imbalance \<times> nat) \<times> account_data" where
  "slash_reserved_account cfg v first acc =
     (let actual = min (reserved acc) (best_slash cfg first v acc)
      in ((NegativeImbalance actual, v - actual), acc\<lparr>reserved := reserved acc - actual\<rparr>))"

definition slash_reserved ::
  "config \<Rightarrow> 'a \<Rightarrow> nat \<Rightarrow> 'a chain_state \<Rightarrow> (negative_imbalance \<times> nat) \<times> 'a chain_state" where
  "slash_reserved cfg who v s =
     (if v = 0 then ((NegativeImbalance 0, 0), s)
      else if total_balance s who = 0 then ((NegativeImbalance 0, v), s)
      else slash_attempts cfg who v (slash_reserved_account cfg v) [True, False] s)"

text \<open>The innermost closure of \<open>do_transfer_reserved\<close>.\<close>

definition repatriate_accounts ::
  "nat \<Rightarrow> bool \<Rightarrow> balance_status \<Rightarrow> account_data \<Rightarrow> account_data \<Rightarrow>
   dispatch_error + (nat \<times> account_data) \<times> account_data" where
  "repatriate_accounts v best_effort status to_account from_account =
     (let actual = min (reserved from_account) v in
      if \<not> (best_effort \<or> actual = v) then Inl (Module InsufficientBalance)
      else case status of
        Status_Free \<Rightarrow>
          bindR (ok_or (checked_add (free to_account) actual) (Arithmetic Overflow)) (\<lambda>x.
            Inr ((actual, to_account\<lparr>free := x\<rparr>), from_account\<lparr>reserved := reserved from_account - actual\<rparr>))
      | Status_Reserved \<Rightarrow>
          bindR (ok_or (checked_add (reserved to_account) actual) (Arithmetic Overflow)) (\<lambda>x.
            Inr ((actual, to_account\<lparr>reserved := x\<rparr>), from_account\<lparr>reserved := reserved from_account - actual\<rparr>)))"

definition do_transfer_reserved ::
  "config \<Rightarrow> 'a \<Rightarrow> 'a \<Rightarrow> nat \<Rightarrow> bool \<Rightarrow> balance_status \<Rightarrow> 'a chain_state \<Rightarrow>
   (dispatch_error + nat) \<times> 'a chain_state" where
  "do_transfer_reserved cfg slashed beneficiary v best_effort status s =
     (if v = 0 then (Inr 0, s)
      else if slashed = beneficiary then
        (case status of
           Status_Free \<Rightarrow> (case unreserve cfg slashed v s of (rest, s1) \<Rightarrow> (Inr (saturating_sub v rest), s1))
         | Status_Reserved \<Rightarrow> (Inr (saturating_sub v (reserved_balance s slashed)), s))
      else case try_mutate_account_with_dust cfg (\<lambda>(_, dust). drop_dust_cleaner dust) beneficiary
        (\<lambda>to_account is_new s0.
          if is_new then (Inl (Module DeadAccount), s0)
          else case try_mutate_account_with_dust cfg no_drop slashed
            (\<lambda>from_account _ s1. (repatriate_accounts v best_effort status to_account from_account, s1)) s0 of
            (Inl e, s2) \<Rightarrow> (Inl e, s2)
          | (Inr ((actual, to'), dust_cleaner), s2) \<Rightarrow> (Inr ((actual, dust_cleaner), to'), s2)) s of
        (Inl e, s') \<Rightarrow> (Inl e, s')
      | (Inr ((actual, one_dust), other_dust), s') \<Rightarrow>
          (Inr actual, drop_dust_cleaner one_dust (drop_dust_cleaner other_dust
             (deposit_event (ReserveRepatriated slashed beneficiary actual status) s'))))"

definition repatriate_reserved ::
  "config \<Rightarrow> 'a \<Rightarrow> 'a \<Rightarrow> nat \<Rightarrow> balance_status \<Rightarrow> 'a chain_state \<Rightarrow> (dispatch_error + nat) \<times> 'a chain_state" where
  "repatriate_reserved cfg slashed beneficiary v status s =
     (case do_transfer_reserved cfg slashed beneficiary v True status s of
        (Inl e, s1) \<Rightarrow> (Inl e, s1)
      | (Inr actual, s1) \<Rightarrow> (Inr (saturating_sub v actual), s1))"

subsection \<open>Named reserves\<close>

text \<open>The vector of an account is sorted by identifier, so that binary search finds the entry
  with the identifier or where to insert one.\<close>

fun find_reserve :: "nat \<Rightarrow> reserve_data list \<Rightarrow> nat + nat" where
  "find_reserve ident [] = Inl 0"
| "find_reserve ident (r # rs) =
     (if reserve_id r = ident then Inr 0
      else if ident < reserve_id r then Inl 0
      else map_sum Suc Suc (find_reserve ident rs))"

definition reserves_of :: "'a chain_state \<Rightarrow> 'a \<Rightarrow> reserve_data list" where
  "reserves_of s who = (case reserves s who of None \<Rightarrow> [] | Some rs \<Rightarrow> rs)"

definition put_reserves :: "'a \<Rightarrow> reserve_data list option \<Rightarrow> 'a chain_state \<Rightarrow> 'a chain_state" where
  "put_reserves who rs s = s\<lparr>reserves := (reserves s)(who := rs)\<rparr>"

definition insert_at :: "nat \<Rightarrow> 'x \<Rightarrow> 'x list \<Rightarrow> 'x list" where
  "insert_at i x xs = take i xs @ x # drop i xs"

definition set_reserve_amount :: "nat \<Rightarrow> nat \<Rightarrow> reserve_data list \<Rightarrow> reserve_data list" where
  "set_reserve_amount i v rs = rs[i := (rs ! i)\<lparr>reserve_amount := v\<rparr>]"

definition reserved_balance_named :: "'a chain_state \<Rightarrow> nat \<Rightarrow> 'a \<Rightarrow> nat" where
  "reserved_balance_named s ident who =
     (case find_reserve ident (reserves_of s who) of Inl _ \<Rightarrow> 0 | Inr i \<Rightarrow> reserve_amount (reserves_of s who ! i))"

definition reserve_named ::
  "config \<Rightarrow> nat \<Rightarrow> 'a \<Rightarrow> nat \<Rightarrow> 'a chain_state \<Rightarrow> (dispatch_error + unit) \<times> 'a chain_state" where
  "reserve_named cfg ident who v s =
     (if v = 0 then (Inr (), s)
      else let rs = reserves_of s who in
        case (case find_reserve ident rs of
            Inr i \<Rightarrow> Inr (set_reserve_amount i (saturating_add (reserve_amount (rs ! i)) v) rs)
          | Inl i \<Rightarrow> if length rs < max_reserves cfg
              then Inr (insert_at i \<lparr>reserve_id = ident, reserve_amount = v\<rparr> rs)
              else Inl (Module TooManyReserves)) of
          Inl e \<Rightarrow> (Inl e, s)
        | Inr rs' \<Rightarrow>
            (case reserve cfg who v s of
               (Inl e, s1) \<Rightarrow> (Inl e, s1)
             | (Inr _, s1) \<Rightarrow> (Inr (), put_reserves who (Some rs') s1)))"

definition unreserve_named :: "config \<Rightarrow> nat \<Rightarrow> 'a \<Rightarrow> nat \<Rightarrow> 'a chain_state \<Rightarrow> nat \<times> 'a chain_state" where
  "unreserve_named cfg ident who v s =
     (if v = 0 then (0, s)
      else case reserves s who of
        None \<Rightarrow> (v, s)
      | Some rs \<Rightarrow>
          (case find_reserve ident rs of
             Inl _ \<Rightarrow> (v, put_reserves who (Some rs) s)
           | Inr i \<Rightarrow>
               let to_change = min (reserve_amount (rs ! i)) v;
                   (remain, s1) = unreserve cfg who to_change s;
                   actual = saturating_sub to_change remain;
                   rs' = set_reserve_amount i (reserve_amount (rs ! i) - actual) rs
               in (v - actual,
                   put_reserves who
                     (if reserve_amount (rs' ! i) = 0
                      then if length rs' = 1 then None else Some (take i rs' @ drop (Suc i) rs')
                      else Some rs') s1)))"

definition slash_reserved_named ::
  "config \<Rightarrow> nat \<Rightarrow> 'a \<Rightarrow> nat \<Rightarrow> 'a chain_state \<Rightarrow> (negative_imbalance \<times> nat) \<times> 'a chain_state" where
  "slash_reserved_named cfg ident who v s =
     (if v = 0 then ((NegativeImbalance 0, 0), s)
      else let rs = reserves_of s who in
        case find_reserve ident rs of
          Inl _ \<Rightarrow> ((NegativeImbalance 0, v), put_reserves who (Some rs) s)
        | Inr i \<Rightarrow>
            let to_change = min (reserve_amount (rs ! i)) v;
                ((imb, remain), s1) = slash_reserved cfg who to_change s;
                actual = saturating_sub to_change remain
            in ((imb, v - actual),
                put_reserves who (Some (set_reserve_amount i (reserve_amount (rs ! i) - actual) rs))
                  (deposit_event (Slashed who actual) s1)))"

text \<open>The change of the beneficiary's named reserve when the funds stay reserved.\<close>

definition add_named_reserve :: "config \<Rightarrow> nat \<Rightarrow> nat \<Rightarrow> reserve_data list \<Rightarrow> dispatch_error + reserve_data list" where
  "add_named_reserve cfg ident actual rs =
     (case find_reserve ident rs of
        Inr i \<Rightarrow> Inr (set_reserve_amount i (saturating_add (reserve_amount (rs ! i)) actual) rs)
      | Inl i \<Rightarrow> if length rs < max_reserves cfg
          then Inr (insert_at i \<lparr>reserve_id = ident, reserve_amount = actual\<rparr> rs)
          else Inl (Module TooManyReserves))"

definition repatriate_reserved_named ::
  "config \<Rightarrow> nat \<Rightarrow> 'a \<Rightarrow> 'a \<Rightarrow> nat \<Rightarrow> balance_status \<Rightarrow> 'a chain_state \<Rightarrow>
   (dispatch_error + nat) \<times> 'a chain_state" where
  "repatriate_reserved_named cfg ident slashed beneficiary v status s =
     (if v = 0 then (Inr 0, s)
      else if slashed = beneficiary then
        (case status of
           Status_Free \<Rightarrow> (case unreserve_named cfg ident slashed v s of (r, s1) \<Rightarrow> (Inr r, s1))
         | Status_Reserved \<Rightarrow> (Inr (saturating_sub v (reserved_balance_named s ident slashed)), s))
      else let rs = reserves_of s slashed in
        case find_reserve ident rs of
          Inl _ \<Rightarrow> (Inr v, put_reserves slashed (Some rs) s)
        | Inr i \<Rightarrow>
            let to_change = min (reserve_amount (rs ! i)) v in
            (case repatriate_reserved cfg slashed beneficiary to_change status s of
               (Inl e, s1) \<Rightarrow> (Inl e, s1)
             | (Inr remain, s1) \<Rightarrow>
                 let actual = saturating_sub to_change remain;
                     rs' = set_reserve_amount i (reserve_amount (rs ! i) - actual) rs
                 in case status of
                   Status_Free \<Rightarrow> (Inr (v - actual), put_reserves slashed (Some rs') s1)
                 | Status_Reserved \<Rightarrow>
                     (case add_named_reserve cfg ident actual (reserves_of s beneficiary) of
                        Inl e \<Rightarrow> (Inl e, s1)
                      | Inr to_rs \<Rightarrow>
                          (Inr (v - actual), put_reserves slashed (Some rs') (put_reserves beneficiary (Some to_rs) s1)))))"

section \<open>Locks\<close>

definition locks_of :: "'a chain_state \<Rightarrow> 'a \<Rightarrow> balance_lock list" where
  "locks_of s who = (case locks s who of None \<Rightarrow> [] | Some ls \<Rightarrow> ls)"

text \<open>\<open>force_from\<close> keeps a vector that is too long, with a warning.\<close>

definition lock_frozen :: "balance_lock list \<Rightarrow> account_data \<Rightarrow> account_data" where
  "lock_frozen ls d =
     foldl (\<lambda>b l.
         let b1 = (if lock_reasons l = Reasons_All \<or> lock_reasons l = Reasons_Misc
                   then b\<lparr>misc_frozen := max (misc_frozen b) (lock_amount l)\<rparr> else b)
         in if lock_reasons l = Reasons_All \<or> lock_reasons l = Reasons_Fee
            then b1\<lparr>fee_frozen := max (fee_frozen b1) (lock_amount l)\<rparr> else b1)
       (d\<lparr>misc_frozen := 0, fee_frozen := 0\<rparr>) ls"

definition update_locks :: "config \<Rightarrow> 'a \<Rightarrow> balance_lock list \<Rightarrow> 'a chain_state \<Rightarrow> 'a chain_state" where
  "update_locks cfg who ls s =
     (let s1 = snd (mutate_account cfg no_drop who (\<lambda>b. ((), lock_frozen ls b)) s);
          existed = (locks s1 who \<noteq> None)
      in if ls = [] then
           let s2 = s1\<lparr>locks := (locks s1)(who := None)\<rparr>
           in if existed then dec_consumers who s2 else s2
         else
           let s2 = s1\<lparr>locks := (locks s1)(who \<mapsto> ls)\<rparr>
           in if \<not> existed then snd (inc_consumers_without_limit who s2) else s2)"

text \<open>Replacing the lock with an identifier: the first such lock is replaced, further ones
  are removed, and without one the new lock is appended.\<close>

fun replace_lock ::
  "nat \<Rightarrow> (balance_lock \<Rightarrow> balance_lock) \<Rightarrow> balance_lock option \<Rightarrow> balance_lock list \<Rightarrow> balance_lock list" where
  "replace_lock ident f new_lock [] = (case new_lock of None \<Rightarrow> [] | Some l \<Rightarrow> [l])"
| "replace_lock ident f new_lock (l # ls) =
     (if lock_id l = ident
      then (case new_lock of None \<Rightarrow> replace_lock ident f None ls | Some _ \<Rightarrow> f l # replace_lock ident f None ls)
      else l # replace_lock ident f new_lock ls)"

definition set_lock ::
  "config \<Rightarrow> nat \<Rightarrow> 'a \<Rightarrow> nat \<Rightarrow> withdraw_reasons \<Rightarrow> 'a chain_state \<Rightarrow> 'a chain_state" where
  "set_lock cfg ident who amount rs s =
     (if amount = 0 \<or> rs = 0 then s
      else let new_lock = \<lparr>lock_id = ident, lock_amount = amount, lock_reasons = reasons_from rs\<rparr>
        in update_locks cfg who (replace_lock ident (\<lambda>_. new_lock) (Some new_lock) (locks_of s who)) s)"

definition extend_lock ::
  "config \<Rightarrow> nat \<Rightarrow> 'a \<Rightarrow> nat \<Rightarrow> withdraw_reasons \<Rightarrow> 'a chain_state \<Rightarrow> 'a chain_state" where
  "extend_lock cfg ident who amount rs s =
     (if amount = 0 \<or> rs = 0 then s
      else let new_lock = \<lparr>lock_id = ident, lock_amount = amount, lock_reasons = reasons_from rs\<rparr>
        in update_locks cfg who
          (replace_lock ident (\<lambda>l. \<lparr>lock_id = lock_id l, lock_amount = max (lock_amount l) amount,
             lock_reasons = reasons_or (lock_reasons l) (lock_reasons new_lock)\<rparr>) (Some new_lock) (locks_of s who)) s)"

definition remove_lock :: "config \<Rightarrow> nat \<Rightarrow> 'a \<Rightarrow> 'a chain_state \<Rightarrow> 'a chain_state" where
  "remove_lock cfg ident who s = update_locks cfg who (filter (\<lambda>l. lock_id l \<noteq> ident) (locks_of s who)) s"

section \<open>The fungible interface\<close>

definition reducible_balance :: "config \<Rightarrow> 'a chain_state \<Rightarrow> 'a \<Rightarrow> bool \<Rightarrow> nat" where
  "reducible_balance cfg s who keep_alive =
     (let a = account_of s who;
          liquid = saturating_sub (free a) (max (fee_frozen a) (misc_frozen a))
      in if can_dec_provider s who \<and> \<not> keep_alive then liquid
         else saturating_sub liquid
           (saturating_sub (existential_deposit cfg) (wrapping_sub (total a) liquid)))"

definition can_deposit :: "config \<Rightarrow> 'a chain_state \<Rightarrow> 'a \<Rightarrow> nat \<Rightarrow> bool \<Rightarrow> deposit_consequence_t" where
  "can_deposit cfg s who amount mint = deposit_consequence cfg s amount (account_of s who) mint"

definition can_withdraw :: "config \<Rightarrow> 'a chain_state \<Rightarrow> 'a \<Rightarrow> nat \<Rightarrow> withdraw_consequence_t" where
  "can_withdraw cfg s who amount = withdraw_consequence cfg s who amount (account_of s who)"

definition mint_into :: "config \<Rightarrow> 'a \<Rightarrow> nat \<Rightarrow> 'a chain_state \<Rightarrow> (dispatch_error + unit) \<times> 'a chain_state" where
  "mint_into cfg who amount s =
     (if amount = 0 then (Inr (), s)
      else case try_mutate_account cfg no_drop who
        (\<lambda>acc _ s.
          (bindR (deposit_into_result (deposit_consequence cfg s amount acc True)) (\<lambda>_.
             Inr ((), acc\<lparr>free := wrapping_add (free acc) amount\<rparr>)), s)) s of
        (Inl e, s1) \<Rightarrow> (Inl e, s1)
      | (Inr _, s1) \<Rightarrow>
          (Inr (), deposit_event (Deposit who amount)
             (s1\<lparr>total_issuance := wrapping_add (total_issuance s1) amount\<rparr>)))"

definition burn_from :: "config \<Rightarrow> 'a \<Rightarrow> nat \<Rightarrow> 'a chain_state \<Rightarrow> (dispatch_error + nat) \<times> 'a chain_state" where
  "burn_from cfg who amount s =
     (if amount = 0 then (Inr 0, s)
      else case try_mutate_account cfg no_drop who
        (\<lambda>acc _ s.
          (bindR (withdraw_into_result (withdraw_consequence cfg s who amount acc)) (\<lambda>extra.
             let actual = wrapping_add amount extra
             in Inr (actual, acc\<lparr>free := wrapping_sub (free acc) actual\<rparr>)), s)) s of
        (Inl e, s1) \<Rightarrow> (Inl e, s1)
      | (Inr actual, s1) \<Rightarrow>
          (Inr actual, deposit_event (Withdraw who amount)
             (s1\<lparr>total_issuance := wrapping_sub (total_issuance s1) actual\<rparr>)))"

definition fungible_transfer ::
  "config \<Rightarrow> 'a \<Rightarrow> 'a \<Rightarrow> nat \<Rightarrow> bool \<Rightarrow> 'a chain_state \<Rightarrow> (dispatch_error + nat) \<times> 'a chain_state" where
  "fungible_transfer cfg source dest amount keep_alive s =
     (case transfer cfg source dest amount (if keep_alive then KeepAlive else AllowDeath) s of
        (Inl e, s1) \<Rightarrow> (Inl e, s1)
      | (Inr _, s1) \<Rightarrow> (Inr amount, s1))"

definition can_hold :: "config \<Rightarrow> 'a chain_state \<Rightarrow> 'a \<Rightarrow> nat \<Rightarrow> bool" where
  "can_hold cfg s who amount =
     (let a = account_of s who;
          min_balance = max (existential_deposit cfg) (frozen a Reasons_All)
      in if checked_add (reserved a) amount = None then False
         else case checked_add min_balance amount of None \<Rightarrow> False | Some required_free \<Rightarrow> required_free \<le> free a)"

definition hold :: "config \<Rightarrow> 'a \<Rightarrow> nat \<Rightarrow> 'a chain_state \<Rightarrow> (dispatch_error + unit) \<times> 'a chain_state" where
  "hold cfg who amount s =
     (if amount = 0 then (Inr (), s)
      else if \<not> can_reserve s who amount then (Inl (Module InsufficientBalance), s)
      else mutate_account cfg no_drop who
        (\<lambda>a. ((), a\<lparr>free := wrapping_sub (free a) amount, reserved := wrapping_add (reserved a) amount\<rparr>)) s)"

definition release ::
  "config \<Rightarrow> 'a \<Rightarrow> nat \<Rightarrow> bool \<Rightarrow> 'a chain_state \<Rightarrow> (dispatch_error + nat) \<times> 'a chain_state" where
  "release cfg who amount best_effort s =
     (if amount = 0 then (Inr amount, s)
      else try_mutate_account cfg no_drop who
        (\<lambda>a _ s.
          let new_free = saturating_add (free a) (min amount (reserved a));
              actual = new_free - free a
          in if \<not> (best_effort \<or> actual = amount) then (Inl (Module InsufficientBalance), s)
             else (Inr (actual, a\<lparr>free := new_free, reserved := saturating_sub (reserved a) actual\<rparr>), s)) s)"

definition transfer_held ::
  "config \<Rightarrow> 'a \<Rightarrow> 'a \<Rightarrow> nat \<Rightarrow> bool \<Rightarrow> bool \<Rightarrow> 'a chain_state \<Rightarrow> (dispatch_error + nat) \<times> 'a chain_state" where
  "transfer_held cfg source dest amount best_effort on_hold s =
     do_transfer_reserved cfg source dest amount best_effort (if on_hold then Status_Reserved else Status_Free) s"

definition unbalanced_set_balance ::
  "config \<Rightarrow> 'a \<Rightarrow> nat \<Rightarrow> 'a chain_state \<Rightarrow> (dispatch_error + unit) \<times> 'a chain_state" where
  "unbalanced_set_balance cfg who amount s =
     try_mutate_account cfg no_drop who
       (\<lambda>acc _ s. (Inr ((), acc\<lparr>free := amount\<rparr>), deposit_event (BalanceSet who amount (reserved acc)) s)) s"

definition set_total_issuance :: "nat \<Rightarrow> 'a chain_state \<Rightarrow> 'a chain_state" where
  "set_total_issuance amount s = s\<lparr>total_issuance := amount\<rparr>"

section \<open>Dispatchable calls\<close>

datatype 'a raw_origin = Root | Signed 'a | Unsigned

fun ensure_signed :: "'a raw_origin \<Rightarrow> dispatch_error + 'a" where
  "ensure_signed (Signed who) = Inr who"
| "ensure_signed _ = Inl BadOrigin"

fun ensure_root :: "'a raw_origin \<Rightarrow> dispatch_error + unit" where
  "ensure_root Root = Inr ()"
| "ensure_root _ = Inl BadOrigin"

text \<open>Every call runs in a storage layer, which is rolled back on an error.\<close>

definition with_storage_layer :: "('s \<Rightarrow> ('e + 'r) \<times> 's) \<Rightarrow> 's \<Rightarrow> ('e + 'r) \<times> 's" where
  "with_storage_layer f s = (case f s of (Inl e, _) \<Rightarrow> (Inl e, s) | (Inr r, s1) \<Rightarrow> (Inr r, s1))"

text \<open>The adjustment of the issuance that \<open>set_balance\<close> makes for each part of the balance.\<close>

definition adjust_issuance :: "nat \<Rightarrow> nat \<Rightarrow> 'a chain_state \<Rightarrow> 'a chain_state" where
  "adjust_issuance old new s =
     (if old < new then drop_positive (PositiveImbalance (new - old)) s
      else if new < old then drop_negative (NegativeImbalance (old - new)) s
      else s)"

definition set_balance ::
  "config \<Rightarrow> 'a \<Rightarrow> nat \<Rightarrow> nat \<Rightarrow> 'a chain_state \<Rightarrow> (dispatch_error + unit) \<times> 'a chain_state" where
  "set_balance cfg who new_free0 new_reserved0 s =
     (let wipeout = (wrapping_add new_free0 new_reserved0 < existential_deposit cfg);
          new_free = (if wipeout then 0 else new_free0);
          new_reserved = (if wipeout then 0 else new_reserved0)
      in case mutate_account cfg no_drop who
        (\<lambda>acc. ((free acc, reserved acc), acc\<lparr>free := new_free, reserved := new_reserved\<rparr>)) s of
        (Inl e, s1) \<Rightarrow> (Inl e, s1)
      | (Inr (old_free, old_reserved), s1) \<Rightarrow>
          (Inr (), deposit_event (BalanceSet who new_free new_reserved)
             (adjust_issuance old_reserved new_reserved (adjust_issuance old_free new_free s1))))"

text \<open>The calls, with \<open>lookup\<close> the resolution of addresses to accounts that the runtime is
  configured with.\<close>

datatype 'b balances_call =
    Call_transfer 'b nat
  | Call_set_balance 'b nat nat
  | Call_force_transfer 'b 'b nat
  | Call_transfer_keep_alive 'b nat
  | Call_transfer_all 'b bool
  | Call_force_unreserve 'b nat

fun call_body ::
  "config \<Rightarrow> ('b \<Rightarrow> 'a option) \<Rightarrow> 'a raw_origin \<Rightarrow> 'b balances_call \<Rightarrow> 'a chain_state \<Rightarrow>
   (dispatch_error + unit) \<times> 'a chain_state" where
  "call_body cfg lookup origin (Call_transfer dest v) s =
     (case bindR (ensure_signed origin) (\<lambda>t. map_sum id (Pair t) (ok_or (lookup dest) CannotLookup)) of
        Inl e \<Rightarrow> (Inl e, s)
      | Inr (transactor, d) \<Rightarrow> transfer cfg transactor d v AllowDeath s)"
| "call_body cfg lookup origin (Call_set_balance who new_free new_reserved) s =
     (case bindR (ensure_root origin) (\<lambda>_. ok_or (lookup who) CannotLookup) of
        Inl e \<Rightarrow> (Inl e, s)
      | Inr w \<Rightarrow> set_balance cfg w new_free new_reserved s)"
| "call_body cfg lookup origin (Call_force_transfer source dest v) s =
     (case bindR (ensure_root origin) (\<lambda>_. bindR (ok_or (lookup source) CannotLookup) (\<lambda>a.
        map_sum id (Pair a) (ok_or (lookup dest) CannotLookup))) of
        Inl e \<Rightarrow> (Inl e, s)
      | Inr (a, d) \<Rightarrow> transfer cfg a d v AllowDeath s)"
| "call_body cfg lookup origin (Call_transfer_keep_alive dest v) s =
     (case bindR (ensure_signed origin) (\<lambda>t. map_sum id (Pair t) (ok_or (lookup dest) CannotLookup)) of
        Inl e \<Rightarrow> (Inl e, s)
      | Inr (transactor, d) \<Rightarrow> transfer cfg transactor d v KeepAlive s)"
| "call_body cfg lookup origin (Call_transfer_all dest keep_alive) s =
     (case bindR (ensure_signed origin) (\<lambda>t. map_sum id (Pair t) (ok_or (lookup dest) CannotLookup)) of
        Inl e \<Rightarrow> (Inl e, s)
      | Inr (transactor, d) \<Rightarrow>
          transfer cfg transactor d (reducible_balance cfg s transactor keep_alive)
            (if keep_alive then KeepAlive else AllowDeath) s)"
| "call_body cfg lookup origin (Call_force_unreserve who amount) s =
     (case bindR (ensure_root origin) (\<lambda>_. ok_or (lookup who) CannotLookup) of
        Inl e \<Rightarrow> (Inl e, s)
      | Inr w \<Rightarrow> (Inr (), snd (unreserve cfg w amount s)))"

definition dispatch ::
  "config \<Rightarrow> ('b \<Rightarrow> 'a option) \<Rightarrow> 'a raw_origin \<Rightarrow> 'b balances_call \<Rightarrow> 'a chain_state \<Rightarrow>
   (dispatch_error + unit) \<times> 'a chain_state" where
  "dispatch cfg lookup origin call s = with_storage_layer (call_body cfg lookup origin call) s"

section \<open>Genesis\<close>

definition empty_state :: "'a chain_state" where
  "empty_state = \<lparr>account = Map.empty, total_issuance = 0, locks = Map.empty, reserves = Map.empty, events = []\<rparr>"

text \<open>\<open>AccountStore::insert\<close>. No events are deposited in the genesis block: those of the model are
  removed at the end.\<close>

definition insert_account :: "'a \<Rightarrow> account_data \<Rightarrow> 'a chain_state \<Rightarrow> (dispatch_error + unit) \<times> 'a chain_state" where
  "insert_account who d s = try_mutate_exists no_drop who (\<lambda>_ s. (Inr ((), Some d), s)) s"

fun insert_accounts :: "('a \<times> nat) list \<Rightarrow> 'a chain_state \<Rightarrow> 'a chain_state option" where
  "insert_accounts [] s = Some s"
| "insert_accounts ((who, amount) # rest) s =
     (case insert_account who (default_data\<lparr>free := amount\<rparr>) s of
        (Inl _, _) \<Rightarrow> None
      | (Inr _, s1) \<Rightarrow> insert_accounts rest s1)"

definition genesis_build :: "config \<Rightarrow> ('a \<times> nat) list \<Rightarrow> 'a chain_state option" where
  "genesis_build cfg balances =
     (let s = empty_state\<lparr>total_issuance := foldl (\<lambda>acc (_, n). wrapping_add acc n) 0 balances\<rparr>
      in if list_all (\<lambda>(_, b). existential_deposit cfg \<le> b) balances \<and> distinct (map fst balances)
         then map_option (\<lambda>s1. s1\<lparr>events := []\<rparr>) (insert_accounts balances s) else None)"

end
