(* ===== verification/Balances_Issuance.thy ===== *)
theory Balances_Issuance
  imports Balances
begin

text \<open>
  Accounting of the balances pallet: the total issuance is the sum of the balances, as long
  as imbalances are settled, for every operation of the pallet. The pallet relies on the
  account store through the locale \<open>account_store\<close>, which the system pallet implements.
\<close>

section \<open>The account store as the pallet sees it\<close>

text \<open>The pallet reads and writes one item per account; writing none may be refused. The
  amounts of the items add up over the accounts.\<close>

locale account_store =
  fixes view :: "'s \<Rightarrow> 'a \<Rightarrow> 'd"
    and store :: "'a \<Rightarrow> bool \<Rightarrow> 'd option \<Rightarrow> 's \<Rightarrow> ('e + unit) \<times> 's"
    and dflt :: 'd
    and amount :: "'d \<Rightarrow> nat"
  assumes amount_default: "amount dflt = 0"
    and store_view: "store a (view s a \<noteq> dflt) x s = (Inr u, s') \<Longrightarrow>
      view s' = (view s)(a := (case x of None \<Rightarrow> dflt | Some d \<Rightarrow> d))"
    and store_refused: "store a (view s a \<noteq> dflt) x s = (Inl e, s') \<Longrightarrow> s' = s \<and> x = None \<and> view s a \<noteq> dflt"
begin

definition holders :: "'s \<Rightarrow> 'a set" where
  "holders s = {a. view s a \<noteq> dflt}"

definition held_sum :: "'s \<Rightarrow> nat" where
  "held_sum s = (\<Sum>a\<in>holders s. amount (view s a))"

lemma held_sum_over: "finite A \<Longrightarrow> holders s \<subseteq> A \<Longrightarrow> held_sum s = (\<Sum>a\<in>A. amount (view s a))"
  unfolding held_sum_def holders_def
  by (rule sum.mono_neutral_left) (auto simp: amount_default)

lemma amount_le_held: "finite (holders s) \<Longrightarrow> amount (view s a) \<le> held_sum s"
  using member_le_sum [of a "holders s" "\<lambda>a. amount (view s a)"]
  by (cases "a \<in> holders s") (auto simp: held_sum_def holders_def amount_default)

lemma two_le_held:
  assumes "finite (holders s)" "a \<noteq> b"
  shows "amount (view s a) + amount (view s b) \<le> held_sum s"
proof -
  have "(\<Sum>c\<in>{a, b}. amount (view s c)) \<le> (\<Sum>c\<in>{a, b} \<union> holders s. amount (view s c))"
    using assms(1) by (intro sum_mono2) auto
  moreover have "held_sum s = (\<Sum>c\<in>{a, b} \<union> holders s. amount (view s c))"
    by (rule held_sum_over) (use assms(1) in auto)
  ultimately show ?thesis using assms(2) by simp
qed

lemma view_update:
  assumes "finite (holders s)" "view s' = (view s)(a := d)"
  shows "finite (holders s')" "held_sum s' + amount (view s a) = held_sum s + amount d"
proof -
  have sub: "holders s' \<subseteq> insert a (holders s)" "holders s \<subseteq> insert a (holders s)"
    using assms(2) by (auto simp: holders_def split: if_splits)
  then show "finite (holders s')" using assms(1) finite_subset by blast
  have "(\<Sum>b\<in>holders s - {a}. amount (view s' b)) = (\<Sum>b\<in>holders s - {a}. amount (view s b))"
    by (rule sum.cong) (auto simp: assms(2))
  then show "held_sum s' + amount (view s a) = held_sum s + amount d"
    using assms(1) sub by (simp add: held_sum_over [of "insert a (holders s)"] sum.insert_remove assms(2))
qed

lemma store_held:
  assumes "finite (holders s)" "store a (view s a \<noteq> dflt) x s = (Inr u, s')"
  shows "finite (holders s')"
    "held_sum s' + amount (view s a) = held_sum s + (case x of None \<Rightarrow> 0 | Some d \<Rightarrow> amount d)"
  using view_update [OF assms(1) store_view [OF assms(2)]] amount_default
  by (auto split: option.splits)

end

text \<open>The system pallet provides such a store.\<close>

definition datas :: "'a chain_state \<Rightarrow> 'a \<Rightarrow> account_data" where
  "datas s a = acc_data (get_account s a)"

definition amt :: "account_data \<Rightarrow> nat" where
  "amt d = free d + reserved d"

lemma datas_simps [simp]:
  "datas (put_account a i s) = (datas s)(a := acc_data i)"
  "datas (remove_account a s) = (datas s)(a := default_data)"
  "datas (s\<lparr>account := (account s)(a \<mapsto> i)\<rparr>) = (datas s)(a := acc_data i)"
  "datas (deposit_event e s) = datas s"
  "datas (s\<lparr>total_issuance := t\<rparr>) = datas s"
  "datas (s\<lparr>locks := l\<rparr>) = datas s"
  "datas (s\<lparr>reserves := r\<rparr>) = datas s"
  "datas (s\<lparr>events := es\<rparr>) = datas s"
  by (auto simp: datas_def get_account_def put_account_def remove_account_def default_info_def deposit_event_def fun_eq_iff)

lemma datas_refs [simp]:
  "datas (snd (inc_providers a s)) = datas s"
  by (auto simp: inc_providers_def Let_def on_created_account_def) (auto simp: datas_def)

lemma write_back_cases:
  assumes "write_back a (datas s a \<noteq> default_data) x s = (r, s')"
  shows "r = Inr () \<Longrightarrow> datas s' = (datas s)(a := (case x of None \<Rightarrow> default_data | Some d \<Rightarrow> d))"
    "r = Inl e \<Longrightarrow> s' = s \<and> x = None \<and> datas s a \<noteq> default_data \<and> \<not> can_dec_provider s a \<and> e = ConsumerRemaining"
    "total_issuance s' = total_issuance s" "locks s' = locks s" "reserves s' = reserves s"
proof -
  note defs = write_back_def set_data_def dec_providers_def inc_providers_def Let_def on_created_account_def on_killed_account_def
  have d: "acc_data (get_account s a) = datas s a" by (simp add: datas_def)
  show "total_issuance s' = total_issuance s" "locks s' = locks s" "reserves s' = reserves s"
    using assms by (auto simp: defs put_account_def remove_account_def deposit_event_def split: if_splits option.splits)
  show "r = Inl e \<Longrightarrow> s' = s \<and> x = None \<and> datas s a \<noteq> default_data \<and> \<not> can_dec_provider s a \<and> e = ConsumerRemaining"
    using assms by (auto simp: defs can_dec_provider_def get_account_def split: if_splits option.splits)
  show "datas s' = (datas s)(a := (case x of None \<Rightarrow> default_data | Some d \<Rightarrow> d))" if "r = Inr ()"
  proof (cases x)
    case (Some d)
    then show ?thesis using assms that by (auto simp: write_back_def set_data_def split: if_splits)
  next
    case None
    show ?thesis
    proof (cases "datas s a = default_data")
      case True
      then show ?thesis using assms None by (simp add: write_back_def fun_upd_idem)
    next
      case False
      then obtain i where i: "account s a = Some i"
        by (cases "account s a") (auto simp: datas_def get_account_def default_info_def)
      show ?thesis using assms that None False
        by (auto simp: write_back_def dec_providers_def i Let_def set_data_def on_killed_account_def get_account_def put_account_def
            split: if_splits)
    qed
  qed
qed

interpretation acc: account_store datas write_back default_data amt
proof unfold_locales
  show "amt default_data = 0" by (simp add: amt_def default_data_def)
  fix a and s s' :: "'a chain_state" and x u e
  show "datas s' = (datas s)(a := (case x of None \<Rightarrow> default_data | Some d \<Rightarrow> d))"
    if "write_back a (datas s a \<noteq> default_data) x s = (Inr u, s')"
    using write_back_cases(1) [OF that] by simp
  show "s' = s \<and> x = None \<and> datas s a \<noteq> default_data"
    if "write_back a (datas s a \<noteq> default_data) x s = (Inl e, s')"
    using write_back_cases(2) [OF that refl] by simp
qed

section \<open>Mutating one account\<close>

lemma stored_data_datas: "stored_data s a = (if datas s a = default_data then None else Some (datas s a))"
  by (simp add: stored_data_def datas_def Let_def is_providing_def)

lemma total_amt: "amt d \<le> max_balance \<Longrightarrow> total d = amt d"
  by (simp add: total_def amt_def saturating_add_def)

text \<open>The data that remain after a mutation: none if they are below the existential deposit.\<close>

definition kept :: "config \<Rightarrow> account_data \<Rightarrow> account_data" where
  "kept cfg d = (if amt d < existential_deposit cfg then default_data else d)"

definition dust :: "config \<Rightarrow> account_data \<Rightarrow> nat" where
  "dust cfg d = (if amt d < existential_deposit cfg then amt d else 0)"

lemma kept_dust: "amt (kept cfg d) + dust cfg d = amt d"
  by (simp add: kept_def dust_def amt_def default_data_def)

lemma post_mutation_kept:
  assumes "amt d \<le> max_balance"
  shows "(case fst (post_mutation cfg d) of None \<Rightarrow> default_data | Some x \<Rightarrow> x) = kept cfg d"
    "fst (post_mutation cfg d) = None \<longleftrightarrow> amt d < existential_deposit cfg"
    "snd (post_mutation cfg d) = (if dust cfg d = 0 then None else Some (NegativeImbalance (dust cfg d)))"
  using assms by (auto simp: post_mutation_def kept_def dust_def total_amt)

definition cleaner :: "config \<Rightarrow> 'a \<Rightarrow> account_data \<Rightarrow> 'a dust_cleaner" where
  "cleaner cfg who d = (if dust cfg d = 0 then None else Some (who, NegativeImbalance (dust cfg d)))"

text \<open>The parts of the state that accounting does not look at.\<close>

definition frame_eq :: "'a chain_state \<Rightarrow> 'a chain_state \<Rightarrow> bool" where
  "frame_eq s s' \<longleftrightarrow> locks s' = locks s \<and> reserves s' = reserves s"

lemma frame_eq_simps [simp]:
  "frame_eq s s" "frame_eq s (deposit_event e t) = frame_eq s t"
  "frame_eq s (t\<lparr>total_issuance := i\<rparr>) = frame_eq s t" "frame_eq s (t\<lparr>events := es\<rparr>) = frame_eq s t"
  by (simp_all add: frame_eq_def deposit_event_def)

lemma frame_eq_trans: "frame_eq s t \<Longrightarrow> frame_eq t u \<Longrightarrow> frame_eq s u"
  by (simp add: frame_eq_def)

lemma drop_dust_cleaner_simps [simp]:
  "datas (drop_dust_cleaner c s) = datas s"
  "frame_eq t (drop_dust_cleaner c s) = frame_eq t s"
  "total_issuance (drop_dust_cleaner (cleaner cfg who d) s) = total_issuance s - dust cfg d"
  "total_issuance (deposit_event e s) = total_issuance s"
  by (cases c; cases "snd (the c)"; auto simp: deposit_event_def cleaner_def saturating_sub_def frame_eq_def)+

lemma drop_imbalance_simps [simp]:
  "datas (drop_negative n s) = datas s" "datas (drop_positive p s) = datas s"
  "frame_eq t (drop_negative n s) = frame_eq t s" "frame_eq t (drop_positive p s) = frame_eq t s"
  "total_issuance (drop_negative n s) = total_issuance s - neg_amount n"
  "total_issuance (drop_positive p s) = min (total_issuance s + pos_amount p) max_balance"
  by (cases n; auto simp: saturating_sub_def; fail | cases p; auto simp: saturating_add_def)+

lemma with_dust_Inl:
  "f (datas s who) (datas s who = default_data) s = (Inl e, s1) \<Longrightarrow>
     try_mutate_account_with_dust cfg drp who f s = (Inl e, s1)"
  by (auto simp: try_mutate_account_with_dust_def try_mutate_exists_def stored_data_datas Let_def split: if_splits)

lemma with_dust_Inr:
  assumes "f (datas s who) (datas s who = default_data) s = (Inr (r', d), s1)"
    "datas s1 who = datas s who" "amt d \<le> max_balance"
    "try_mutate_account_with_dust cfg drp who f s = (Inr (r, c), s2)"
  shows "r' = r" "c = cleaner cfg who d" "datas s2 = (datas s1)(who := kept cfg d)"
    "total_issuance s2 = total_issuance s1" "frame_eq s1 s2"
proof -
  let ?w = "write_back who (datas s1 who \<noteq> default_data) (fst (post_mutation cfg d)) s1"
  obtain s2' u where w: "?w = (Inr u, s2')"
    using assms by (cases ?w; cases "fst ?w")
      (auto simp: try_mutate_account_with_dust_def try_mutate_exists_def stored_data_datas Let_def split: if_splits)
  have s2: "s2 = (if datas s who = default_data then deposit_event (Endowed who (free d)) s2' else s2')"
    and rc: "r' = r \<and> c = map_option (\<lambda>x. (who, x)) (snd (post_mutation cfg d))"
    using assms w by (auto simp: try_mutate_account_with_dust_def try_mutate_exists_def stored_data_datas Let_def split: if_splits)
  show "r' = r" "c = cleaner cfg who d" using rc by (auto simp: post_mutation_kept [OF assms(3)] cleaner_def)
  note wb = write_back_cases [OF w]
  show "datas s2 = (datas s1)(who := kept cfg d)" "total_issuance s2 = total_issuance s1" "frame_eq s1 s2"
    using wb(1,3,4,5) by (simp_all add: s2 post_mutation_kept(1) [OF assms(3)] frame_eq_def deposit_event_def)
qed

lemma mutate_Inl:
  "f (datas s who) (datas s who = default_data) s = (Inl e, s1) \<Longrightarrow>
     try_mutate_account cfg drp who f s = (Inl e, s1)"
  by (simp add: try_mutate_account_def with_dust_Inl)

lemma mutate_Inr:
  assumes "f (datas s who) (datas s who = default_data) s = (Inr (r', d), s1)"
    "datas s1 = datas s" "amt d \<le> max_balance" "try_mutate_account cfg drp who f s = (Inr r, s2)"
  shows "r' = r" "datas s2 = (datas s)(who := kept cfg d)"
    "total_issuance s2 = total_issuance s1 - dust cfg d" "frame_eq s1 s2"
proof -
  obtain c s3 where w: "try_mutate_account_with_dust cfg drp who f s = (Inr (r, c), s3)" "s2 = drop_dust_cleaner c s3"
    using assms(4) by (auto simp: try_mutate_account_def split: prod.splits sum.splits)
  have "datas s1 who = datas s who" by (simp add: assms(2))
  note wd = with_dust_Inr [OF assms(1) this assms(3) w(1)]
  show "r' = r" "datas s2 = (datas s)(who := kept cfg d)"
    "total_issuance s2 = total_issuance s1 - dust cfg d" "frame_eq s1 s2"
    using wd assms(2) by (simp_all add: w(2))
qed

declare drop_negative.simps [simp del] drop_positive.simps [simp del]

section \<open>Sound books\<close>

text \<open>What all accounts hold, free or reserved.\<close>

definition held :: "'a chain_state \<Rightarrow> nat" where
  "held s = (\<Sum>a\<in>{a. datas s a \<noteq> default_data}. free (datas s a) + reserved (datas s a))"

definition sound :: "config \<Rightarrow> 'a chain_state \<Rightarrow> bool" where
  "sound cfg s \<longleftrightarrow> finite {a. datas s a \<noteq> default_data} \<and>
     (\<forall>a. datas s a \<noteq> default_data \<longrightarrow> existential_deposit cfg \<le> free (datas s a) + reserved (datas s a)) \<and>
     held s = total_issuance s \<and> total_issuance s \<le> max_balance"

lemma held_eq: "held s = acc.held_sum s"
  by (simp add: held_def acc.held_sum_def acc.holders_def amt_def)

lemma soundD:
  assumes "sound cfg s"
  shows "finite (acc.holders s)" "acc.held_sum s = total_issuance s" "total_issuance s \<le> max_balance"
    "datas s a = default_data \<or> existential_deposit cfg \<le> amt (datas s a)" "amt (datas s a) \<le> total_issuance s"
proof -
  show f: "finite (acc.holders s)" and h: "acc.held_sum s = total_issuance s" "total_issuance s \<le> max_balance"
    "datas s a = default_data \<or> existential_deposit cfg \<le> amt (datas s a)"
    using assms by (auto simp: sound_def acc.holders_def held_eq amt_def)
  show "amt (datas s a) \<le> total_issuance s" using acc.amount_le_held [OF f] h(1) by metis
qed

lemma soundI:
  "finite (acc.holders s) \<Longrightarrow> acc.held_sum s = total_issuance s \<Longrightarrow> total_issuance s \<le> max_balance \<Longrightarrow>
     (\<And>a. datas s a = default_data \<or> existential_deposit cfg \<le> amt (datas s a)) \<Longrightarrow> sound cfg s"
  by (auto simp: sound_def held_eq acc.holders_def amt_def)

lemma sound_same: "sound cfg s \<Longrightarrow> datas s' = datas s \<Longrightarrow> total_issuance s' = total_issuance s \<Longrightarrow> sound cfg s'"
  by (simp add: sound_def held_def)

lemma kept_ed: "kept cfg d = default_data \<or> existential_deposit cfg \<le> amt (kept cfg d)"
  by (simp add: kept_def)

lemma sound_update:
  assumes "sound cfg s" "datas s' = (datas s)(a := kept cfg d)"
    "total_issuance s' + amt (datas s a) = total_issuance s + amt (kept cfg d)" "total_issuance s' \<le> max_balance"
  shows "sound cfg s'"
proof (rule soundI)
  note up = acc.view_update [OF soundD(1) [OF assms(1)] assms(2)]
  show "finite (acc.holders s')" by (rule up)
  show "acc.held_sum s' = total_issuance s'" using up(2) assms(3) soundD(2) [OF assms(1)] by simp
  show "datas s' b = default_data \<or> existential_deposit cfg \<le> amt (datas s' b)" for b
    using soundD(4) [OF assms(1), of b] kept_ed [of cfg d] assms(2) by auto
qed (rule assms(4))

text \<open>One account changes from its data to \<open>d\<close>, less dust; \<open>s'\<close> is the state once the
  returned imbalance is settled.\<close>

lemma sound_mutate:
  assumes "sound cfg s" "datas s' = (datas s)(a := kept cfg d)"
    "total_issuance s2 = total_issuance s - dust cfg d" "dust cfg d \<le> total_issuance s"
    "total_issuance s' + amt (datas s a) = total_issuance s2 + amt d" "total_issuance s' \<le> max_balance"
  shows "sound cfg s'"
  by (rule sound_update [OF assms(1,2) _ assms(6)]) (use assms(3,4,5) kept_dust [of cfg d] in linarith)

lemma dust_le: "amt d \<le> amt (datas s a) \<Longrightarrow> sound cfg s \<Longrightarrow> dust cfg d \<le> total_issuance s"
  using soundD(5) [of cfg s a] by (auto simp: dust_def)

lemma sound_amt: "sound cfg s \<Longrightarrow> amt (datas s a) \<le> max_balance"
  using soundD(3) [of cfg s] soundD(5) [of cfg s a] by linarith

text \<open>An operation on one account keeps the books sound if its closure changes the balance
  by the imbalance it returns: \<open>p\<close> is the amount by which settling it raises the issuance
  and \<open>n\<close> the amount by which it lowers it.\<close>

lemma mutate_sound:
  assumes s: "sound cfg s" and m: "try_mutate_account cfg drp who f s = (Inr r, s2)"
    and f: "\<And>r' d s1. f (datas s who) (datas s who = default_data) s = (Inr (r', d), s1) \<Longrightarrow>
      datas s1 = datas s \<and> total_issuance s1 = total_issuance s \<and> amt d + n r' = amt (datas s who) + p r' \<and>
      (p r' = 0 \<or> existential_deposit cfg \<le> amt d) \<and> total_issuance s + p r' \<le> max_balance"
    and s': "datas s' = datas s2" "total_issuance s2 \<le> total_issuance s \<Longrightarrow>
      total_issuance s + p r \<le> max_balance \<Longrightarrow> n r \<le> total_issuance s2 + p r \<Longrightarrow>
      total_issuance s' = total_issuance s2 + p r - n r"
  shows "sound cfg s'"
proof -
  obtain r' d s1 where ok: "f (datas s who) (datas s who = default_data) s = (Inr (r', d), s1)"
    using m mutate_Inl [of f s who] by (cases "f (datas s who) (datas s who = default_data) s"; cases "fst (f (datas s who) (datas s who = default_data) s)") auto
  note f = f [OF ok]
  have le: "amt (datas s who) \<le> total_issuance s" by (rule soundD(5) [OF s])
  then have "amt d \<le> max_balance" using f by linarith
  note mu = mutate_Inr [OF ok _ this m]
  have d: "dust cfg d + n r \<le> total_issuance s + p r" "dust cfg d \<le> total_issuance s"
    using f le mu(1) by (auto simp: dust_def)
  show ?thesis
    by (rule sound_mutate [OF s, of s' who d s2]) (use s' mu f d in auto)
qed

lemma wrapping_add_small: "a + b \<le> max_balance \<Longrightarrow> wrapping_add a b = a + b"
  by (simp add: wrapping_add_def max_balance_def)

lemma wrapping_sub_small: "b \<le> a \<Longrightarrow> a \<le> max_balance \<Longrightarrow> wrapping_sub a b = a - b"
proof -
  assume "b \<le> a" "a \<le> max_balance"
  then have "a + (2 ^ 128 - b) = (a - b) + 2 ^ 128" "a - b < 2 ^ 128" by (simp_all add: max_balance_def)
  then show ?thesis by (simp add: wrapping_sub_def)
qed

lemmas checked_simps = checked_add_def checked_sub_def saturating_sub_def ok_or_def

lemma account_of_datas: "account_of s a = datas s a"
  by (simp add: account_of_def datas_def)

lemma sound_zero [simp]:
  "drop_negative (NegativeImbalance 0) s = s"
  "sound cfg s \<Longrightarrow> sound cfg (drop_positive (PositiveImbalance 0) s)"
  using soundD(3) [of cfg s] by (auto simp: drop_negative.simps saturating_sub_def intro: sound_same)

lemma withdraw_sound:
  assumes "sound cfg s" "withdraw cfg who v rs er s = (Inr n, s')"
  shows "sound cfg (drop_negative n s')"
proof (cases "v = 0")
  case False
  note m = assms(2) [unfolded withdraw_def if_not_P [OF False]]
  show ?thesis
    by (rule mutate_sound [OF assms(1) m, where n = neg_amount and p = "\<lambda>_. 0"])
      (use soundD(3) [OF assms(1)] in \<open>auto simp: checked_sub_def amt_def Let_def split: if_splits sum.splits\<close>)
qed (use assms in \<open>auto simp: withdraw_def\<close>)

lemma deposit_into_existing_sound:
  assumes "sound cfg s" "deposit_into_existing cfg who v s = (Inr p, s')" "total_issuance s + v \<le> max_balance"
  shows "sound cfg (drop_positive p s')"
proof (cases "v = 0")
  case False
  note m = assms(2) [unfolded deposit_into_existing_def if_not_P [OF False]]
  show ?thesis
    by (rule mutate_sound [OF assms(1) m, where n = "\<lambda>_. 0" and p = pos_amount])
      (use soundD(4) [OF assms(1), of who] assms(3) in \<open>auto simp: checked_add_def amt_def split: if_splits\<close>)
qed (use assms in \<open>auto simp: deposit_into_existing_def\<close>)

text \<open>A mutation fails because its closure does, or because the last provider of an account
  with consumers would go.\<close>

lemma with_dust_InlE:
  assumes "try_mutate_account_with_dust cfg drp who f s = (Inl e, s2)"
    "\<And>r d s1. f (datas s who) (datas s who = default_data) s = (Inr (r, d), s1) \<Longrightarrow>
       datas s1 who = datas s who \<and> amt d \<le> max_balance \<and>
       (existential_deposit cfg \<le> amt d \<or> datas s who = default_data \<or> can_dec_provider s1 who)"
  shows "f (datas s who) (datas s who = default_data) s = (Inl e, s2)"
proof (rule ccontr)
  assume no: "f (datas s who) (datas s who = default_data) s \<noteq> (Inl e, s2)"
  obtain x s1 where x: "f (datas s who) (datas s who = default_data) s = (x, s1)" by fastforce
  then obtain r d where ok: "f (datas s who) (datas s who = default_data) s = (Inr (r, d), s1)"
    using assms(1) no with_dust_Inl [of f s who] by (cases x) auto
  note a = assms(2) [OF ok]
  let ?w = "write_back who (datas s1 who \<noteq> default_data) (fst (post_mutation cfg d)) s1"
  obtain s2' e' where w: "?w = (Inl e', s2')"
    using assms(1) ok a by (cases ?w; cases "fst ?w")
      (auto simp: try_mutate_account_with_dust_def try_mutate_exists_def stored_data_datas Let_def split: if_splits)
  then show False using write_back_cases(2) [OF w refl] a post_mutation_kept(2) [of d cfg] by auto
qed

lemma mutate_InlE:
  assumes "try_mutate_account cfg drp who f s = (Inl e, s2)"
    "\<And>r d s1. f (datas s who) (datas s who = default_data) s = (Inr (r, d), s1) \<Longrightarrow>
       datas s1 who = datas s who \<and> amt d \<le> max_balance \<and>
       (existential_deposit cfg \<le> amt d \<or> datas s who = default_data \<or> can_dec_provider s1 who)"
  shows "f (datas s who) (datas s who = default_data) s = (Inl e, s2)"
  by (rule with_dust_InlE [OF _ assms(2)])
    (use assms(1) in \<open>auto simp: try_mutate_account_def split: prod.splits sum.splits\<close>)

lemma can_dec_provider_event [simp]: "can_dec_provider (deposit_event e s) a = can_dec_provider s a"
  by (simp add: can_dec_provider_def get_account_def deposit_event_def)

lemma deposit_creating_sound:
  assumes "sound cfg s" "total_issuance s + v \<le> max_balance"
  shows "sound cfg (case deposit_creating cfg who v s of (p, s') \<Rightarrow> drop_positive p s')"
proof (cases "v = 0")
  case False
  let ?f = "\<lambda>acc is_new s.
          if v < existential_deposit cfg \<and> is_new then (Inl (Module ExistentialDeposit), s)
          else case checked_add (free acc) v of
            None \<Rightarrow> (Inr (PositiveImbalance 0, acc), s)
          | Some x \<Rightarrow> (Inr (PositiveImbalance v, acc\<lparr>free := x\<rparr>), deposit_event (Deposit who v) s)"
  have le: "amt (datas s who) + v \<le> max_balance" using soundD(5) [OF assms(1), of who] assms(2) by simp
  note ed = soundD(4) [OF assms(1), of who]
  obtain x s' where m: "try_mutate_account cfg drop_positive who ?f s = (x, s')" by fastforce
  show ?thesis
  proof (cases x)
    case (Inl e)
    have "?f (datas s who) (datas s who = default_data) s = (Inl e, s')"
      by (rule mutate_InlE [OF m [unfolded Inl]]) (use ed le in \<open>auto simp: checked_add_def amt_def split: if_splits\<close>)
    then have "s' = s" by (auto split: if_splits option.splits)
    then show ?thesis using assms m Inl False by (simp add: deposit_creating_def)
  next
    case (Inr p)
    have "sound cfg (drop_positive p s')"
      by (rule mutate_sound [OF assms(1) m [unfolded Inr], where n = "\<lambda>_. 0" and p = pos_amount])
        (use ed le assms(2) in \<open>auto simp: checked_add_def amt_def default_data_def split: if_splits\<close>)
    then show ?thesis using m Inr False by (simp add: deposit_creating_def)
  qed
qed (use assms in \<open>simp add: deposit_creating_def\<close>)

lemma reserve_sound:
  assumes "sound cfg s" "reserve cfg who v s = (Inr u, s')"
  shows "sound cfg s'"
proof (cases "v = 0")
  case False
  obtain s1 where m: "try_mutate_account cfg no_drop who (\<lambda>acc _ s.
      (bindR (ok_or (checked_sub (free acc) v) (Module InsufficientBalance)) (\<lambda>new_free.
       bindR (ok_or (checked_add (reserved acc) v) (Arithmetic Overflow)) (\<lambda>new_reserved.
       bindR (ensure_can_withdraw s who v RESERVE new_free) (\<lambda>_.
         Inr ((), acc\<lparr>free := new_free, reserved := new_reserved\<rparr>)))), s)) s = (Inr (), s1)"
    "s' = deposit_event (Reserved_Event who v) s1"
    using assms(2) False by (auto simp: reserve_def split: prod.splits sum.splits)
  show ?thesis
    by (rule mutate_sound [OF assms(1) m(1), where n = "\<lambda>_. 0" and p = "\<lambda>_. 0"])
      (use soundD(3) [OF assms(1)] m(2) in \<open>auto simp: checked_add_def checked_sub_def amt_def split: if_splits\<close>)
qed (use assms in \<open>auto simp: reserve_def\<close>)

lemma unreserve_sound:
  assumes "sound cfg s"
  shows "sound cfg (snd (unreserve cfg who v s))"
proof (cases "v = 0 \<or> total_balance s who = 0")
  case False
  let ?f = "\<lambda>acc. let actual = min (reserved acc) v in
      (actual, acc\<lparr>reserved := reserved acc - actual, free := saturating_add (free acc) actual\<rparr>)"
  obtain x s' where m: "try_mutate_account cfg no_drop who (\<lambda>acc _ s. (Inr (?f acc), s)) s = (x, s')" by fastforce
  note le = sound_amt [OF assms, of who] and ed = soundD(4) [OF assms, of who]
  have amt: "amt (snd (?f (datas s who))) = amt (datas s who)"
    using le by (simp add: Let_def amt_def saturating_add_def)
  show ?thesis
  proof (cases x)
    case (Inl e)
    have "(Inr (?f (datas s who)) :: dispatch_error + nat \<times> account_data, s) = (Inl e, s')"
      by (rule mutate_InlE [OF m [unfolded Inl]]) (use le ed amt in \<open>auto simp: Let_def\<close>)
    then show ?thesis by simp
  next
    case (Inr actual)
    have "sound cfg (deposit_event (Unreserved who actual) s')"
      by (rule mutate_sound [OF assms m [unfolded Inr], where n = "\<lambda>_. 0" and p = "\<lambda>_. 0"])
        (use amt soundD(3) [OF assms] in \<open>auto simp: Let_def\<close>)
    then show ?thesis using m Inr False by (simp add: unreserve_def mutate_account_def)
  qed
qed (use assms in \<open>auto simp: unreserve_def\<close>)

text \<open>A slash that does not have to spare a provider succeeds in the first attempt.\<close>

lemma slash_attempts_sound:
  assumes "sound cfg s" "can_dec_provider s who"
    and f: "amt (snd (f True (datas s who))) + neg_amount (fst (fst (f True (datas s who)))) = amt (datas s who)"
  shows "sound cfg (case slash_attempts cfg who v f (True # rest) s of ((n, _), s') \<Rightarrow> drop_negative n s')"
proof -
  obtain x s' where m: "try_mutate_account cfg drop_slash who (\<lambda>acc _ s. (Inr (f True acc), s)) s = (x, s')" by fastforce
  show ?thesis
  proof (cases x)
    case (Inl e)
    have "(Inr (f True (datas s who)) :: dispatch_error + (negative_imbalance \<times> nat) \<times> account_data, s) = (Inl e, s')"
      by (rule mutate_InlE [OF m [unfolded Inl]])
        (use f assms(2) sound_amt [OF assms(1), of who] in auto)
    then show ?thesis by simp
  next
    case (Inr r)
    have "sound cfg (drop_negative (fst r) (deposit_event (Slashed who (saturating_sub v (snd r))) s'))"
      by (rule mutate_sound [OF assms(1) m [unfolded Inr], where n = "\<lambda>r. neg_amount (fst r)" and p = "\<lambda>_. 0"])
        (use f soundD(3) [OF assms(1)] in auto)
    then show ?thesis using m Inr by (cases r) simp
  qed
qed

lemma slash_sound:
  assumes "sound cfg s" "can_dec_provider s who"
  shows "sound cfg (case slash cfg who v s of ((n, _), s') \<Rightarrow> drop_negative n s')"
proof (cases "v = 0 \<or> total_balance s who = 0")
  case False
  have "amt (snd (slash_account cfg True v (datas s who))) +
      neg_amount (fst (fst (slash_account cfg True v (datas s who)))) = amt (datas s who)"
  proof -
    have "wrapping_add (min (free (datas s who)) v) (min (reserved (datas s who)) (v - min (free (datas s who)) v)) =
        min (free (datas s who)) v + min (reserved (datas s who)) (v - min (free (datas s who)) v)"
      using sound_amt [OF assms(1), of who] by (intro wrapping_add_small) (simp add: amt_def)
    then show ?thesis by (auto simp: slash_account_def best_slash_def Let_def amt_def)
  qed
  from slash_attempts_sound [OF assms, of "\<lambda>first. slash_account cfg first v", OF this]
  show ?thesis using False by (simp add: slash_def del: slash_attempts.simps)
qed (use assms in \<open>auto simp: slash_def\<close>)

lemma slash_reserved_sound:
  assumes "sound cfg s" "can_dec_provider s who"
  shows "sound cfg (case slash_reserved cfg who v s of ((n, _), s') \<Rightarrow> drop_negative n s')"
proof (cases "v = 0 \<or> total_balance s who = 0")
  case False
  have "amt (snd (slash_reserved_account cfg v True (datas s who))) +
      neg_amount (fst (fst (slash_reserved_account cfg v True (datas s who)))) = amt (datas s who)"
    by (simp add: slash_reserved_account_def best_slash_def Let_def amt_def)
  from slash_attempts_sound [OF assms, of "slash_reserved_account cfg v", OF this]
  show ?thesis using False by (simp add: slash_reserved_def del: slash_attempts.simps)
qed (use assms in \<open>auto simp: slash_reserved_def\<close>)

lemma mint_into_sound:
  assumes "sound cfg s" "mint_into cfg who v s = (Inr u, s')"
  shows "sound cfg s'"
proof (cases "v = 0")
  case False
  obtain s1 where m: "try_mutate_account cfg no_drop who (\<lambda>acc _ s.
      (bindR (deposit_into_result (deposit_consequence cfg s v acc True)) (\<lambda>_.
         Inr ((), acc\<lparr>free := wrapping_add (free acc) v\<rparr>)), s)) s = (Inr (), s1)"
    "s' = deposit_event (Deposit who v) (s1\<lparr>total_issuance := wrapping_add (total_issuance s1) v\<rparr>)"
    using assms(2) False by (auto simp: mint_into_def split: prod.splits sum.splits)
  have dep: "total_issuance s + v \<le> max_balance \<and> existential_deposit cfg \<le> amt (datas s who) + v"
    if "deposit_into_result (deposit_consequence cfg s v (datas s who) True) = Inr ()"
    using that False total_amt [OF sound_amt [OF assms(1), of who]]
    by (auto simp: deposit_consequence_def checked_add_def split: if_splits)
  have "amt (datas s who) + v \<le> max_balance" if "total_issuance s + v \<le> max_balance"
    using that soundD(5) [OF assms(1), of who] by simp
  then show ?thesis
    by (intro mutate_sound [OF assms(1) m(1), where n = "\<lambda>_. 0" and p = "\<lambda>_. v"])
      (use dep m(2) in \<open>auto simp: amt_def wrapping_add_small\<close>)
qed (use assms in \<open>auto simp: mint_into_def\<close>)

text \<open>Burning keeps the books sound when no reserve is left below the existential deposit.\<close>

lemma burn_from_sound:
  assumes "sound cfg s" "burn_from cfg who v s = (Inr a, s')"
    "reserved (datas s who) = 0 \<or> existential_deposit cfg + v \<le> amt (datas s who)"
  shows "sound cfg s'"
proof (cases "v = 0")
  case False
  obtain s1 where m: "try_mutate_account cfg no_drop who (\<lambda>acc _ s.
      (bindR (withdraw_into_result (withdraw_consequence cfg s who v acc)) (\<lambda>extra.
         let actual = wrapping_add v extra
         in Inr (actual, acc\<lparr>free := wrapping_sub (free acc) actual\<rparr>)), s)) s = (Inr a, s1)"
    "s' = deposit_event (Withdraw who v) (s1\<lparr>total_issuance := wrapping_sub (total_issuance s1) a\<rparr>)"
    using assms(2) False by (auto simp: burn_from_def split: prod.splits sum.splits)
  note le = sound_amt [OF assms(1), of who] and ti = soundD(5) [OF assms(1), of who] soundD(3) [OF assms(1)]
  have wd: "v + x \<le> free (datas s who) \<and> wrapping_add v x = v + x"
    if "withdraw_into_result (withdraw_consequence cfg s who v (datas s who)) = Inr x" for x
    using that False assms(3) le total_amt [OF le] by (auto simp: withdraw_consequence_def checked_sub_def Let_def amt_def wrapping_add_small split: if_splits)
  have ws: "wrapping_sub (free (datas s who)) y = free (datas s who) - y" if "y \<le> free (datas s who)" for y
    using that le by (intro wrapping_sub_small) (simp_all add: amt_def)
  show ?thesis
    by (rule mutate_sound [OF assms(1) m(1), where n = "\<lambda>a. a" and p = "\<lambda>_. 0"])
      (use wd ws ti m(2) in \<open>auto simp: Let_def amt_def wrapping_sub_small\<close>)
qed (use assms in \<open>auto simp: burn_from_def\<close>)

subsection \<open>Two accounts at once\<close>

text \<open>The shape of \<open>transfer\<close> and \<open>do_transfer_reserved\<close>: inside the mutation of the
  receiver \<open>b\<close> that of the sender \<open>a\<close>, whose closure \<open>h\<close> computes both new accounts.\<close>

definition nested ::
  "config \<Rightarrow> ('r \<Rightarrow> 'a chain_state \<Rightarrow> 'a chain_state) \<Rightarrow> 'a \<Rightarrow> 'a \<Rightarrow> (bool \<Rightarrow> dispatch_error option) \<Rightarrow>
   ('a chain_state \<Rightarrow> account_data \<Rightarrow> account_data \<Rightarrow> dispatch_error + 'x \<times> account_data) \<Rightarrow>
   ('x \<Rightarrow> 'a dust_cleaner \<Rightarrow> 'r) \<Rightarrow> ('x \<Rightarrow> account_data) \<Rightarrow> 'a chain_state \<Rightarrow>
   (dispatch_error + 'r \<times> 'a dust_cleaner) \<times> 'a chain_state" where
  "nested cfg drp a b guard h k to_of s =
     try_mutate_account_with_dust cfg drp b
       (\<lambda>to_account is_new s0.
         case guard is_new of
           Some e \<Rightarrow> (Inl e, s0)
         | None \<Rightarrow>
             (case try_mutate_account_with_dust cfg no_drop a (\<lambda>from_account _ s1. (h s1 to_account from_account, s1)) s0 of
                (Inl e, s2) \<Rightarrow> (Inl e, s2)
              | (Inr (x, c), s2) \<Rightarrow> (Inr (k x c, to_of x), s2))) s"

lemma nested_Inr:
  assumes "nested cfg drp a b guard h k to_of s = (Inr (r, c), s3)" "a \<noteq> b"
    and bound: "\<And>x fr. h s (datas s b) (datas s a) = Inr (x, fr) \<Longrightarrow> amt fr \<le> max_balance \<and> amt (to_of x) \<le> max_balance"
  shows "\<exists>x fr. guard (datas s b = default_data) = None \<and> h s (datas s b) (datas s a) = Inr (x, fr) \<and>
    r = k x (cleaner cfg a fr) \<and> c = cleaner cfg b (to_of x) \<and>
    datas s3 = (datas s)(a := kept cfg fr, b := kept cfg (to_of x)) \<and>
    total_issuance s3 = total_issuance s \<and> frame_eq s s3"
proof -
  let ?f = "\<lambda>to_account is_new s0.
         case guard is_new of
           Some e \<Rightarrow> (Inl e, s0)
         | None \<Rightarrow>
             (case try_mutate_account_with_dust cfg no_drop a (\<lambda>from_account _ s1. (h s1 to_account from_account, s1)) s0 of
                (Inl e, s2) \<Rightarrow> (Inl e, s2)
              | (Inr (x, c), s2) \<Rightarrow> (Inr (k x c, to_of x), s2))"
  let ?g = "\<lambda>from_account (_ :: bool) s1. (h s1 (datas s b) from_account, s1)"
  note m = assms(1) [unfolded nested_def]
  obtain y s2 where y: "?f (datas s b) (datas s b = default_data) s = (y, s2)" by fastforce
  then have "y \<noteq> Inl e" for e using m with_dust_Inl [of ?f s b e s2] by auto
  then obtain r' d where ok: "?f (datas s b) (datas s b = default_data) s = (Inr (r', d), s2)" using y by (cases y) auto
  then obtain x c1 where i: "guard (datas s b = default_data) = None"
    "try_mutate_account_with_dust cfg no_drop a ?g s = (Inr (x, c1), s2)" "r' = k x c1" "d = to_of x"
    by (auto split: option.splits prod.splits sum.splits)
  obtain z where z: "h s (datas s b) (datas s a) = z" by blast
  then have "z \<noteq> Inl e" for e using i(2) with_dust_Inl [of ?g s a e s] by auto
  then obtain x' fr where h: "h s (datas s b) (datas s a) = Inr (x', fr)" using z by (cases z) auto
  note bo = bound [OF h]
  have g: "?g (datas s a) (datas s a = default_data) s = (Inr (x', fr), s)" by (simp add: h)
  note inner = with_dust_Inr [OF g refl _ i(2)]
  have x: "x' = x" and s2: "datas s2 = (datas s)(a := kept cfg fr)" "total_issuance s2 = total_issuance s" "frame_eq s s2"
    "c1 = cleaner cfg a fr"
    using inner bo by simp_all
  have "datas s2 b = datas s b" "amt d \<le> max_balance" using s2(1) assms(2) bo i(4) x by simp_all
  note outer = with_dust_Inr [OF ok this m]
  show ?thesis
    by (intro exI [of _ x] exI [of _ fr])
      (use outer i h x s2 frame_eq_trans in \<open>auto\<close>)
qed

lemma sound_pair: "sound cfg s \<Longrightarrow> a \<noteq> b \<Longrightarrow> amt (datas s a) + amt (datas s b) \<le> total_issuance s"
  using acc.two_le_held [of s a b] soundD(1,2) [of cfg s] by simp

lemma sound_two:
  assumes s: "sound cfg s" and ab: "a \<noteq> b" and d: "datas s' = (datas s)(a := kept cfg d1, b := kept cfg d2)"
    and sum: "amt d1 + amt d2 = amt (datas s a) + amt (datas s b)"
    and ti: "total_issuance s' = total_issuance s - dust cfg d1 - dust cfg d2"
  shows "sound cfg s'"
proof -
  let ?t = "put_account a ((get_account s a)\<lparr>acc_data := kept cfg d1\<rparr>) s"
  have t: "datas ?t = (datas s)(a := kept cfg d1)" by simp
  note u1 = acc.view_update [OF soundD(1) [OF s] t]
  have "datas s' = (datas ?t)(b := kept cfg d2)" using d t by simp
  note u2 = acc.view_update [OF u1(1) this]
  have tb: "datas ?t b = datas s b" using t ab by simp
  show ?thesis
  proof (rule soundI)
    show "acc.held_sum s' = total_issuance s'"
      using u1(2) u2(2) [unfolded tb] sum ti kept_dust [of cfg d1] kept_dust [of cfg d2] soundD(2) [OF s] sound_pair [OF s ab] by linarith
    show "total_issuance s' \<le> max_balance" using ti soundD(3) [OF s] by simp
    show "datas s' c = default_data \<or> existential_deposit cfg \<le> amt (datas s' c)" for c
      using soundD(4) [OF s, of c] kept_ed [of cfg d1] kept_ed [of cfg d2] d by auto
  qed (rule u2(1))
qed

lemma transfer_nested:
  "v \<noteq> 0 \<Longrightarrow> a \<noteq> b \<Longrightarrow> transfer cfg a b v er s =
     (case nested cfg drop_dust_cleaner a b (\<lambda>_. None) (\<lambda>s1 to_account. transfer_accounts cfg s1 a v er to_account)
        (\<lambda>_ c. c) (\<lambda>x. x) s of
        (Inl e, s') \<Rightarrow> (Inl e, s')
      | (Inr (from_dust, to_dust), s') \<Rightarrow>
          (Inr (), deposit_event (Transfer a b v) (drop_dust_cleaner to_dust (drop_dust_cleaner from_dust s'))))"
  by (simp add: transfer_def nested_def)

lemma transfer_accounts_Inr:
  assumes "transfer_accounts cfg s a v er t f = Inr (t', f')"
  shows "v \<le> free f" "f' = f\<lparr>free := free f - v\<rparr>" "t' = t\<lparr>free := free t + v\<rparr>" "free t + v \<le> max_balance"
    "existential_deposit cfg \<le> total t'" "v = 0 \<or> frozen (datas s a) Reasons_Misc \<le> free f'"
    "(er = AllowDeath \<and> can_dec_provider s a) \<or> existential_deposit cfg \<le> total f'"
proof -
  have r: "reasons_from TRANSFER = Reasons_Misc" by (simp add: reasons_from_def TRANSFER_def TRANSACTION_PAYMENT_def)
  show "v \<le> free f" "f' = f\<lparr>free := free f - v\<rparr>" "t' = t\<lparr>free := free t + v\<rparr>" "free t + v \<le> max_balance"
    "existential_deposit cfg \<le> total t'" "v = 0 \<or> frozen (datas s a) Reasons_Misc \<le> free f'"
    "(er = AllowDeath \<and> can_dec_provider s a) \<or> existential_deposit cfg \<le> total f'"
    using assms by (auto simp: transfer_accounts_def checked_sub_def checked_add_def Let_def ensure_can_withdraw_def r
        account_of_datas split: if_splits sum.splits)
qed

text \<open>What a successful transfer does.\<close>

lemma transfer_Inr:
  assumes "sound cfg s" "v \<noteq> 0" "a \<noteq> b" "transfer cfg a b v er s = (Inr u, s')"
  defines "f' \<equiv> (datas s a)\<lparr>free := free (datas s a) - v\<rparr>" and "t' \<equiv> (datas s b)\<lparr>free := free (datas s b) + v\<rparr>"
  shows "v \<le> free (datas s a)" "frozen (datas s a) Reasons_Misc \<le> free (datas s a) - v"
    "datas s' = (datas s)(a := kept cfg f', b := t')" "existential_deposit cfg \<le> amt t'"
    "total_issuance s' = total_issuance s - dust cfg f'" "frame_eq s s'"
    "(er = AllowDeath \<and> can_dec_provider s a) \<or> existential_deposit cfg \<le> amt f'"
proof -
  obtain from_dust to_dust s3 where n: "nested cfg drop_dust_cleaner a b (\<lambda>_. None)
      (\<lambda>s1 to_account. transfer_accounts cfg s1 a v er to_account) (\<lambda>_ c. c) (\<lambda>x. x) s = (Inr (from_dust, to_dust), s3)"
    "s' = deposit_event (Transfer a b v) (drop_dust_cleaner to_dust (drop_dust_cleaner from_dust s3))"
    using assms(4) by (auto simp: transfer_nested [OF assms(2,3)] split: prod.splits sum.splits)
  have bound: "amt f'' \<le> max_balance \<and> amt t'' \<le> max_balance"
    if "transfer_accounts cfg s a v er (datas s b) (datas s a) = Inr (t'', f'')" for t'' f''
    using transfer_accounts_Inr [OF that] sound_pair [OF assms(1,3)] soundD(3) [OF assms(1)] by (auto simp: amt_def)
  obtain t'' f'' where h: "transfer_accounts cfg s a v er (datas s b) (datas s a) = Inr (t'', f'')"
    "from_dust = cleaner cfg a f''" "to_dust = cleaner cfg b t''"
    "datas s3 = (datas s)(a := kept cfg f'', b := kept cfg t'')" "total_issuance s3 = total_issuance s" "frame_eq s s3"
    using nested_Inr [OF n(1) assms(3) bound] by blast
  note tr = transfer_accounts_Inr [OF h(1)]
  have e: "f'' = f'" "t'' = t'" using tr(2,3) by (simp_all add: f'_def t'_def)
  have tot: "total f' = amt f'" "total t' = amt t'" using bound [OF h(1)] total_amt e by auto
  have keep: "kept cfg t' = t'" "dust cfg t' = 0" using tr(5) e tot by (simp_all add: kept_def dust_def)
  show "v \<le> free (datas s a)" "frozen (datas s a) Reasons_Misc \<le> free (datas s a) - v"
    "datas s' = (datas s)(a := kept cfg f', b := t')" "existential_deposit cfg \<le> amt t'"
    "total_issuance s' = total_issuance s - dust cfg f'" "frame_eq s s'"
    "(er = AllowDeath \<and> can_dec_provider s a) \<or> existential_deposit cfg \<le> amt f'"
    using tr e tot h keep n(2) assms(2) by (simp_all add: f'_def)
qed

lemma transfer_sound:
  assumes "sound cfg s" "transfer cfg a b v er s = (Inr u, s')"
  shows "sound cfg s'"
proof (cases "v = 0 \<or> a = b")
  case False
  then have ne: "v \<noteq> 0" "a \<noteq> b" by auto
  note t = transfer_Inr [OF assms(1) ne assms(2)]
  let ?t' = "(datas s b)\<lparr>free := free (datas s b) + v\<rparr>"
  have "kept cfg ?t' = ?t'" "dust cfg ?t' = 0" using t(4) by (simp_all add: kept_def dust_def)
  then show ?thesis
    by (intro sound_two [OF assms(1) ne(2), of s' "(datas s a)\<lparr>free := free (datas s a) - v\<rparr>" ?t'])
      (use t in \<open>simp_all add: amt_def\<close>)
qed (use assms in \<open>auto simp: transfer_def\<close>)

lemma repatriate_accounts_Inr:
  assumes "repatriate_accounts v be st t f = Inr ((n, t'), f')"
  shows "n = min (reserved f) v" "be \<or> n = v" "amt t' = amt t + n" "amt f' + n = amt f"
    "f' = f\<lparr>reserved := reserved f - n\<rparr>"
    "t' = (case st of Status_Free \<Rightarrow> t\<lparr>free := free t + n\<rparr> | Status_Reserved \<Rightarrow> t\<lparr>reserved := reserved t + n\<rparr>)"
  using assms by (auto simp: repatriate_accounts_def checked_add_def Let_def amt_def split: if_splits balance_status.splits)

lemma repatriate_nested:
  "v \<noteq> 0 \<Longrightarrow> a \<noteq> b \<Longrightarrow> do_transfer_reserved cfg a b v be st s =
     (case nested cfg (\<lambda>(_, dust). drop_dust_cleaner dust) a b (\<lambda>new. if new then Some (Module DeadAccount) else None)
        (\<lambda>_. repatriate_accounts v be st) (\<lambda>x c. (fst x, c)) snd s of
        (Inl e, s') \<Rightarrow> (Inl e, s')
      | (Inr ((actual, one_dust), other_dust), s') \<Rightarrow>
          (Inr actual, drop_dust_cleaner one_dust (drop_dust_cleaner other_dust
             (deposit_event (ReserveRepatriated a b actual st) s'))))"
proof -
  have "(\<lambda>to_account is_new s0.
      if is_new then (Inl (Module DeadAccount), s0)
      else case try_mutate_account_with_dust cfg no_drop a (\<lambda>from_account _ s1. (repatriate_accounts v be st to_account from_account, s1)) s0 of
          (Inl e, s2) \<Rightarrow> (Inl e, s2)
        | (Inr ((actual, to'), dust_cleaner), s2) \<Rightarrow> (Inr ((actual, dust_cleaner), to'), s2)) =
    (\<lambda>to_account is_new s0.
      case (if is_new then Some (Module DeadAccount) else None) of
        Some e \<Rightarrow> (Inl e, s0)
      | None \<Rightarrow>
          (case try_mutate_account_with_dust cfg no_drop a (\<lambda>from_account _ s1. (repatriate_accounts v be st to_account from_account, s1)) s0 of
             (Inl e, s2) \<Rightarrow> (Inl e, s2)
           | (Inr (x, c), s2) \<Rightarrow> (Inr ((fst x, c), snd x), s2)))"
    by (auto simp: fun_eq_iff split: prod.splits sum.splits)
  then show "v \<noteq> 0 \<Longrightarrow> a \<noteq> b \<Longrightarrow> ?thesis" by (simp add: do_transfer_reserved_def nested_def)
qed

lemma do_transfer_reserved_sound:
  assumes "sound cfg s" "do_transfer_reserved cfg a b v be st s = (Inr n, s')"
  shows "sound cfg s'"
proof (cases "v = 0 \<or> a = b")
  case True
  then show ?thesis using assms unreserve_sound [OF assms(1), of a v]
    by (auto simp: do_transfer_reserved_def split: if_splits balance_status.splits prod.splits)
next
  case False
  then have ne: "v \<noteq> 0" "a \<noteq> b" by auto
  obtain one other s3 where m: "nested cfg (\<lambda>(_, dust). drop_dust_cleaner dust) a b
      (\<lambda>new. if new then Some (Module DeadAccount) else None)
      (\<lambda>_. repatriate_accounts v be st) (\<lambda>x c. (fst x, c)) snd s = (Inr ((n, one), other), s3)"
    "s' = drop_dust_cleaner one (drop_dust_cleaner other (deposit_event (ReserveRepatriated a b n st) s3))"
    using assms(2) by (auto simp: repatriate_nested [OF ne] split: prod.splits sum.splits)
  have bound: "amt f' \<le> max_balance \<and> amt (snd x) \<le> max_balance"
    if "repatriate_accounts v be st (datas s b) (datas s a) = Inr (x, f')" for x f'
  proof -
    obtain k t' where x: "x = (k, t')" by fastforce
    show ?thesis
      using repatriate_accounts_Inr(3,4) [OF that [unfolded x]] sound_pair [OF assms(1) ne(2)] soundD(3) [OF assms(1)]
      by (simp add: x)
  qed
  obtain k t' f' where h: "repatriate_accounts v be st (datas s b) (datas s a) = Inr ((k, t'), f')"
    "one = cleaner cfg a f'" "other = cleaner cfg b t'"
    "datas s3 = (datas s)(a := kept cfg f', b := kept cfg t')" "total_issuance s3 = total_issuance s"
    using nested_Inr [OF m(1) ne(2) bound] by fastforce
  show ?thesis
    by (rule sound_two [OF assms(1) ne(2), of s' f' t'])
      (use repatriate_accounts_Inr(3,4) [OF h(1)] h m(2) in \<open>simp_all add: diff_commute\<close>)
qed

lemma hold_sound:
  assumes "sound cfg s" "hold cfg who v s = (Inr u, s')"
  shows "sound cfg s'"
proof (cases "v = 0")
  case False
  then have can: "can_reserve s who v" using assms(2) by (auto simp: hold_def split: if_splits)
  then have fr: "v \<le> free (datas s who)" using False by (auto simp: can_reserve_def checked_sub_def account_of_datas split: if_splits)
  have m: "try_mutate_account cfg no_drop who (\<lambda>acc _ s. (Inr ((\<lambda>a. ((), a\<lparr>free := wrapping_sub (free a) v,
      reserved := wrapping_add (reserved a) v\<rparr>)) acc), s)) s = (Inr u, s')"
    using assms(2) False can by (simp add: hold_def mutate_account_def)
  have "wrapping_sub (free (datas s who)) v = free (datas s who) - v"
    "wrapping_add (reserved (datas s who)) v = reserved (datas s who) + v"
    using fr sound_amt [OF assms(1), of who] by (auto intro!: wrapping_sub_small wrapping_add_small simp: amt_def)
  then show ?thesis
    by (intro mutate_sound [OF assms(1) m, where n = "\<lambda>_. 0" and p = "\<lambda>_. 0"])
      (use fr soundD(3) [OF assms(1)] in \<open>auto simp: amt_def\<close>)
qed (use assms in \<open>auto simp: hold_def\<close>)

lemma release_sound:
  assumes "sound cfg s" "release cfg who v be s = (Inr n, s')"
  shows "sound cfg s'"
proof (cases "v = 0")
  case False
  note m = assms(2) [unfolded release_def if_not_P [OF False]]
  have "saturating_add (free (datas s who)) (min v (reserved (datas s who))) = free (datas s who) + min v (reserved (datas s who))"
    using sound_amt [OF assms(1), of who] by (simp add: saturating_add_def amt_def)
  then show ?thesis
    by (intro mutate_sound [OF assms(1) m, where n = "\<lambda>_. 0" and p = "\<lambda>_. 0"])
      (use soundD(3) [OF assms(1)] in \<open>auto simp: amt_def Let_def saturating_sub_def split: if_splits\<close>)
qed (use assms in \<open>auto simp: release_def\<close>)

lemma adjust_issuance_simps:
  "datas (adjust_issuance old new s) = datas s"
  "total_issuance s + new \<le> max_balance \<Longrightarrow> old \<le> total_issuance s \<Longrightarrow>
     total_issuance (adjust_issuance old new s) = total_issuance s + new - old"
  by (auto simp: adjust_issuance_def)

lemma set_balance_sound:
  assumes "sound cfg s" "set_balance cfg who f r s = (Inr u, s')" "total_issuance s + f + r \<le> max_balance"
  shows "sound cfg s'"
proof -
  define nf nr where "nf = (if f + r < existential_deposit cfg then 0 else f)"
    and "nr = (if f + r < existential_deposit cfg then 0 else r)"
  have w: "wrapping_add f r = f + r" using assms(3) by (intro wrapping_add_small) simp
  let ?g = "\<lambda>acc (_ :: bool) s. (Inr ((\<lambda>acc. ((free acc, reserved acc), acc\<lparr>free := nf, reserved := nr\<rparr>)) acc), s)"
  obtain f0 r0 s2 where m: "try_mutate_account cfg no_drop who ?g s = (Inr (f0, r0), s2)"
    and s': "s' = deposit_event (BalanceSet who nf nr) (adjust_issuance r0 nr (adjust_issuance f0 nf s2))"
    using assms(2) unfolding set_balance_def mutate_account_def Let_def w nf_def nr_def
    by (auto split: prod.splits sum.splits)
  let ?d = "(datas s who)\<lparr>free := nf, reserved := nr\<rparr>"
  have ed: "nf + nr = 0 \<or> existential_deposit cfg \<le> nf + nr" "nf + nr \<le> f + r" by (auto simp: nf_def nr_def)
  have "amt ?d \<le> max_balance" using ed(2) assms(3) by (simp add: amt_def)
  note mu = mutate_Inr [OF _ refl this m, of "(free (datas s who), reserved (datas s who))"]
  have old: "f0 = free (datas s who)" "r0 = reserved (datas s who)" and d0: "total_issuance s2 = total_issuance s - dust cfg ?d"
    using mu by simp_all
  have "dust cfg ?d = 0" using ed(1) by (auto simp: dust_def amt_def)
  then have t: "total_issuance s' = total_issuance s2 + (nf + nr) - (f0 + r0)"
    using d0 ed(2) assms(3) soundD(5) [OF assms(1), of who] old
    by (simp add: s' adjust_issuance_simps amt_def)
  show ?thesis
    by (rule mutate_sound [OF assms(1) m, where n = "\<lambda>(a, b). a + b" and p = "\<lambda>_. nf + nr"])
      (use s' t ed assms(3) in \<open>auto simp: amt_def adjust_issuance_simps\<close>)
qed

lemma drop_signed_datas [simp]: "datas (drop_signed i s) = datas s"
  by (cases i) auto

lemma make_free_balance_be_sound:
  assumes "sound cfg s" "can_dec_provider s who" "total_issuance s + v \<le> max_balance"
  shows "sound cfg (case make_free_balance_be cfg who v s of (i, s') \<Rightarrow> drop_signed i s')"
proof -
  let ?f = "\<lambda>acc is_new s.
      if saturating_add v (reserved acc) < existential_deposit cfg \<and> is_new
      then (Inl (Module ExistentialDeposit), s)
      else (Inr (if free acc \<le> v then Signed_Positive (PositiveImbalance (v - free acc))
                 else Signed_Negative (NegativeImbalance (free acc - v)), acc\<lparr>free := v\<rparr>),
            deposit_event (BalanceSet who v (reserved acc)) s)"
  let ?p = "\<lambda>i. case i of Signed_Positive p \<Rightarrow> pos_amount p | Signed_Negative _ \<Rightarrow> 0"
  let ?n = "\<lambda>i. case i of Signed_Positive _ \<Rightarrow> 0 | Signed_Negative n \<Rightarrow> neg_amount n"
  obtain x s' where m: "try_mutate_account cfg drop_signed who ?f s = (x, s')" by fastforce
  note ed = soundD(4) [OF assms(1), of who]
  have le: "amt (datas s who) + v \<le> max_balance" using soundD(5) [OF assms(1), of who] assms(3) by simp
  have sat: "saturating_add v (reserved (datas s who)) = v + reserved (datas s who)"
    using le by (simp add: saturating_add_def amt_def)
  show ?thesis
  proof (cases x)
    case (Inl e)
    have "?f (datas s who) (datas s who = default_data) s = (Inl e, s')"
      by (rule mutate_InlE [OF m [unfolded Inl]]) (use le assms(2) in \<open>auto simp: amt_def split: if_splits\<close>)
    then have "s' = s" by (auto split: if_splits)
    then show ?thesis using assms(1) m Inl by (simp add: make_free_balance_be_def)
  next
    case (Inr i)
    have "sound cfg (drop_signed i s')"
      by (rule mutate_sound [OF assms(1) m [unfolded Inr], where n = ?n and p = ?p])
        (use ed le sat assms(3) in \<open>auto simp: amt_def split: if_splits signed_imbalance.splits\<close>)
    then show ?thesis using m Inr by (simp add: make_free_balance_be_def)
  qed
qed

lemma lock_frozen_amt [simp]: "free (lock_frozen ls d) = free d" "reserved (lock_frozen ls d) = reserved d"
proof -
  let ?g = "\<lambda>b l. let b1 = (if lock_reasons l = Reasons_All \<or> lock_reasons l = Reasons_Misc
        then b\<lparr>misc_frozen := max (misc_frozen b) (lock_amount l)\<rparr> else b)
      in if lock_reasons l = Reasons_All \<or> lock_reasons l = Reasons_Fee
         then b1\<lparr>fee_frozen := max (fee_frozen b1) (lock_amount l)\<rparr> else b1"
  have "free (foldl ?g b ls) = free b \<and> reserved (foldl ?g b ls) = reserved b" for b :: account_data
    by (induction ls arbitrary: b) (auto simp: Let_def)
  then show "free (lock_frozen ls d) = free d" "reserved (lock_frozen ls d) = reserved d"
    by (simp_all add: lock_frozen_def)
qed

lemma consumers_simps [simp]:
  "datas (dec_consumers a s) = datas s" "datas (snd (inc_consumers_without_limit a s)) = datas s"
  "total_issuance (dec_consumers a s) = total_issuance s"
  "total_issuance (snd (inc_consumers_without_limit a s)) = total_issuance s"
  by (auto simp: dec_consumers_def inc_consumers_without_limit_def Let_def put_account_def)
    (auto simp: datas_def get_account_def fun_eq_iff split: option.splits)

lemma update_locks_sound:
  assumes "sound cfg s"
  shows "sound cfg (update_locks cfg who ls s)"
proof -
  let ?f = "\<lambda>acc (_ :: bool) s. (Inr ((\<lambda>b. ((), lock_frozen ls b)) acc), s)"
  obtain x s1 where m: "try_mutate_account cfg no_drop who ?f s = (x, s1)" by fastforce
  note ed = soundD(4) [OF assms, of who]
  have "sound cfg s1"
  proof (cases x)
    case (Inl e)
    have "?f (datas s who) (datas s who = default_data) s = (Inl e, s1)"
      by (rule mutate_InlE [OF m [unfolded Inl]]) (use ed sound_amt [OF assms, of who] in \<open>auto simp: amt_def\<close>)
    then show ?thesis by simp
  next
    case (Inr u)
    show ?thesis
      by (rule mutate_sound [OF assms m [unfolded Inr], where n = "\<lambda>_. 0" and p = "\<lambda>_. 0"])
        (use soundD(3) [OF assms] in \<open>auto simp: amt_def\<close>)
  qed
  moreover have "datas (update_locks cfg who ls s) = datas s1 \<and> total_issuance (update_locks cfg who ls s) = total_issuance s1"
    using m by (simp add: update_locks_def mutate_account_def Let_def)
  ultimately show ?thesis by (blast intro: sound_same)
qed

lemma locks_sound:
  assumes "sound cfg s"
  shows "sound cfg (set_lock cfg i who v rs s)" "sound cfg (extend_lock cfg i who v rs s)"
    "sound cfg (remove_lock cfg i who s)"
  using assms update_locks_sound [OF assms] by (simp_all add: set_lock_def extend_lock_def remove_lock_def Let_def)

lemma put_reserves_sound [simp]: "sound cfg (put_reserves who rs s) = sound cfg s"
  by (simp add: sound_def held_def put_reserves_def)

lemma repatriate_reserved_sound:
  "sound cfg s \<Longrightarrow> repatriate_reserved cfg a b v st s = (Inr n, s') \<Longrightarrow> sound cfg s'"
  using do_transfer_reserved_sound by (fastforce simp: repatriate_reserved_def split: prod.splits sum.splits)

lemma reserve_named_sound:
  assumes "sound cfg s" "reserve_named cfg i who v s = (Inr u, s')"
  shows "sound cfg s'"
  using assms reserve_sound [OF assms(1), of who v]
  by (auto simp: reserve_named_def Let_def split: if_splits sum.splits prod.splits)

lemma unreserve_named_sound: "sound cfg s \<Longrightarrow> sound cfg (snd (unreserve_named cfg i who v s))"
  using unreserve_sound [of cfg s who]
  by (auto simp: unreserve_named_def Let_def case_prod_beta split: option.splits sum.splits)

lemma repatriate_reserved_named_sound:
  assumes "sound cfg s" "repatriate_reserved_named cfg i a b v st s = (Inr n, s')"
  shows "sound cfg s'"
  using assms repatriate_reserved_sound [OF assms(1)] unreserve_named_sound [OF assms(1), of i a v]
  by (auto simp: repatriate_reserved_named_def Let_def split: if_splits sum.splits prod.splits balance_status.splits)

lemma slash_reserved_named_sound:
  assumes "sound cfg s" "can_dec_provider s who"
  shows "sound cfg (case slash_reserved_named cfg i who v s of ((n, _), s') \<Rightarrow> drop_negative n s')"
proof -
  have comm: "drop_negative n (put_reserves who rs (deposit_event e s1)) = put_reserves who rs (deposit_event e (drop_negative n s1))"
    for n rs e and s1 :: "'a chain_state"
    by (cases n) (simp add: drop_negative.simps put_reserves_def deposit_event_def)
  have ev: "sound cfg (deposit_event e t) = sound cfg t" for e and t :: "'a chain_state"
    by (simp add: sound_def held_def)
  show ?thesis
    using assms(1) slash_reserved_sound [OF assms]
    by (fastforce simp: slash_reserved_named_def Let_def comm ev split: sum.splits prod.splits)
qed

section \<open>Runs of the pallet\<close>

text \<open>All operations of the pallet that move funds. A fallible one runs in the storage layer
  of the call that uses it, and the imbalance it returns is dropped at once.\<close>

datatype 'a pallet_op =
    P_Transfer 'a 'a nat existence_requirement
  | P_Withdraw 'a nat withdraw_reasons existence_requirement
  | P_Deposit 'a nat
  | P_Deposit_Creating 'a nat
  | P_Make_Free 'a nat
  | P_Slash 'a nat
  | P_Issue nat
  | P_Burn nat
  | P_Mint 'a nat
  | P_Burn_From 'a nat
  | P_Reserve 'a nat
  | P_Unreserve 'a nat
  | P_Slash_Reserved 'a nat
  | P_Repatriate 'a 'a nat balance_status
  | P_Reserve_Named nat 'a nat
  | P_Unreserve_Named nat 'a nat
  | P_Slash_Reserved_Named nat 'a nat
  | P_Repatriate_Named nat 'a 'a nat balance_status
  | P_Hold 'a nat
  | P_Release 'a nat bool
  | P_Transfer_Held 'a 'a nat bool bool
  | P_Set_Balance 'a nat nat
  | P_Set_Lock nat 'a nat withdraw_reasons
  | P_Extend_Lock nat 'a nat withdraw_reasons
  | P_Remove_Lock nat 'a

definition settle_result ::
  "('r \<Rightarrow> 'a chain_state \<Rightarrow> 'a chain_state) \<Rightarrow> ('a chain_state \<Rightarrow> (dispatch_error + 'r) \<times> 'a chain_state) \<Rightarrow>
   'a chain_state \<Rightarrow> 'a chain_state" where
  "settle_result drp f s = (case with_storage_layer f s of (Inl _, s') \<Rightarrow> s' | (Inr r, s') \<Rightarrow> drp r s')"

fun settle :: "config \<Rightarrow> 'a pallet_op \<Rightarrow> 'a chain_state \<Rightarrow> 'a chain_state" where
  "settle cfg (P_Transfer a b v er) s = settle_result no_drop (transfer cfg a b v er) s"
| "settle cfg (P_Withdraw a v rs er) s = settle_result drop_negative (withdraw cfg a v rs er) s"
| "settle cfg (P_Deposit a v) s = settle_result drop_positive (deposit_into_existing cfg a v) s"
| "settle cfg (P_Deposit_Creating a v) s = (case deposit_creating cfg a v s of (p, s') \<Rightarrow> drop_positive p s')"
| "settle cfg (P_Make_Free a v) s = (case make_free_balance_be cfg a v s of (i, s') \<Rightarrow> drop_signed i s')"
| "settle cfg (P_Slash a v) s = (case slash cfg a v s of ((n, _), s') \<Rightarrow> drop_negative n s')"
| "settle cfg (P_Issue v) s = (case issue v s of (n, s') \<Rightarrow> drop_negative n s')"
| "settle cfg (P_Burn v) s = (case burn v s of (p, s') \<Rightarrow> drop_positive p s')"
| "settle cfg (P_Mint a v) s = settle_result no_drop (mint_into cfg a v) s"
| "settle cfg (P_Burn_From a v) s = settle_result no_drop (burn_from cfg a v) s"
| "settle cfg (P_Reserve a v) s = settle_result no_drop (reserve cfg a v) s"
| "settle cfg (P_Unreserve a v) s = snd (unreserve cfg a v s)"
| "settle cfg (P_Slash_Reserved a v) s = (case slash_reserved cfg a v s of ((n, _), s') \<Rightarrow> drop_negative n s')"
| "settle cfg (P_Repatriate a b v st) s = settle_result no_drop (repatriate_reserved cfg a b v st) s"
| "settle cfg (P_Reserve_Named i a v) s = settle_result no_drop (reserve_named cfg i a v) s"
| "settle cfg (P_Unreserve_Named i a v) s = snd (unreserve_named cfg i a v s)"
| "settle cfg (P_Slash_Reserved_Named i a v) s =
     (case slash_reserved_named cfg i a v s of ((n, _), s') \<Rightarrow> drop_negative n s')"
| "settle cfg (P_Repatriate_Named i a b v st) s = settle_result no_drop (repatriate_reserved_named cfg i a b v st) s"
| "settle cfg (P_Hold a v) s = settle_result no_drop (hold cfg a v) s"
| "settle cfg (P_Release a v be) s = settle_result no_drop (release cfg a v be) s"
| "settle cfg (P_Transfer_Held a b v be oh) s = settle_result no_drop (transfer_held cfg a b v be oh) s"
| "settle cfg (P_Set_Balance a f r) s = settle_result no_drop (set_balance cfg a f r) s"
| "settle cfg (P_Set_Lock i a v rs) s = set_lock cfg i a v rs s"
| "settle cfg (P_Extend_Lock i a v rs) s = extend_lock cfg i a v rs s"
| "settle cfg (P_Remove_Lock i a) s = remove_lock cfg i a s"

text \<open>What the pallet relies on: new funds fit into the balance type, an account that is
  slashed or set may lose its provider reference, and burning does not kill an account with
  reserved funds. Why the last two are needed is shown below.\<close>

fun covered :: "config \<Rightarrow> 'a pallet_op \<Rightarrow> 'a chain_state \<Rightarrow> bool" where
  "covered cfg (P_Deposit a v) s \<longleftrightarrow> total_issuance s + v \<le> max_balance"
| "covered cfg (P_Deposit_Creating a v) s \<longleftrightarrow> total_issuance s + v \<le> max_balance"
| "covered cfg (P_Make_Free a v) s \<longleftrightarrow> total_issuance s + v \<le> max_balance \<and> can_dec_provider s a"
| "covered cfg (P_Slash a v) s \<longleftrightarrow> can_dec_provider s a"
| "covered cfg (P_Slash_Reserved a v) s \<longleftrightarrow> can_dec_provider s a"
| "covered cfg (P_Slash_Reserved_Named i a v) s \<longleftrightarrow> can_dec_provider s a"
| "covered cfg (P_Burn_From a v) s \<longleftrightarrow>
     reserved_balance s a = 0 \<or> existential_deposit cfg + v \<le> free_balance s a + reserved_balance s a"
| "covered cfg (P_Set_Balance a f r) s \<longleftrightarrow> total_issuance s + f + r \<le> max_balance"
| "covered cfg _ s \<longleftrightarrow> True"

fun covered_run :: "config \<Rightarrow> 'a pallet_op list \<Rightarrow> 'a chain_state \<Rightarrow> bool" where
  "covered_run cfg [] s \<longleftrightarrow> True"
| "covered_run cfg (x # xs) s \<longleftrightarrow> covered cfg x s \<and> covered_run cfg xs (settle cfg x s)"

lemma settle_result_sound:
  assumes "sound cfg s" "\<And>r s'. f s = (Inr r, s') \<Longrightarrow> sound cfg (drp r s')"
  shows "sound cfg (settle_result drp f s)"
  using assms by (auto simp: settle_result_def with_storage_layer_def split: prod.splits sum.splits)

lemma issue_sound:
  assumes "sound cfg s"
  shows "sound cfg (case issue v s of (n, s') \<Rightarrow> drop_negative n s')"
    "sound cfg (case burn v s of (p, s') \<Rightarrow> drop_positive p s')"
  using assms soundD(3) [OF assms]
  by (auto simp: issue_def burn_def checked_add_def checked_sub_def intro: sound_same)

lemma settle_sound:
  assumes s: "sound cfg s" and c: "covered cfg x s"
  shows "sound cfg (settle cfg x s)"
proof (cases x)
  case (P_Transfer a b v er)
  then show ?thesis using transfer_sound [OF s] by (auto intro!: settle_result_sound [OF s] simp: no_drop_def)
next
  case (P_Withdraw a v rs er)
  then show ?thesis using withdraw_sound [OF s] by (auto intro!: settle_result_sound [OF s] simp: no_drop_def)
next
  case (P_Mint a v)
  then show ?thesis using mint_into_sound [OF s] by (auto intro!: settle_result_sound [OF s] simp: no_drop_def)
next
  case (P_Reserve a v)
  then show ?thesis using reserve_sound [OF s] by (auto intro!: settle_result_sound [OF s] simp: no_drop_def)
next
  case (P_Repatriate a b v st)
  then show ?thesis using repatriate_reserved_sound [OF s] by (auto intro!: settle_result_sound [OF s] simp: no_drop_def)
next
  case (P_Reserve_Named i a v)
  then show ?thesis using reserve_named_sound [OF s] by (auto intro!: settle_result_sound [OF s] simp: no_drop_def)
next
  case (P_Repatriate_Named i a b v st)
  then show ?thesis using repatriate_reserved_named_sound [OF s] by (auto intro!: settle_result_sound [OF s] simp: no_drop_def)
next
  case (P_Hold a v)
  then show ?thesis using hold_sound [OF s] by (auto intro!: settle_result_sound [OF s] simp: no_drop_def)
next
  case (P_Release a v be)
  then show ?thesis using release_sound [OF s] by (auto intro!: settle_result_sound [OF s] simp: no_drop_def)
next
  case (P_Deposit a v)
  then show ?thesis using deposit_into_existing_sound [OF s] c by (auto intro!: settle_result_sound [OF s])
next
  case (P_Transfer_Held a b v be oh)
  then show ?thesis using do_transfer_reserved_sound [OF s] by (auto intro!: settle_result_sound [OF s] simp: no_drop_def transfer_held_def)
next
  case (P_Burn_From a v)
  have "sound cfg s'" if "burn_from cfg a v s = (Inr n, s')" for n s'
    by (rule burn_from_sound [OF s that])
      (use c P_Burn_From in \<open>simp add: free_balance_def reserved_balance_def account_of_datas amt_def\<close>)
  then show ?thesis by (auto intro!: settle_result_sound [OF s] simp: P_Burn_From no_drop_def)
next
  case (P_Set_Balance a f r)
  then show ?thesis using set_balance_sound [OF s] c by (auto intro!: settle_result_sound [OF s] simp: no_drop_def)
next
  case (P_Deposit_Creating a v)
  then show ?thesis using deposit_creating_sound [OF s] c by simp
next
  case (P_Make_Free a v)
  then show ?thesis using make_free_balance_be_sound [OF s] c by simp
next
  case (P_Slash a v)
  then show ?thesis using slash_sound [OF s] c by simp
next
  case (P_Issue v)
  then show ?thesis using issue_sound(1) [OF s] c by simp
next
  case (P_Burn v)
  then show ?thesis using issue_sound(2) [OF s] c by simp
next
  case (P_Unreserve a v)
  then show ?thesis using unreserve_sound [OF s] c by simp
next
  case (P_Slash_Reserved a v)
  then show ?thesis using slash_reserved_sound [OF s] c by simp
next
  case (P_Unreserve_Named i a v)
  then show ?thesis using unreserve_named_sound [OF s] c by simp
next
  case (P_Slash_Reserved_Named i a v)
  then show ?thesis using slash_reserved_named_sound [OF s] c by simp
next
  case (P_Set_Lock i a v rs)
  then show ?thesis using locks_sound(1) [OF s] c by simp
next
  case (P_Extend_Lock i a v rs)
  then show ?thesis using locks_sound(2) [OF s] c by simp
next
  case (P_Remove_Lock i a)
  then show ?thesis using locks_sound(3) [OF s] c by simp
qed

lemma run_sound: "sound cfg s \<Longrightarrow> covered_run cfg xs s \<Longrightarrow> sound cfg (fold (settle cfg) xs s)"
  by (induction xs arbitrary: s) (auto simp: settle_sound)

lemma insert_account_eq:
  assumes "datas s who = default_data" "d \<noteq> default_data"
  obtains s1 where "insert_account who d s = (Inr (), s1)" "datas s1 = (datas s)(who := d)"
    "total_issuance s1 = total_issuance s"
proof -
  obtain x s1 where w: "write_back who (datas s who \<noteq> default_data) (Some d) s = (x, s1)" by fastforce
  have "x = Inr ()" using write_back_cases(2) [OF w] by (cases x) auto
  then show thesis
    using that [of s1] w write_back_cases(1,3) [OF w] assms(1)
    by (simp add: insert_account_def try_mutate_exists_def stored_data_datas)
qed

lemma insert_accounts_eq:
  assumes "\<forall>(who, n)\<in>set bs. datas s who = default_data \<and> 0 < n \<and> existential_deposit cfg \<le> n" "distinct (map fst bs)"
    "finite (acc.holders s)" "\<forall>a. datas s a = default_data \<or> existential_deposit cfg \<le> amt (datas s a)"
  shows "\<exists>s'. insert_accounts bs s = Some s' \<and> finite (acc.holders s') \<and>
    acc.held_sum s' = acc.held_sum s + sum_list (map snd bs) \<and> total_issuance s' = total_issuance s \<and>
    (\<forall>a. datas s' a = default_data \<or> existential_deposit cfg \<le> amt (datas s' a))"
  using assms
proof (induction bs arbitrary: s)
  case (Cons b bs)
  obtain who n where b: "b = (who, n)" by fastforce
  let ?d = "default_data\<lparr>free := n\<rparr>"
  have new: "datas s who = default_data" "0 < n" "existential_deposit cfg \<le> n" using Cons.prems(1) by (auto simp: b)
  have d: "?d \<noteq> default_data" "amt ?d = n" using new(2) by (auto simp: default_data_def amt_def)
  obtain s1 where s1: "insert_account who ?d s = (Inr (), s1)" "datas s1 = (datas s)(who := ?d)"
    "total_issuance s1 = total_issuance s" by (rule insert_account_eq [OF new(1) d(1)])
  note up = acc.view_update [OF Cons.prems(3) s1(2)]
  have held: "acc.held_sum s1 = acc.held_sum s + n" using up(2) new(1) d(2) acc.amount_default by simp
  have "\<exists>s'. insert_accounts bs s1 = Some s' \<and> finite (acc.holders s') \<and>
    acc.held_sum s' = acc.held_sum s1 + sum_list (map snd bs) \<and> total_issuance s' = total_issuance s1 \<and>
    (\<forall>a. datas s' a = default_data \<or> existential_deposit cfg \<le> amt (datas s' a))"
  proof (rule Cons.IH)
    show "\<forall>(who, n)\<in>set bs. datas s1 who = default_data \<and> 0 < n \<and> existential_deposit cfg \<le> n"
      using Cons.prems(1,2) by (auto simp: s1(2) b rev_image_eqI)
    show "\<forall>a. datas s1 a = default_data \<or> existential_deposit cfg \<le> amt (datas s1 a)"
      using Cons.prems(4) new(3) d(2) by (simp add: s1(2))
  qed (use Cons.prems(2) up(1) in auto)
  then show ?case using s1 held by (auto simp: b)
qed simp

lemma fold_issuance:
  "acc + sum_list (map snd bs) \<le> max_balance \<Longrightarrow>
     foldl (\<lambda>acc (_, n). wrapping_add acc n) acc bs = acc + sum_list (map snd bs)"
  by (induction bs arbitrary: acc) (auto simp: wrapping_add_small add.assoc)

lemma genesis_sound:
  fixes s :: "'a chain_state"
  assumes "genesis_build cfg bs = Some s" "0 < existential_deposit cfg" "sum_list (map snd bs) \<le> max_balance"
  shows "sound cfg s"
proof -
  let ?s0 = "(empty_state :: 'a chain_state)\<lparr>total_issuance := sum_list (map snd bs)\<rparr>"
  obtain s1 where g: "insert_accounts bs ?s0 = Some s1" "s = s1\<lparr>events := []\<rparr>"
    "list_all (\<lambda>(_, b). existential_deposit cfg \<le> b) bs" "distinct (map fst bs)"
    using assms fold_issuance [of 0 bs] by (auto simp: genesis_build_def Let_def split: if_splits)
  have e: "datas ?s0 a = default_data" for a by (simp add: datas_def get_account_def empty_state_def default_info_def)
  then have h: "acc.holders ?s0 = {}" "acc.held_sum ?s0 = 0" by (simp_all add: acc.holders_def acc.held_sum_def)
  have "\<forall>(who, n)\<in>set bs. datas ?s0 who = default_data \<and> 0 < n \<and> existential_deposit cfg \<le> n"
    using g(3) assms(2) e by (auto simp: list_all_iff)
  from insert_accounts_eq [OF this g(4)] g(1) h e
  have "sound cfg s1" using assms(3) by (intro soundI) auto
  then show ?thesis by (rule sound_same) (simp_all add: g(2))
qed

section \<open>Properties\<close>


definition example_config :: config where
  "example_config = \<lparr>existential_deposit = 10, max_locks = 50, max_reserves = 50\<rparr>"

definition example_info :: "nat \<Rightarrow> account_info" where
  "example_info n = default_info\<lparr>providers := 1, acc_data := default_data\<lparr>free := n\<rparr>\<rparr>"

definition example_state :: "nat chain_state" where
  "example_state = empty_state\<lparr>account := [1 \<mapsto> example_info 100, 2 \<mapsto> example_info 50],
     total_issuance := 150\<rparr>"

lemma example_genesis: "genesis_build example_config [(1, 100), (2, 50)] = Some example_state"
  by (simp add: genesis_build_def example_config_def wrapping_add_def insert_account_def try_mutate_exists_def stored_data_def
      get_account_def empty_state_def default_info_def is_providing_def write_back_def inc_providers_def set_data_def put_account_def
      on_created_account_def deposit_event_def default_data_def example_state_def example_info_def fun_eq_iff)


lemma nested_Inl:
  assumes n: "nested cfg drp a b (\<lambda>_. None) h k to_of s = (Inl e, s')" and ab: "a \<noteq> b"
    and h: "\<And>x fr. h s (datas s b) (datas s a) = Inr (x, fr) \<Longrightarrow>
      amt fr \<le> max_balance \<and> amt (to_of x) \<le> max_balance \<and> existential_deposit cfg \<le> amt (to_of x) \<and>
      (existential_deposit cfg \<le> amt fr \<or> datas s a = default_data \<or> can_dec_provider s a)"
  shows "h s (datas s b) (datas s a) = Inl e \<and> s' = s"
proof -
  let ?g = "\<lambda>from_account (_ :: bool) s1. (h s1 (datas s b) from_account, s1)"
  let ?f = "\<lambda>to_account (is_new :: bool) s0.
         (case try_mutate_account_with_dust cfg no_drop a (\<lambda>from_account _ s1. (h s1 to_account from_account, s1)) s0 of
                (Inl e, s2) \<Rightarrow> (Inl e, s2)
              | (Inr (x, c), s2) \<Rightarrow> (Inr (k x c, to_of x), s2))"
  have m: "try_mutate_account_with_dust cfg drp b ?f s = (Inl e, s')" using n by (simp add: nested_def)
  have inner: "datas s1 b = datas s b \<and> amt (to_of x) \<le> max_balance \<and> existential_deposit cfg \<le> amt (to_of x)"
    if i: "try_mutate_account_with_dust cfg no_drop a ?g s = (Inr (x, c), s1)" for x c s1
  proof -
    obtain z where z: "h s (datas s b) (datas s a) = z" by blast
    then have "z \<noteq> Inl e'" for e' using i with_dust_Inl [of ?g s a e' s] by auto
    then obtain x' fr where hh: "h s (datas s b) (datas s a) = Inr (x', fr)" using z by (cases z) auto
    then have "?g (datas s a) (datas s a = default_data) s = (Inr (x', fr), s)" by simp
    from with_dust_Inr [OF this refl _ i] h [OF hh] ab show ?thesis by auto
  qed
  have "?f (datas s b) (datas s b = default_data) s = (Inl e, s')"
    by (rule with_dust_InlE [OF m]) (use inner in \<open>auto split: prod.splits sum.splits\<close>)
  then have "try_mutate_account_with_dust cfg no_drop a ?g s = (Inl e, s')" by (auto split: prod.splits sum.splits)
  then have "?g (datas s a) (datas s a = default_data) s = (Inl e, s')"
    by (rule with_dust_InlE) (use h in auto)
  then show ?thesis by (auto dest: sym)
qed

lemma transfer_Inl:
  assumes "sound cfg s" "v \<noteq> 0" "a \<noteq> b" "transfer cfg a b v er s = (Inl e, s')"
  shows "transfer_accounts cfg s a v er (datas s b) (datas s a) = Inl e \<and> s' = s"
proof -
  have n: "nested cfg drop_dust_cleaner a b (\<lambda>_. None) (\<lambda>s1 to_account. transfer_accounts cfg s1 a v er to_account)
      (\<lambda>_ c. c) (\<lambda>x. x) s = (Inl e, s')"
    using assms(4) by (auto simp: transfer_nested [OF assms(2,3)] split: prod.splits sum.splits)
  note pair = sound_pair [OF assms(1,3)] soundD(3) [OF assms(1)]
  have "amt f' \<le> max_balance \<and> amt t' \<le> max_balance \<and> existential_deposit cfg \<le> amt t' \<and>
      (existential_deposit cfg \<le> amt f' \<or> datas s a = default_data \<or> can_dec_provider s a)"
    if "transfer_accounts cfg s a v er (datas s b) (datas s a) = Inr (t', f')" for t' f'
  proof -
    note tr = transfer_accounts_Inr [OF that]
    have "amt f' \<le> max_balance" "amt t' \<le> max_balance" using tr pair by (auto simp: amt_def)
    then show ?thesis using tr by (auto simp: total_amt)
  qed
  from nested_Inl [OF n assms(3) this] show ?thesis by auto
qed

text \<open>C3: A transfer of a positive amount between different accounts succeeds exactly if the
  sender has the funds, keeps what its locks freeze, the receiver ends with at least the
  existential deposit, and the sender does too unless it may die. It then moves exactly the
  amount, burning what is left of the sender below the existential deposit, and touches no
  other account; when it fails, nothing has changed.\<close>

theorem transfer_exact:
  assumes "sound cfg s" "0 < v" "a \<noteq> b"
  shows "case transfer cfg a b v er s of
      (Inl e, s') \<Rightarrow> s' = s \<and>
        \<not> (v \<le> free_balance s a \<and> misc_frozen (account_of s a) \<le> free_balance s a - v \<and>
           existential_deposit cfg \<le> free_balance s b + v + reserved_balance s b \<and>
           (er = AllowDeath \<and> can_dec_provider s a \<or>
            existential_deposit cfg \<le> free_balance s a - v + reserved_balance s a))
    | (Inr _, s') \<Rightarrow>
        v \<le> free_balance s a \<and> misc_frozen (account_of s a) \<le> free_balance s a - v \<and>
        existential_deposit cfg \<le> free_balance s b + v + reserved_balance s b \<and>
        (er = AllowDeath \<and> can_dec_provider s a \<or>
           existential_deposit cfg \<le> free_balance s a - v + reserved_balance s a) \<and>
        account_of s' b = (account_of s b)\<lparr>free := free_balance s b + v\<rparr> \<and>
        account_of s' a = (if free_balance s a - v + reserved_balance s a < existential_deposit cfg then default_data
          else (account_of s a)\<lparr>free := free_balance s a - v\<rparr>) \<and>
        (\<forall>c. c \<noteq> a \<and> c \<noteq> b \<longrightarrow> account_of s' c = account_of s c) \<and>
        total_issuance s' = total_issuance s -
          (if free_balance s a - v + reserved_balance s a < existential_deposit cfg
           then free_balance s a - v + reserved_balance s a else 0)"
proof -
  obtain x s' where t: "transfer cfg a b v er s = (x, s')" by fastforce
  have v: "v \<noteq> 0" using assms(2) by simp
  show ?thesis
  proof (cases x)
    case (Inr u)
    from transfer_Inr [OF assms(1) v assms(3) t [unfolded Inr]] show ?thesis using assms(3)
      by (simp add: t Inr account_of_datas free_balance_def reserved_balance_def kept_def dust_def amt_def)
  next
    case (Inl e)
    note pair = sound_pair [OF assms(1,3)] soundD(3) [OF assms(1)]
    have "transfer_accounts cfg s a v er (datas s b) (datas s a) = Inl e" "s' = s"
      using transfer_Inl [OF assms(1) v assms(3) t [unfolded Inl]] by auto
    moreover have "total ((datas s b)\<lparr>free := free (datas s b) + v\<rparr>) = free (datas s b) + v + reserved (datas s b)"
      "total ((datas s a)\<lparr>free := free (datas s a) - v\<rparr>) = free (datas s a) - v + reserved (datas s a)"
      "free (datas s b) + v \<le> max_balance" if "v \<le> free (datas s a)"
      using pair that by (auto simp: total_def saturating_add_def amt_def)
    moreover have "reasons_from TRANSFER = Reasons_Misc" by (simp add: reasons_from_def TRANSFER_def TRANSACTION_PAYMENT_def)
    ultimately show ?thesis
      by (auto simp: t Inl account_of_datas free_balance_def reserved_balance_def transfer_accounts_def checked_sub_def
          checked_add_def Let_def ensure_can_withdraw_def split: if_splits sum.splits)
  qed
qed

lemma example_sound: "sound example_config example_state"
  by (rule genesis_sound [OF example_genesis]) (simp_all add: example_config_def max_balance_def)

lemmas example_defs = example_config_def example_state_def example_info_def get_account_def account_of_def default_info_def
  default_data_def free_balance_def reserved_balance_def can_dec_provider_def

theorem transfer_exact_witness:
  "\<exists>s'. transfer example_config 1 2 95 AllowDeath example_state = (Inr (), s') \<and>
     account_of s' 1 = default_data \<and> free_balance s' 2 = 145 \<and> total_issuance s' = 145"
proof -
  obtain x s' where t: "transfer example_config 1 2 95 AllowDeath example_state = (x, s')" by fastforce
  show ?thesis
    using transfer_exact [OF example_sound, of 95 1 2 AllowDeath] t
    by (cases x) (auto simp: example_defs)
qed

subsection \<open>Reserving\<close>

lemma mutate_total:
  assumes "f (datas s who) (datas s who = default_data) s = (Inr (r, d), s1)"
    "datas s1 = datas s" "total_issuance s1 = total_issuance s" "frame_eq s s1"
    "amt d \<le> max_balance" "existential_deposit cfg \<le> amt d"
  obtains s2 where "try_mutate_account cfg drp who f s = (Inr r, s2)" "datas s2 = (datas s)(who := d)"
    "total_issuance s2 = total_issuance s" "frame_eq s s2"
proof -
  obtain x s2 where m: "try_mutate_account cfg drp who f s = (x, s2)" by fastforce
  have "x \<noteq> Inl e" for e
  proof
    assume "x = Inl e"
    from mutate_InlE [OF m [unfolded this]] assms show False by auto
  qed
  then obtain r' where x: "x = Inr r'" by (cases x) auto
  note mu = mutate_Inr [OF assms(1,2,5) m [unfolded x]]
  have "kept cfg d = d" "dust cfg d = 0" using assms(6) by (simp_all add: kept_def dust_def)
  then show thesis using that [of s2] m x mu assms(3,4) frame_eq_trans by (auto simp: no_drop_def)
qed

lemma mutate_ok:
  assumes "try_mutate_account cfg drp who f s = (Inr r, s2)"
  shows "\<exists>r' d s1. f (datas s who) (datas s who = default_data) s = (Inr (r', d), s1)"
proof -
  obtain x s1 where f: "f (datas s who) (datas s who = default_data) s = (x, s1)" by fastforce
  then show ?thesis using mutate_Inl [of f s who] assms by (cases x) auto
qed

text \<open>C32: Reserving is undone by unreserving: after a successful reservation, unreserving the
  same amount leaves no remainder and restores every account and the total issuance.\<close>

theorem reserve_unreserve:
  assumes "sound cfg s" "reserve cfg who v s = (Inr (), s1)"
  shows "fst (unreserve cfg who v s1) = 0 \<and>
    (\<forall>a. account_of (snd (unreserve cfg who v s1)) a = account_of s a) \<and>
    total_issuance (snd (unreserve cfg who v s1)) = total_issuance s"
proof (cases "v = 0")
  case False
  let ?d = "datas s who"
  let ?d1 = "?d\<lparr>free := free ?d - v, reserved := reserved ?d + v\<rparr>"
  let ?f = "\<lambda>acc (_ :: bool) s.
      (bindR (ok_or (checked_sub (free acc) v) (Module InsufficientBalance)) (\<lambda>new_free.
       bindR (ok_or (checked_add (reserved acc) v) (Arithmetic Overflow)) (\<lambda>new_reserved.
       bindR (ensure_can_withdraw s who v RESERVE new_free) (\<lambda>_.
         Inr ((), acc\<lparr>free := new_free, reserved := new_reserved\<rparr>)))), s)"
  obtain s0 where m: "try_mutate_account cfg no_drop who ?f s = (Inr (), s0)" "s1 = deposit_event (Reserved_Event who v) s0"
    using assms(2) False by (auto simp: reserve_def split: prod.splits sum.splits)
  have ok: "?f ?d (?d = default_data) s = (Inr ((), ?d1), s)" and v: "v \<le> free ?d"
    using mutate_ok [OF m(1)] by (auto simp: checked_sub_def checked_add_def ok_or_def bindR_def split: if_splits sum.splits option.splits)
  have amt: "amt ?d1 = amt ?d" using v by (simp add: amt_def)
  have "?d \<noteq> default_data" using v False by (auto simp: default_data_def)
  then have ed: "existential_deposit cfg \<le> amt ?d" using soundD(4) [OF assms(1), of who] by blast
  note le = sound_amt [OF assms(1), of who]
  obtain s0' where "try_mutate_account cfg no_drop who ?f s = (Inr (), s0')" "datas s0' = (datas s)(who := ?d1)"
    "total_issuance s0' = total_issuance s"
    by (rule mutate_total [where f = ?f and who = who, OF ok]) (use amt ed le in auto)
  then have s1: "datas s1 = (datas s)(who := ?d1)" "total_issuance s1 = total_issuance s" using m by auto
  let ?g = "\<lambda>acc (_ :: bool) s. (Inr ((\<lambda>acc. let actual = min (reserved acc) v in
      (actual, acc\<lparr>reserved := reserved acc - actual, free := saturating_add (free acc) actual\<rparr>)) acc), s)"
  have g: "?g (datas s1 who) (datas s1 who = default_data) s1 = (Inr (v, ?d), s1)"
    using v le by (simp add: s1 Let_def saturating_add_def amt_def)
  obtain s2 where s2: "try_mutate_account cfg no_drop who ?g s1 = (Inr v, s2)" "datas s2 = (datas s1)(who := ?d)"
    "total_issuance s2 = total_issuance s1"
    by (rule mutate_total [where f = ?g and who = who, OF g]) (use ed le in auto)
  have "total_balance s1 who \<noteq> 0" using v False le by (simp add: total_balance_def account_of_datas s1 total_def saturating_add_def amt_def)
  then show ?thesis using s2 s1 False by (simp add: unreserve_def mutate_account_def account_of_datas)
qed (use assms in \<open>simp add: reserve_def unreserve_def\<close>)

lemma example_reserve:
  obtains s1 where "reserve example_config 1 5 example_state = (Inr (), s1)" "account_of s1 1 = default_data\<lparr>free := 95, reserved := 5\<rparr>" "can_dec_provider s1 1"
proof -
  let ?r = "reserve example_config 1 5 example_state"
  have "fst ?r = Inr ()" "account_of (snd ?r) 1 = default_data\<lparr>free := 95, reserved := 5\<rparr>" "can_dec_provider (snd ?r) 1"
    by (simp_all add: reserve_def try_mutate_account_def try_mutate_account_with_dust_def try_mutate_exists_def stored_data_def
        is_providing_def post_mutation_def total_def saturating_add_def checked_sub_def checked_add_def max_balance_def ensure_can_withdraw_def
        reasons_from_def RESERVE_def TRANSACTION_PAYMENT_def write_back_def set_data_def put_account_def deposit_event_def example_defs)
  then show thesis by (intro that [of "snd ?r"]) (metis prod.collapse)
qed

theorem reserve_unreserve_witness:
  "\<exists>s1. reserve example_config 1 5 example_state = (Inr (), s1) \<and> fst (unreserve example_config 1 5 s1) = 0 \<and>
     (\<forall>a. account_of (snd (unreserve example_config 1 5 s1)) a = account_of example_state a)"
proof -
  obtain s1 where r: "reserve example_config 1 5 example_state = (Inr (), s1)" by (rule example_reserve)
  show ?thesis using r reserve_unreserve [OF example_sound r] by blast
qed

text \<open>When sender and receiver of reserved funds are the same account and the funds stay
  reserved, the remainder that is returned is the amount covered by the reserve instead of
  the amount not covered, as it is when the funds become free.\<close>

theorem repatriate_to_self:
  assumes "sound cfg s" "0 < v" "v \<le> reserved_balance s a"
  shows "fst (repatriate_reserved cfg a a v Status_Free s) = Inr 0 \<and>
    repatriate_reserved cfg a a v Status_Reserved s = (Inr v, s)"
proof -
  let ?d = "datas s a"
  have v: "v \<le> reserved ?d" using assms(3) by (simp add: reserved_balance_def account_of_datas)
  then have "?d \<noteq> default_data" using assms(2) by (auto simp: default_data_def)
  then have ed: "existential_deposit cfg \<le> amt ?d" using soundD(4) [OF assms(1), of a] by blast
  note le = sound_amt [OF assms(1), of a]
  let ?d1 = "?d\<lparr>reserved := reserved ?d - v, free := free ?d + v\<rparr>"
  let ?g = "\<lambda>acc (_ :: bool) s. (Inr ((\<lambda>acc. let actual = min (reserved acc) v in
      (actual, acc\<lparr>reserved := reserved acc - actual, free := saturating_add (free acc) actual\<rparr>)) acc), s)"
  have g: "?g ?d (?d = default_data) s = (Inr (v, ?d1), s)"
    using v le by (simp add: Let_def saturating_add_def amt_def)
  obtain s2 where s2: "try_mutate_account cfg no_drop a ?g s = (Inr v, s2)"
    by (rule mutate_total [where f = ?g and who = a, OF g]) (use v ed le in \<open>auto simp: amt_def\<close>)
  have "total_balance s a \<noteq> 0" using v assms(2) by (simp add: total_balance_def account_of_datas total_def saturating_add_def max_balance_def)
  then have "fst (unreserve cfg a v s) = 0" using s2 assms(2) by (simp add: unreserve_def mutate_account_def)
  then show ?thesis using assms(2,3)
    by (simp add: repatriate_reserved_def do_transfer_reserved_def saturating_sub_def split: prod.splits) auto
qed
theorem repatriate_to_self_witness:
  "\<exists>s1. reserve example_config 1 5 example_state = (Inr (), s1) \<and>
     fst (repatriate_reserved example_config 1 1 3 Status_Free s1) = Inr 0 \<and>
     repatriate_reserved example_config 1 1 3 Status_Reserved s1 = (Inr 3, s1)"
proof -
  obtain s1 where r: "reserve example_config 1 5 example_state = (Inr (), s1)" and b: "account_of s1 1 = default_data\<lparr>free := 95, reserved := 5\<rparr>"
    by (rule example_reserve)
  show ?thesis using r b repatriate_to_self [OF reserve_sound [OF example_sound r], of 3 1] by (simp add: reserved_balance_def)
qed

subsection \<open>Locks\<close>

lemma lock_frozen_misc:
  "l \<in> set ls \<Longrightarrow> lock_reasons l \<noteq> Reasons_Fee \<Longrightarrow> lock_amount l \<le> misc_frozen (lock_frozen ls d)"
proof -
  let ?g = "\<lambda>b l. let b1 = (if lock_reasons l = Reasons_All \<or> lock_reasons l = Reasons_Misc
        then b\<lparr>misc_frozen := max (misc_frozen b) (lock_amount l)\<rparr> else b)
      in if lock_reasons l = Reasons_All \<or> lock_reasons l = Reasons_Fee
         then b1\<lparr>fee_frozen := max (fee_frozen b1) (lock_amount l)\<rparr> else b1"
  have mono: "misc_frozen b \<le> misc_frozen (foldl ?g b ls)" for b :: account_data and ls
  proof (induction ls arbitrary: b)
    case (Cons x ls)
    have "misc_frozen b \<le> misc_frozen (?g b x)" by (cases "lock_reasons x") (auto simp: Let_def)
    from le_trans [OF this Cons.IH] show ?case by (simp only: foldl.simps)
  qed simp
  have "lock_amount l \<le> misc_frozen (foldl ?g b ls)" if "l \<in> set ls" "lock_reasons l \<noteq> Reasons_Fee" for b :: account_data
    using that
  proof (induction ls arbitrary: b)
    case (Cons x ls)
    show ?case
    proof (cases "x = l")
      case True
      have "lock_amount l \<le> misc_frozen (?g b l)" using Cons.prems(2) by (cases "lock_reasons l") (auto simp: Let_def)
      from le_trans [OF this mono] show ?thesis by (simp only: foldl.simps True)
    next
      case False
      then have "l \<in> set ls" using Cons.prems(1) by simp
      from Cons.IH [OF this Cons.prems(2), of "?g b x"] show ?thesis by (simp only: foldl.simps)
    qed
  qed simp
  then show "l \<in> set ls \<Longrightarrow> lock_reasons l \<noteq> Reasons_Fee \<Longrightarrow> ?thesis" by (simp add: lock_frozen_def)
qed

lemma replace_lock_new: "l \<in> set (replace_lock ident (\<lambda>_. l) (Some l) ls)"
  by (induction ls) auto

lemma update_locks_data:
  assumes "sound cfg s" "datas s who \<noteq> default_data"
  shows "datas (update_locks cfg who ls s) = (datas s)(who := lock_frozen ls (datas s who))"
proof -
  let ?f = "\<lambda>acc (_ :: bool) s. (Inr ((\<lambda>b. ((), lock_frozen ls b)) acc), s)"
  have f: "?f (datas s who) (datas s who = default_data) s = (Inr ((), lock_frozen ls (datas s who)), s)" by simp
  obtain s2 where "try_mutate_account cfg no_drop who ?f s = (Inr (), s2)"
    "datas s2 = (datas s)(who := lock_frozen ls (datas s who))"
    by (rule mutate_total [where f = ?f and who = who, OF f])
      (use soundD(4) [OF assms(1), of who] assms(2) sound_amt [OF assms(1), of who] in \<open>auto simp: amt_def\<close>)
  then show ?thesis by (simp add: update_locks_def mutate_account_def Let_def)
qed

text \<open>C23: Funds that are locked for anything but fees only cannot be transferred: once a
  lock of \<open>v\<close> is set on a funded account, its balances are what they were, and every transfer
  that would leave less than \<open>v\<close> free fails and changes nothing, whatever locks there were.\<close>

theorem lock_blocks_transfer:
  assumes "sound cfg s" "account_of s a \<noteq> default_data" "0 < v" "reasons_from rs \<noteq> Reasons_Fee" "rs \<noteq> 0"
    "0 < w" "a \<noteq> b" "free_balance s a < v + w"
  shows "let s' = set_lock cfg ident a v rs s in
    free_balance s' a = free_balance s a \<and> reserved_balance s' a = reserved_balance s a \<and>
    (\<exists>e. transfer cfg a b w er s' = (Inl e, s'))"
proof -
  let ?l = "\<lparr>lock_id = ident, lock_amount = v, lock_reasons = reasons_from rs\<rparr>"
  let ?ls = "replace_lock ident (\<lambda>_. ?l) (Some ?l) (locks_of s a)"
  define s' where "s' = set_lock cfg ident a v rs s"
  have "datas s a \<noteq> default_data" using assms(2) by (simp add: account_of_datas)
  from update_locks_data [OF assms(1) this, of ?ls]
  have d: "datas s' = (datas s)(a := lock_frozen ?ls (datas s a))"
    using assms(3,5) by (simp add: s'_def set_lock_def Let_def)
  have v: "v \<le> misc_frozen (lock_frozen ?ls (datas s a))"
    using lock_frozen_misc [OF replace_lock_new, of ?l ident "locks_of s a"] assms(4) by simp
  have snd: "sound cfg s'" unfolding s'_def by (rule locks_sound [OF assms(1)])
  have w: "w \<noteq> 0" using assms(6) by simp
  obtain x s2 where t: "transfer cfg a b w er s' = (x, s2)" by fastforce
  have "\<exists>e. x = Inl e"
  proof (cases x)
    case (Inr u)
    from transfer_Inr(1,2) [OF snd w assms(7) t [unfolded Inr]] d v assms(8)
    show ?thesis by (simp add: free_balance_def account_of_datas)
  qed simp
  then obtain e where e: "x = Inl e" by blast
  from transfer_Inl [OF snd w assms(7) t [unfolded e]] t e d show ?thesis
    by (simp add: s'_def [symmetric] free_balance_def reserved_balance_def account_of_datas)
qed

theorem lock_blocks_transfer_witness:
  "let s' = set_lock example_config 7 1 80 TRANSFER example_state in
    free_balance s' 1 = 100 \<and> (\<exists>e. transfer example_config 1 2 30 AllowDeath s' = (Inl e, s'))"
  using lock_blocks_transfer [OF example_sound, of 1 80 TRANSFER 30 2 7 AllowDeath]
  by (simp add: Let_def example_defs TRANSFER_def reasons_from_def TRANSACTION_PAYMENT_def)

subsection \<open>Where the books come out wrong\<close>

text \<open>A write that the reference counters refuse: the result of the closure and the dust are
  dropped on the way out.\<close>

lemma mutate_refused:
  assumes "f (datas s who) (datas s who = default_data) s = (Inr (r, d), s)" "datas s who \<noteq> default_data"
    "amt d \<le> max_balance" "amt d < existential_deposit cfg" "\<not> can_dec_provider s who" "account s who \<noteq> None"
    "providers (get_account s who) = 1"
  shows "try_mutate_account cfg drp who f s =
    (Inl ConsumerRemaining, drp r (drop_option drop_negative (snd (post_mutation cfg d)) s))"
proof -
  have "fst (post_mutation cfg d) = None" using assms(3,4) by (simp add: post_mutation_kept)
  moreover have "dec_providers who s = (Inl ConsumerRemaining, s)"
    using assms(5,6,7) by (auto simp: dec_providers_def can_dec_provider_def get_account_def Let_def split: option.splits)
  ultimately show ?thesis
    using assms(1,2) by (simp add: try_mutate_account_def try_mutate_account_with_dust_def try_mutate_exists_def
        stored_data_datas Let_def write_back_def)
qed

text \<open>C37: Slashing an account that other pallets still refer to, down to below the existential
  deposit, takes the amount out of the issuance twice: the first attempt is refused by the
  system pallet, but the imbalance and the dust it produced are dropped, so the issuance
  falls short of what the accounts hold by the whole free balance.\<close>

theorem slash_charges_twice:
  assumes "sound cfg s" "account s a = Some i" "providers i = 1" "0 < consumers i" "reserved_balance s a = 0"
    "0 < v" "v \<le> free_balance s a" "free_balance s a < v + existential_deposit cfg"
    "2 * free_balance s a \<le> total_issuance s"
  shows "let s' = settle cfg (P_Slash a v) s in total_issuance s' + free_balance s a = held s'"
proof -
  let ?d = "datas s a" let ?f = "free (datas s a)" let ?ed = "existential_deposit cfg"
  let ?g = "\<lambda>first acc (_ :: bool) s. (Inr (slash_account cfg first v acc), s)"
  have f: "free_balance s a = ?f" "reserved ?d = 0" "v \<le> ?f" "?f - v < ?ed" "2 * ?f \<le> total_issuance s"
    using assms(5,7,8,9) by (simp_all add: free_balance_def reserved_balance_def account_of_datas)
  have nd: "?d \<noteq> default_data" using f(3) assms(6) by (auto simp: default_data_def)
  have ed: "?ed \<le> ?f" using soundD(4) [OF assms(1), of a] nd f(2) by (simp add: amt_def)
  note le = sound_amt [OF assms(1), of a]
  have cd: "\<not> can_dec_provider s a" "account s a \<noteq> None" "providers (get_account s a) = 1"
    using assms(2,3,4) by (simp_all add: can_dec_provider_def get_account_def)
  let ?d1 = "?d\<lparr>free := ?f - v\<rparr>"
  have 1: "?g True ?d (?d = default_data) s = (Inr ((NegativeImbalance v, 0), ?d1), s)"
    using f(3) by (simp add: slash_account_def best_slash_def Let_def)
  define s1 :: "'a chain_state" where
    "s1 = drop_slash (NegativeImbalance v, 0) (drop_option drop_negative (snd (post_mutation cfg ?d1)) s)"
  have s1: "try_mutate_account cfg drop_slash a (?g True) s = (Inl ConsumerRemaining, s1)"
    unfolding s1_def
    by (rule mutate_refused [where f = "?g True", OF 1 nd _ _ cd]) (use f le in \<open>simp_all add: amt_def\<close>)
  have "total ?d1 = ?f - v" using f le by (simp add: total_def saturating_add_def amt_def)
  then have s1d: "datas s1 = datas s" "total_issuance s1 = total_issuance s - ?f"
    using f by (auto simp: s1_def drop_slash_def drop_option_def post_mutation_def)
  let ?d2 = "?d\<lparr>free := ?ed\<rparr>"
  have best: "min v (?f - ?ed) = ?f - ?ed" "min ?f (?f - ?ed) = ?f - ?ed" using f(3,4) by simp_all
  have "wrapping_add ?f (reserved ?d) = ?f" using f(2) le by (simp add: wrapping_add_def amt_def max_balance_def)
  then have 2: "?g False (datas s1 a) (datas s1 a = default_data) s1 = (Inr ((NegativeImbalance (?f - ?ed), v - (?f - ?ed)), ?d2), s1)"
    using f(2) ed best by (simp add: s1d slash_account_def best_slash_def Let_def saturating_sub_def)
  obtain s2 where s2: "try_mutate_account cfg drop_slash a (?g False) s1 = (Inr (NegativeImbalance (?f - ?ed), v - (?f - ?ed)), s2)"
    "datas s2 = (datas s1)(a := ?d2)" "total_issuance s2 = total_issuance s1"
    by (rule mutate_total [where f = "?g False" and who = a, OF 2]) (use f(2) ed le in \<open>auto simp: amt_def\<close>)
  have tb: "total_balance s a \<noteq> 0" using f(2,3) assms(6) le by (simp add: total_balance_def account_of_datas total_def saturating_add_def amt_def)
  define s' where "s' = settle cfg (P_Slash a v) s"
  have s': "datas s' = (datas s)(a := ?d2)" "total_issuance s' = total_issuance s - ?f - (?f - ?ed)"
    using tb s1 s2 s1d assms(6) by (simp_all add: s'_def slash_def)
  have "held s' + ?f = held s + ?ed"
    using acc.view_update(2) [OF soundD(1) [OF assms(1)] s'(1)] f(2) by (simp add: held_eq amt_def)
  moreover have "held s = total_issuance s" using assms(1) by (simp add: sound_def)
  ultimately have "total_issuance s' + free_balance s a = held s'" using s'(2) f(1,5) ed by simp
  then show ?thesis unfolding s'_def Let_def .
qed

lemma example_consumer_sound: "sound example_config (snd (inc_consumers_without_limit 2 example_state))"
  by (rule sound_same [OF example_sound]) simp_all

theorem slash_charges_twice_witness:
  "let s = snd (inc_consumers_without_limit 2 example_state); s' = settle example_config (P_Slash 2 45) s in
    free_balance s 2 = 50 \<and> total_issuance s' + 50 = held s'"
proof -
  let ?s = "snd (inc_consumers_without_limit 2 example_state)"
  have "account ?s 2 = Some ((example_info 50)\<lparr>consumers := 1\<rparr>)"
    by (simp add: inc_consumers_without_limit_def put_account_def ref_saturating_inc_def max_ref_count_def example_defs)
  moreover have "free_balance ?s 2 = 50" "reserved_balance ?s 2 = 0" "total_issuance ?s = 150"
    by (simp_all add: inc_consumers_without_limit_def put_account_def example_defs)
  ultimately show ?thesis
    using slash_charges_twice [OF example_consumer_sound, of 2 "(example_info 50)\<lparr>consumers := 1\<rparr>" 45]
    by (simp add: Let_def example_config_def example_info_def default_info_def)
qed

text \<open>C39: \<open>burn_from\<close> on an account with a reserve that it would take below the existential
  deposit subtracts the whole total from the free balance alone: the free balance wraps
  around to the largest value that still adds up to \<open>2 ^ 128\<close> with the reserve.\<close>

theorem burn_from_wraps:
  assumes "sound cfg s" "0 < v" "v \<le> free_balance s a" "0 < reserved_balance s a"
    "frozen (account_of s a) Reasons_All \<le> free_balance s a - v"
    "free_balance s a - v + reserved_balance s a < existential_deposit cfg" "can_dec_provider s a"
  shows "fst (burn_from cfg a v s) = Inr (free_balance s a + reserved_balance s a) \<and>
    free_balance (snd (burn_from cfg a v s)) a = 2 ^ 128 - reserved_balance s a"
proof -
  let ?d = "datas s a"
  have f: "v \<le> free ?d" "0 < reserved ?d" "max (fee_frozen ?d) (misc_frozen ?d) \<le> free ?d - v" "free ?d - v + reserved ?d < existential_deposit cfg"
    using assms(3,4,5,6) by (simp_all add: free_balance_def reserved_balance_def account_of_datas max.commute)
  have nd: "?d \<noteq> default_data" using f(2) by (auto simp: default_data_def)
  have ed: "existential_deposit cfg \<le> amt ?d" using soundD(4) [OF assms(1), of a] nd by simp
  note le = sound_amt [OF assms(1), of a]
  have ti: "v \<le> total_issuance s" using soundD(5) [OF assms(1), of a] f(1) by (simp add: amt_def)
  have tot: "total ?d = free ?d + reserved ?d" using le by (simp add: total_def saturating_add_def amt_def)
  have "withdraw_consequence cfg s a v ?d = Wd_ReducedToZero (free ?d + reserved ?d - v)"
    using f ti tot assms(2,7) by (simp add: withdraw_consequence_def checked_sub_def Let_def not_less)
  moreover have "wrapping_add v (free ?d + reserved ?d - v) = free ?d + reserved ?d"
    using f le by (simp add: wrapping_add_def amt_def max_balance_def)
  moreover have "wrapping_sub (free ?d) (free ?d + reserved ?d) = 2 ^ 128 - reserved ?d"
    using f(2) le by (simp add: wrapping_sub_def amt_def max_balance_def)
  moreover let ?d1 = "?d\<lparr>free := 2 ^ 128 - reserved ?d\<rparr>"
  have "post_mutation cfg ?d1 = (Some ?d1, None)"
    using le ed by (simp add: post_mutation_def total_def saturating_add_def amt_def max_balance_def)
  ultimately show ?thesis
    using assms(2) nd
    by (simp add: burn_from_def try_mutate_account_def try_mutate_account_with_dust_def try_mutate_exists_def stored_data_datas
      Let_def write_back_def set_data_def free_balance_def reserved_balance_def account_of_datas)
qed

theorem burn_from_wraps_witness:
  "\<exists>s1. reserve example_config 1 5 example_state = (Inr (), s1) \<and>
     free_balance (snd (burn_from example_config 1 94 s1)) 1 = 2 ^ 128 - 5"
proof -
  obtain s1 where r: "reserve example_config 1 5 example_state = (Inr (), s1)"
    and a: "account_of s1 1 = default_data\<lparr>free := 95, reserved := 5\<rparr>" and c: "can_dec_provider s1 1"
    by (rule example_reserve)
  show ?thesis using r a c burn_from_wraps [OF reserve_sound [OF example_sound r], of 94 1]
    by (simp add: free_balance_def reserved_balance_def example_config_def default_data_def)
qed

end
