(* ===== verification/System_Refs.thy ===== *)
theory System_Refs
  imports System_Accounts
begin

text \<open>The reference counters of the system pallet as a transition system: every way in which the
  pallet changes an account is a step, in any order and on any account. What the counters are
  for holds in every reachable state: an account that is referred to has a provider, so no step
  removes it.\<close>

section \<open>Steps\<close>

inductive ref_step :: "nat \<Rightarrow> 'a chain_state \<Rightarrow> 'a chain_state \<Rightarrow> bool" for max_consumers where
  inc_providers: "ref_step max_consumers s (snd (inc_providers a s))"
| dec_providers: "ref_step max_consumers s (snd (dec_providers a s))"
| inc_sufficients: "ref_step max_consumers s (snd (inc_sufficients a s))"
| dec_sufficients: "ref_step max_consumers s (snd (dec_sufficients a s))"
| inc_consumers: "ref_step max_consumers s (snd (inc_consumers max_consumers a s))"
| inc_consumers_without_limit: "ref_step max_consumers s (snd (inc_consumers_without_limit a s))"
| dec_consumers: "ref_step max_consumers s (dec_consumers a s)"
| inc_account_nonce: "ref_step max_consumers s (inc_account_nonce a s)"
| write_back: "ref_step max_consumers s (snd (write_back a (stored_data s a \<noteq> None) d s))"

inductive_cases ref_stepE: "ref_step max_consumers s s'"

text \<open>A state that the steps lead to from one without accounts.\<close>

definition ref_reachable :: "nat \<Rightarrow> 'a chain_state \<Rightarrow> bool" where
  "ref_reachable max_consumers s \<longleftrightarrow> (\<exists>s0. account s0 = Map.empty \<and> (ref_step max_consumers)\<^sup>*\<^sup>* s0 s)"

section \<open>The invariant\<close>

definition info_ok :: "account_info \<Rightarrow> bool" where
  "info_ok i \<longleftrightarrow> (0 < consumers i \<longrightarrow> 0 < providers i) \<and>
     providers i \<le> max_ref_count \<and> sufficients i \<le> max_ref_count \<and> consumers i \<le> max_ref_count"

definition refs_ok :: "'a chain_state \<Rightarrow> bool" where
  "refs_ok s \<longleftrightarrow> (\<forall>a. info_ok (get_account s a))"

lemma info_ok_default [simp]: "info_ok default_info"
  by (simp add: info_ok_def default_info_def)

lemma max_ref_count_pos [simp]: "0 < max_ref_count" "Suc 0 \<le> max_ref_count"
  by (simp_all add: max_ref_count_def)

lemma get_account_simps [simp]:
  "get_account (put_account a i s) b = (if b = a then i else get_account s b)"
  "get_account (remove_account a s) b = (if b = a then default_info else get_account s b)"
  "get_account (deposit_event e s) b = get_account s b"
  by (simp_all add: get_account_def put_account_def remove_account_def deposit_event_def)

lemma account_simps [simp]:
  "account (put_account a i s) b = (if b = a then Some i else account s b)"
  "account (remove_account a s) b = (if b = a then None else account s b)"
  "account (deposit_event e s) = account s"
  by (simp_all add: put_account_def remove_account_def deposit_event_def)

lemma get_account_Some: "account s a = Some i \<Longrightarrow> get_account s a = i"
  by (simp add: get_account_def)

text \<open>What one step may do to an account: its counters stay in order, and an account that is
  referred to keeps a provider and stays in storage.\<close>

definition ref_change :: "account_info option \<Rightarrow> account_info option \<Rightarrow> bool" where
  "ref_change x y \<longleftrightarrow>
     (case y of None \<Rightarrow> (case x of None \<Rightarrow> True | Some i \<Rightarrow> consumers i = 0)
      | Some j \<Rightarrow> info_ok j \<and> (case x of None \<Rightarrow> True | Some i \<Rightarrow> 0 < consumers i \<longrightarrow> 0 < providers j))"

lemma refs_okD: "refs_ok s \<Longrightarrow> account s a = Some i \<Longrightarrow> info_ok i"
  unfolding refs_ok_def using get_account_Some by force

lemma ref_change_refl: "refs_ok s \<Longrightarrow> ref_change (account s a) (account s a)"
  using refs_okD [of s a] by (cases "account s a") (auto simp: ref_change_def info_ok_def)

lemma ref_change_put:
  assumes "refs_ok s" "info_ok i" "0 < consumers (get_account s a) \<Longrightarrow> 0 < providers i"
  shows "ref_change (account s b) (account (put_account a i s) b)"
proof (cases "b = a")
  case True
  then show ?thesis using assms(2,3) by (cases "account s a") (auto simp: ref_change_def get_account_def)
qed (use ref_change_refl [OF assms(1)] in simp)

lemma ref_change_remove:
  assumes "refs_ok s" "consumers (get_account s a) = 0"
  shows "ref_change (account s b) (account (remove_account a s) b)"
proof (cases "b = a")
  case True
  then show ?thesis using assms(2) by (cases "account s a") (auto simp: ref_change_def get_account_def)
qed (use ref_change_refl [OF assms(1)] in simp)

lemma refs_ok_get: "refs_ok s \<Longrightarrow> info_ok (get_account s a)"
  by (simp add: refs_ok_def)

lemma refs_ok_change:
  assumes "\<And>a. ref_change (account s a) (account s' a)"
  shows "refs_ok s'"
  unfolding refs_ok_def
proof
  fix a
  show "info_ok (get_account s' a)" using assms [of a] by (cases "account s' a") (auto simp: ref_change_def get_account_def)
qed

lemma refs_ok_event [simp]: "refs_ok (deposit_event e s) = refs_ok s"
  by (simp add: refs_ok_def)

text \<open>One lemma per operation: the counters it writes are in order.\<close>

lemma inc_providers_change: "refs_ok s \<Longrightarrow> ref_change (account s b) (account (snd (inc_providers a s)) b)"
  using refs_ok_get [of s a] ref_change_put [of "deposit_event (NewAccount a) s" _ a b] ref_change_put [of s _ a b]
  by (simp add: inc_providers_def Let_def on_created_account_def info_ok_def ref_saturating_inc_def)

lemma dec_providers_change: "refs_ok s \<Longrightarrow> ref_change (account s b) (account (snd (dec_providers a s)) b)"
proof (cases "account s a")
  case (Some i)
  assume s: "refs_ok s"
  show ?thesis
    using refs_okD [OF s Some] Some ref_change_refl [OF s, of b]
    by (cases "b = a") (auto simp: dec_providers_def Let_def on_killed_account_def info_ok_def ref_change_def)
qed (simp add: dec_providers_def ref_change_refl)

lemma inc_sufficients_change: "refs_ok s \<Longrightarrow> ref_change (account s b) (account (snd (inc_sufficients a s)) b)"
  using refs_ok_get [of s a] ref_change_put [of "deposit_event (NewAccount a) s" _ a b] ref_change_put [of s _ a b]
  by (simp add: inc_sufficients_def Let_def on_created_account_def info_ok_def ref_saturating_inc_def)

lemma dec_sufficients_change: "refs_ok s \<Longrightarrow> ref_change (account s b) (account (snd (dec_sufficients a s)) b)"
proof (cases "account s a")
  case (Some i)
  assume s: "refs_ok s"
  show ?thesis
    using refs_okD [OF s Some] Some ref_change_refl [OF s, of b]
    by (cases "b = a") (auto simp: dec_sufficients_def Let_def on_killed_account_def info_ok_def ref_change_def)
qed (simp add: dec_sufficients_def ref_change_refl)

lemma consumers_change:
  assumes "refs_ok s"
  shows "ref_change (account s b) (account (snd (inc_consumers m a s)) b)"
    "ref_change (account s b) (account (snd (inc_consumers_without_limit a s)) b)"
    "ref_change (account s b) (account (dec_consumers a s) b)"
    "ref_change (account s b) (account (inc_account_nonce a s) b)"
  using assms refs_ok_get [OF assms, of a]
  by (auto simp: inc_consumers_def inc_consumers_without_limit_def dec_consumers_def inc_account_nonce_def Let_def
      info_ok_def ref_saturating_inc_def simp del: account_simps intro!: ref_change_put ref_change_refl)

lemma set_data_change:
  assumes "ref_change (account s b) (account s1 b)" "b = a \<Longrightarrow> account s1 a \<noteq> None"
  shows "ref_change (account s b) (account (set_data a d s1) b)"
proof (cases "b = a")
  case True
  with assms(2) obtain j where "account s1 a = Some j" by auto
  then show ?thesis using assms(1) True by (auto simp: set_data_def get_account_def ref_change_def info_ok_def split: option.splits)
qed (use assms(1) in \<open>simp add: set_data_def\<close>)

lemma write_back_change:
  assumes "refs_ok s"
  shows "ref_change (account s b) (account (snd (write_back a (stored_data s a \<noteq> None) d s)) b)"
proof (cases "stored_data s a = None")
  case True
  have "account (snd (inc_providers a s)) a \<noteq> None" by (auto simp: inc_providers_def Let_def on_created_account_def)
  then have "ref_change (account s b) (account (set_data a d (snd (inc_providers a s))) b)"
    by (intro set_data_change inc_providers_change assms)
  then show ?thesis using True ref_change_refl [OF assms] by (simp add: write_back_def)
next
  case False
  then obtain i where i: "account s a = Some i"
    by (cases "account s a") (auto simp: stored_data_def Let_def get_account_def default_info_def is_providing_def)
  have e: "ref_change (account s b) (account (set_data a d s') b)" if "dec_providers a s = (Inr Exists, s')" for s'
  proof (rule set_data_change)
    show "ref_change (account s b) (account s' b)" using dec_providers_change [OF assms, of b a] that by simp
    show "account s' a \<noteq> None" using that i by (auto simp: dec_providers_def Let_def split: if_splits)
  qed
  have s: "ref_change (account s b) (account (set_data a d s) b)"
    by (rule set_data_change) (use i ref_change_refl [OF assms] in simp_all)
  have o: "ref_change (account s b) (account (snd (dec_providers a s)) b)" by (rule dec_providers_change [OF assms])
  show ?thesis using False e s o
    by (cases "dec_providers a s") (auto simp: write_back_def split: sum.splits dec_ref_status.splits)
qed

lemma ref_step_change:
  assumes "ref_step m s s'" "refs_ok s"
  shows "ref_change (account s a) (account s' a)"
  using assms
  by (elim ref_stepE; hypsubst)
    (intro inc_providers_change dec_providers_change inc_sufficients_change dec_sufficients_change
      consumers_change write_back_change [unfolded not_None_eq]; assumption)+

lemma ref_reachable_ok:
  assumes "ref_reachable m s"
  shows "refs_ok s"
proof -
  obtain s0 where s0: "account s0 = Map.empty" "(ref_step m)\<^sup>*\<^sup>* s0 s" using assms by (auto simp: ref_reachable_def)
  from s0(2) show ?thesis
  proof (induction rule: rtranclp_induct)
    case base
    show ?case using s0(1) by (simp add: refs_ok_def get_account_def)
  next
    case (step s1 s2)
    show ?case by (rule refs_ok_change) (rule ref_step_change [OF step(2,3)])
  qed
qed

section \<open>Properties\<close>

text \<open>C10: Whatever sequence of reference-counter operations and account writes leads to a state,
  an account with consumers has a provider, and no counter leaves the range of a 32-bit
  unsigned integer.\<close>

theorem consumers_have_provider:
  assumes "ref_reachable m s"
  shows "(0 < consumers (get_account s a) \<longrightarrow> 0 < providers (get_account s a)) \<and>
    providers (get_account s a) < 2 ^ 32 \<and> sufficients (get_account s a) < 2 ^ 32 \<and> consumers (get_account s a) < 2 ^ 32"
  using refs_ok_get [OF ref_reachable_ok [OF assms], of a] by (auto simp: info_ok_def max_ref_count_def)

definition blank_state :: "nat chain_state" where
  "blank_state = \<lparr>account = Map.empty, total_issuance = 0, locks = Map.empty, reserves = Map.empty, events = []\<rparr>"

definition consumer_state :: "nat chain_state" where
  "consumer_state = snd (inc_consumers 16 7 (snd (inc_providers 7 blank_state)))"

lemma consumer_state_reachable: "ref_reachable 16 consumer_state"
  unfolding ref_reachable_def
proof (intro exI conjI)
  show "account blank_state = Map.empty" by (simp add: blank_state_def)
  show "(ref_step 16)\<^sup>*\<^sup>* blank_state consumer_state"
    unfolding consumer_state_def
    by (rule rtranclp.rtrancl_into_rtrancl [OF r_into_rtranclp [of "ref_step 16", OF ref_step.inc_providers] ref_step.inc_consumers])
qed

theorem consumers_have_provider_witness:
  "consumers (get_account consumer_state 7) = 1 \<and> 0 < providers (get_account consumer_state 7)"
proof -
  have "consumers (get_account consumer_state 7) = 1"
    by (simp add: consumer_state_def blank_state_def inc_consumers_def inc_providers_def Let_def get_account_def put_account_def
        on_created_account_def deposit_event_def default_info_def ref_saturating_inc_def max_ref_count_def)
  then show ?thesis using consumers_have_provider [OF consumer_state_reachable, of 7] by simp
qed

text \<open>C12: No operation removes an account that others refer to: after any step from a reachable
  state, an account with consumers is still in storage and still has a provider, and giving up
  its last provider is refused.\<close>

theorem referenced_account_stays:
  assumes "ref_reachable m s" "ref_step m s s'" "0 < consumers (get_account s a)"
  shows "account_exists s' a \<and> 0 < providers (get_account s' a) \<and>
    (providers (get_account s a) = 1 \<longrightarrow> dec_providers a s = (Inl ConsumerRemaining, s))"
proof -
  obtain i where i: "account s a = Some i" using assms(3) by (cases "account s a") (auto simp: get_account_def default_info_def)
  have "ref_change (account s a) (account s' a)" by (rule ref_step_change [OF assms(2) ref_reachable_ok [OF assms(1)]])
  then show ?thesis using i assms(3)
    by (cases "account s' a") (auto simp: ref_change_def get_account_def account_exists_def dec_providers_def)
qed

theorem referenced_account_stays_witness:
  "account_exists (snd (dec_providers 7 consumer_state)) 7 \<and> dec_providers 7 consumer_state = (Inl ConsumerRemaining, consumer_state)"
proof -
  have "consumers (get_account consumer_state 7) = 1" "providers (get_account consumer_state 7) = 1"
    by (simp_all add: consumer_state_def blank_state_def inc_consumers_def inc_providers_def Let_def get_account_def put_account_def
        on_created_account_def deposit_event_def default_info_def ref_saturating_inc_def max_ref_count_def)
  then show ?thesis
    using referenced_account_stays [OF consumer_state_reachable ref_step.dec_providers [of 16 consumer_state 7], of 7] by (metis zero_less_one)
qed

end
