(* ===== verification/Helpers_128bit.thy ===== *)
theory Helpers_128bit
  imports Prelude
begin

text \<open>
  Arithmetic on 128-bit integers, \<open>primitives/arithmetic/src/helpers_128bit.rs\<close>: the binary
  greatest common divisor, 256-bit products and quotients, the rounded \<open>a * b / c\<close> that fees,
  rewards and exchange rates are computed with, and the integer square root. Integers are
  words, so that every operation wraps where the source wraps; the loops are recursive
  functions with a termination proof. The theorems compare each routine with the mathematical
  function it computes.
\<close>


section \<open>Greatest common divisor\<close>

function gcd128 :: "u128 \<Rightarrow> u128 \<Rightarrow> u128" where
  "gcd128 a b =
     (if a = b then b
      else if a = 0 then b
      else if b = 0 then a
      else if a AND 1 = 0 \<and> b AND 1 = 1 then gcd128 (drop_bit 1 a) b
      else if a AND 1 = 1 \<and> b AND 1 = 0 then gcd128 (drop_bit 1 b) a
      else if a AND 1 = 0 \<and> b AND 1 = 0 then push_bit 1 (gcd128 (drop_bit 1 a) (drop_bit 1 b))
      else gcd128 (drop_bit 1 (max a b - min a b)) (min a b))"
  by pat_completeness auto

lemma unat_drop_bit1: "unat (drop_bit 1 (w :: u128)) = unat w div 2"
  by (simp add: unat_div drop_bit_eq_div)

lemmas unat_half = unat_drop_bit1 [unfolded One_nat_def]

lemma unat_half_less: "w \<noteq> 0 \<Longrightarrow> unat (drop_bit 1 (w :: u128)) < unat w"
  unfolding unat_drop_bit1 by (simp add: unat_gt_0)

lemma unat_max_min:
  "unat (max a b - min a b :: 'a :: len word) = max (unat a) (unat b) - min (unat a) (unat b)"
  "unat (min a b) = min (unat a) (unat b)"
  by (auto simp: max_def min_def unat_sub word_le_nat_alt)

termination gcd128
proof (relation "measure (\<lambda>(a, b). unat a + unat b)")
  fix a b :: u128
  assume nz: "a \<noteq> b" "a \<noteq> 0" "b \<noteq> 0"
  note half = unat_half_less [OF nz(2)] unat_half_less [OF nz(3)]
  show "((drop_bit 1 a, b), a, b) \<in> measure (\<lambda>(a, b). unat a + unat b)"
    "((drop_bit 1 b, a), a, b) \<in> measure (\<lambda>(a, b). unat a + unat b)"
    "((drop_bit 1 a, drop_bit 1 b), a, b) \<in> measure (\<lambda>(a, b). unat a + unat b)"
    using half by simp_all
  have "unat a \<noteq> unat b" "0 < unat a" "0 < unat b" using nz by (simp_all add: unat_gt_0 flip: word_unat_eq_iff)
  then show "((drop_bit 1 (max a b - min a b), min a b), a, b) \<in> measure (\<lambda>(a, b). unat a + unat b)"
    by (simp add: unat_half unat_max_min)
qed simp

declare gcd128.simps [simp del]

lemma unat_and_1: "unat (a AND 1 :: u128) = unat a mod 2"
  by (simp add: and_one_eq unat_mod)

lemma unat_lt128: "unat (w :: u128) < 2 ^ 128"
  using unsigned_less [of w] by simp

lemma unat_odd: "a AND 1 = 0 \<longleftrightarrow> even (unat a)" "a AND 1 = 1 \<longleftrightarrow> odd (unat a)" for a :: u128
  using unat_and_1 [of a] by (auto simp: word_unat_eq_iff odd_iff_mod_2_eq_one even_iff_mod_2_eq_zero)

lemma gcd_half: "even (a :: nat) \<Longrightarrow> odd b \<Longrightarrow> gcd (a div 2) b = gcd a b"
proof -
  assume "even a" "odd b"
  then have "coprime 2 b" by simp
  then have "gcd (2 * (a div 2)) b = gcd (a div 2) b" by (metis gcd_mult_left_left_cancel coprime_commute)
  then show ?thesis using \<open>even a\<close> by simp
qed

lemma gcd_double: "even (a :: nat) \<Longrightarrow> even b \<Longrightarrow> gcd a b = 2 * gcd (a div 2) (b div 2)"
  by (metis dvd_mult_div_cancel gcd_mult_distrib_nat)

lemma gcd_odd_diff:
  "odd (a :: nat) \<Longrightarrow> odd b \<Longrightarrow> gcd ((max a b - min a b) div 2) (min a b) = gcd a b"
proof -
  assume o: "odd a" "odd b"
  then have "even (max a b - min a b)" by (simp add: max_def min_def)
  moreover have "odd (min a b)" using o by (simp add: min_def)
  ultimately have "gcd ((max a b - min a b) div 2) (min a b) = gcd (max a b - min a b) (min a b)" by (rule gcd_half)
  also have "\<dots> = gcd (max a b) (min a b)" by (simp add: gcd_diff1_nat)
  also have "\<dots> = gcd a b" by (simp add: max_def min_def gcd.commute)
  finally show ?thesis .
qed

lemma gcd128_val: "unat (gcd128 a b) = gcd (unat a) (unat b)"
proof (induction a b rule: gcd128.induct)
  case (1 a b)
  show ?case
  proof (cases "a = b \<or> a = 0 \<or> b = 0")
    case True
    then show ?thesis by (auto simp: gcd128.simps [of a b])
  next
    case False
    note IH = 1 [unfolded unat_odd]
    have less: "gcd (unat a) (unat b) < 2 ^ 128"
      by (rule le_less_trans [OF gcd_le1_nat unat_lt128 [of a]]) (use False in \<open>simp add: unat_eq_zero\<close>)
    have a: "unat (w * 2) = 2 * unat w" if "2 * unat w < 2 ^ 128" for w :: u128
      using that by (simp add: unat_word_ariths)
    consider "even (unat a)" "odd (unat b)" | "odd (unat a)" "even (unat b)" | "even (unat a)" "even (unat b)"
      | "odd (unat a)" "odd (unat b)" by blast
    then show ?thesis
    proof cases
      case 1
      then show ?thesis using False IH(1) gcd_half [of "unat a" "unat b"]
        by (simp add: gcd128.simps [of a b] unat_odd unat_half)
    next
      case 2
      then show ?thesis using False IH(2) gcd_half [of "unat b" "unat a"]
        by (simp add: gcd128.simps [of a b] unat_odd unat_half gcd.commute)
    next
      case 3
      then show ?thesis using False IH(3) gcd_double [of "unat a" "unat b"] less
        by (simp add: gcd128.simps [of a b] unat_odd unat_half a)
    next
      case 4
      then show ?thesis using False IH(4) gcd_odd_diff [of "unat a" "unat b"]
        by (simp add: gcd128.simps [of a b] unat_odd unat_half unat_max_min)
    qed
  qed
qed

text \<open>C30: The binary algorithm computes the greatest common divisor, for all arguments, zero
  included, and terminates.\<close>

theorem gcd128_correct: "unat (gcd128 a b) = gcd (unat a) (unat b)"
  by (rule gcd128_val)

section \<open>Double-width numbers\<close>

definition low_64 :: "u128 \<Rightarrow> u128" where
  "low_64 a = a AND (push_bit 64 1 - 1)"

definition high_64 :: "u128 \<Rightarrow> u128" where
  "high_64 a = drop_bit 64 a"

definition neg128 :: "u128 \<Rightarrow> u128" where
  "neg128 a = NOT a + 1"

definition div128 :: "u128 \<Rightarrow> u128" where
  "div128 a = neg128 a div a + 1"

definition mod128 :: "u128 \<Rightarrow> u128" where
  "mod128 a = neg128 a mod a"

record double128 =
  high :: u128
  low :: u128

definition try_into_u128 :: "double128 \<Rightarrow> u128 option" where
  "try_into_u128 d = (if high d = 0 then Some (low d) else None)"

definition double_zero :: double128 where
  "double_zero = \<lparr>high = 0, low = 0\<rparr>"

definition left_shift_64 :: "u128 \<Rightarrow> double128" where
  "left_shift_64 v = \<lparr>high = drop_bit 64 v, low = push_bit 64 v\<rparr>"

definition from_low :: "u128 \<Rightarrow> double128" where
  "from_low v = \<lparr>high = 0, low = v\<rparr>"

definition low_part :: "double128 \<Rightarrow> double128" where
  "low_part d = d\<lparr>high := 0\<rparr>"

definition overflowing_add :: "u128 \<Rightarrow> u128 \<Rightarrow> u128 \<times> bool" where
  "overflowing_add a b = (a + b, 2 ^ 128 \<le> uint a + uint b)"

definition double_add :: "double128 \<Rightarrow> double128 \<Rightarrow> double128" where
  "double_add a b =
     (let (l, overflow) = overflowing_add (low a) (low b);
          carry = (if overflow then 1 else 0)
      in \<lparr>high = high a + high b + carry, low = l\<rparr>)"

definition product_of :: "u128 \<Rightarrow> u128 \<Rightarrow> double128" where
  "product_of a b =
     (let a_low = low_64 a; a_high = high_64 a; b_low = low_64 b; b_high = high_64 b;
          f = a_low * b_low; o' = a_low * b_high; i = a_high * b_low; l = a_high * b_high;
          fl = \<lparr>high = l, low = f\<rparr>
      in double_add (double_add fl (left_shift_64 i)) (left_shift_64 o'))"

text \<open>The number a double stands for.\<close>

definition value256 :: "double128 \<Rightarrow> nat" where
  "value256 d = unat (high d) * 2 ^ 128 + unat (low d)"

lemma overflow_unat: "2 ^ 128 \<le> uint (a :: u128) + uint b \<longleftrightarrow> 2 ^ 128 \<le> unat a + unat b"
  using of_nat_le_iff [where 'a = int, of "2 ^ 128" "unat a + unat b"] by simp

lemma digit_bound: "x * B + y < B * B \<Longrightarrow> x < (B :: nat)"
proof (rule ccontr)
  assume a: "x * B + y < B * B" "\<not> x < B"
  from a(2) have "B * B \<le> x * B" by simp
  with a(1) show False by linarith
qed

lemma value256_add:
  assumes "value256 a + value256 b < 2 ^ 256"
  shows "value256 (double_add a b) = value256 a + value256 b"
proof -
  define B where "B = (2 ^ 128 :: nat)"
  define c where "c = (if B \<le> unat (low a) + unat (low b) then 1 else 0 :: u128)"
  have d: "double_add a b = \<lparr>high = high a + high b + c, low = low a + low b\<rparr>"
    unfolding double_add_def overflowing_add_def Let_def case_prod_conv overflow_unat c_def B_def ..
  have l: "unat (low a + low b) + unat c * B = unat (low a) + unat (low b)"
    using unat_lt128 [of "low a"] unat_lt128 [of "low b"] by (auto simp: unat_word_ariths mod_if c_def B_def)
  have "(unat (high a) + unat (high b) + unat c) * B + unat (low a + low b) =
      unat (high a) * B + unat (high b) * B + (unat (low a + low b) + unat c * B)"
    by (simp add: algebra_simps)
  also have "\<dots> = value256 a + value256 b" unfolding l by (simp add: value256_def B_def)
  finally have v: "(unat (high a) + unat (high b) + unat c) * B + unat (low a + low b) = value256 a + value256 b" .
  moreover have "(2 ^ 256 :: nat) = B * B" by (simp add: B_def)
  ultimately have "unat (high a) + unat (high b) + unat c < B"
    using assms digit_bound [of _ B "unat (low a + low b)"] by metis
  then have "unat (high a + high b + c) = unat (high a) + unat (high b) + unat c"
    by (simp add: unat_word_ariths B_def)
  then show ?thesis using v by (simp add: d value256_def B_def)
qed

lemma unat_low_64: "unat (low_64 a) = unat a mod 2 ^ 64"
proof -
  have "low_64 a = take_bit 64 a" by (simp add: low_64_def take_bit_eq_mask mask_eq_exp_minus_1)
  then show ?thesis by (simp add: take_bit_eq_mod unat_mod)
qed

lemma unat_high_64: "unat (high_64 a) = unat a div 2 ^ 64"
  by (simp add: high_64_def unat_div drop_bit_eq_div)

lemma shift_split: "v div H * (H * H) + v mod H * H = v * (H :: nat)"
  by (metis distrib_right mult.assoc div_mult_mod_eq)

lemma value256_left_shift: "value256 (left_shift_64 v) = unat v * 2 ^ 64"
proof -
  have "unat (drop_bit 64 v) = unat v div 2 ^ 64" by (simp add: unat_div drop_bit_eq_div)
  moreover have "unat (push_bit 64 v) = unat v * 2 ^ 64 mod 2 ^ 128"
    by (simp add: push_bit_eq_mult unat_word_ariths)
  moreover have "unat v * 2 ^ 64 mod 2 ^ 128 = unat v mod 2 ^ 64 * 2 ^ 64"
    using mod_mult_mult2 [of "unat v" "2 ^ 64" "2 ^ 64"] by simp
  ultimately show ?thesis using shift_split [of "unat v" "2 ^ 64"] by (simp add: value256_def left_shift_64_def)
qed

lemma unat_mult_small: "unat a < 2 ^ 64 \<Longrightarrow> unat b < 2 ^ 64 \<Longrightarrow> unat (a * b :: u128) = unat a * unat b"
proof -
  assume "unat a < 2 ^ 64" "unat b < 2 ^ 64"
  then have "unat a * unat b < 2 ^ 64 * 2 ^ 64" by (rule mult_strict_mono) simp_all
  then show ?thesis by (simp add: unat_word_ariths)
qed

lemma product_small: "unat (a :: u128) * unat (b :: u128) < 2 ^ 256"
proof -
  have "unat a * unat b < 2 ^ 128 * 2 ^ 128"
    by (rule mult_strict_mono) (use unat_lt128 in simp_all)
  then show ?thesis by simp
qed

lemma value256_product: "value256 (product_of a b) = unat a * unat b"
proof -
  define H where "H = (2 ^ 64 :: nat)"
  define al where "al = unat a mod H"
  define ah where "ah = unat a div H"
  define bl where "bl = unat b mod H"
  define bh where "bh = unat b div H"
  have ab: "unat a = ah * H + al" "unat b = bh * H + bl" by (simp_all add: al_def ah_def bl_def bh_def)
  have small: "ah < 2 ^ 64" "bh < 2 ^ 64" "al < 2 ^ 64" "bl < 2 ^ 64"
    using unat_lt128 [of a] unat_lt128 [of b] by (simp_all add: al_def ah_def bl_def bh_def H_def less_mult_imp_div_less)
  let ?fl = "\<lparr>high = high_64 a * high_64 b, low = low_64 a * low_64 b\<rparr>"
  have u: "unat (low_64 a) = al" "unat (high_64 a) = ah" "unat (low_64 b) = bl" "unat (high_64 b) = bh"
    by (simp_all add: unat_low_64 unat_high_64 al_def ah_def bl_def bh_def H_def)
  have m: "unat (low_64 a * low_64 b) = al * bl" "unat (low_64 a * high_64 b) = al * bh"
    "unat (high_64 a * low_64 b) = ah * bl" "unat (high_64 a * high_64 b) = ah * bh"
    using small u by (simp_all add: unat_mult_small)
  have total: "unat a * unat b = ah * bh * (H * H) + al * bl + ah * bl * H + al * bh * H"
    by (simp add: ab algebra_simps)
  have fl: "value256 ?fl = ah * bh * (H * H) + al * bl" by (simp add: value256_def m H_def)
  have i: "value256 (left_shift_64 (high_64 a * low_64 b)) = ah * bl * H"
    and o: "value256 (left_shift_64 (low_64 a * high_64 b)) = al * bh * H"
    by (simp_all add: value256_left_shift m H_def)
  have 1: "value256 (double_add ?fl (left_shift_64 (high_64 a * low_64 b))) = ah * bh * (H * H) + al * bl + ah * bl * H"
    using value256_add [of ?fl "left_shift_64 (high_64 a * low_64 b)"] product_small [of a b] total
    unfolding fl i by linarith
  show ?thesis
    using value256_add [of "double_add ?fl (left_shift_64 (high_64 a * low_64 b))" "left_shift_64 (low_64 a * high_64 b)"]
      product_small [of a b] total
    unfolding 1 o product_of_def Let_def by linarith
qed

text \<open>The loop of \<open>div\<close>. It ends because the number shrinks whenever its high part is not zero.\<close>

function div_loop :: "u128 \<Rightarrow> u128 \<Rightarrow> double128 \<Rightarrow> double128 \<Rightarrow> double128 \<times> double128" where
  "div_loop q r x a =
     (if high a \<noteq> 0
      then div_loop q r (double_add x (product_of (high a) q)) (double_add (product_of (high a) r) (low_part a))
      else (x, a))"
  by pat_completeness auto

lemma value256_next:
  "value256 (double_add (product_of (high a) r) (low_part a)) = unat (high a) * unat r + unat (low a)"
proof -
  have "unat (high a) * unat r \<le> (2 ^ 128 - 1) * (2 ^ 128 - 1)"
    by (rule mult_le_mono) (use unat_lt128 [of "high a"] unat_lt128 [of r] in simp_all)
  moreover have "value256 (low_part a) = unat (low a)" by (simp add: value256_def low_part_def)
  ultimately show ?thesis
    using value256_add [of "product_of (high a) r" "low_part a"] unat_lt128 [of "low a"] by (simp add: value256_product)
qed

termination div_loop
proof (relation "measure (\<lambda>(q, r, x, a). value256 a)")
  fix q r :: u128 and x a :: double128
  assume "high a \<noteq> 0"
  then have "unat (high a) * unat r < unat (high a) * 2 ^ 128"
    using unat_lt128 [of r] by (intro mult_strict_left_mono) (simp_all add: unat_gt_0)
  then have "value256 (double_add (product_of (high a) r) (low_part a)) < value256 a"
    unfolding value256_next by (simp add: value256_def)
  then show "((q, r, double_add x (product_of (high a) q), double_add (product_of (high a) r) (low_part a)), q, r, x, a)
    \<in> measure (\<lambda>(q, r, x, a). value256 a)" by simp
qed simp

declare div_loop.simps [simp del]

definition double_div :: "double128 \<Rightarrow> u128 \<Rightarrow> double128 \<times> u128" where
  "double_div a rhs =
     (if rhs = 1 then (a, 0)
      else case div_loop (div128 rhs) (mod128 rhs) double_zero a of
        (x, a') \<Rightarrow> (double_add x (from_low (low a' div rhs)), low a' mod rhs))"

lemma value256_less: "value256 d < 2 ^ 256"
  using unat_lt128 [of "high d"] unat_lt128 [of "low d"] by (simp add: value256_def)

lemma unat_neg128: "a \<noteq> 0 \<Longrightarrow> unat (neg128 a) = 2 ^ 128 - unat a"
proof -
  assume "a \<noteq> 0"
  have "neg128 a = - a" by (simp add: neg128_def minus_eq_not_plus_1)
  then show ?thesis using \<open>a \<noteq> 0\<close> unat_sub_if_size [of 0 a] by (simp add: word_size unat_gt_0)
qed

lemma divisor_split:
  assumes "1 < unat (c :: u128)"
  shows "unat (div128 c) * unat c + unat (mod128 c) = 2 ^ 128"
proof -
  define B where "B = (2 ^ 128 :: nat)"
  have c: "c \<noteq> 0" "unat c \<le> B" using assms unat_lt128 [of c] by (auto simp: B_def)
  have n: "unat (neg128 c) = B - unat c" using unat_neg128 [OF c(1)] by (simp add: B_def)
  have d: "(B - unat c) div unat c = B div unat c - 1" "(B - unat c) mod unat c = B mod unat c"
    using c(2) assms by (simp_all add: le_div_geq le_mod_geq)
  have "B div unat c < B" by (rule div_less_dividend) (use assms in \<open>simp_all add: B_def\<close>)
  moreover have "0 < B div unat c" using c(2) assms by (simp add: div_greater_zero_iff)
  moreover have "unat (div128 c) = (unat (neg128 c div c) + 1) mod B" by (simp add: div128_def unat_word_ariths B_def)
  moreover have "unat (neg128 c div c) = B div unat c - 1" by (simp only: unat_div n d)
  ultimately have "unat (div128 c) = B div unat c" by simp
  moreover have "unat (mod128 c) = B mod unat c" by (simp add: mod128_def unat_mod n d)
  ultimately have "unat (div128 c) * unat c + unat (mod128 c) = B" by simp
  then show ?thesis by (simp add: B_def)
qed

lemma div_loop_invariant:
  assumes "unat q * c + unat r = 2 ^ 128" "0 < c" "value256 x * c + value256 a < 2 ^ 256"
    "div_loop q r x a = (x', a')"
  shows "high a' = 0 \<and> value256 x' * c + value256 a' = value256 x * c + value256 a"
  using assms(1,3,4)
proof (induction q r x a rule: div_loop.induct)
  case (1 q r x a)
  show ?case
  proof (cases "high a = 0")
    case True
    then show ?thesis using 1(4) by (simp add: div_loop.simps [of q r x a])
  next
    case False
    define B where "B = (2 ^ 128 :: nat)"
    let ?x = "double_add x (product_of (high a) q)" and ?a = "double_add (product_of (high a) r) (low_part a)"
    have a: "value256 ?a = unat (high a) * unat r + unat (low a)" by (rule value256_next)
    have split: "unat q * c + unat r = B" using 1(2) by (simp add: B_def)
    have sum: "value256 x * c + value256 a = (value256 x + unat (high a) * unat q) * c + value256 ?a"
      unfolding a value256_def [of a] B_def [symmetric] split [symmetric] by (simp add: algebra_simps)
    have "value256 x + unat (high a) * unat q \<le> (value256 x + unat (high a) * unat q) * c" using assms(2) by simp
    also have "\<dots> \<le> value256 x * c + value256 a" using sum by linarith
    finally have "value256 x + value256 (product_of (high a) q) < 2 ^ 256" using 1(3) by (simp add: value256_product)
    then have x: "value256 ?x = value256 x + unat (high a) * unat q" by (simp add: value256_add value256_product)
    have "high a' = 0 \<and> value256 x' * c + value256 a' = value256 ?x * c + value256 ?a"
      using 1(1) [OF False 1(2)] 1(3,4) False sum x by (simp add: div_loop.simps [of q r x a])
    then show ?thesis using sum x by simp
  qed
qed

lemma double_div_correct:
  assumes "c \<noteq> 0" "double_div a c = (d, r)"
  shows "value256 d = value256 a div unat c" "unat r = value256 a mod unat c"
proof -
  have "value256 d = value256 a div unat c \<and> unat r = value256 a mod unat c"
  proof (cases "c = 1")
    case True
    then show ?thesis using assms(2) by (auto simp: double_div_def)
  next
    case False
    then have c: "1 < unat c" using assms(1) by (metis One_nat_def Suc_lessI unat_gt_0 word_unat_eq_iff unat_1)
    obtain x a' where l: "div_loop (div128 c) (mod128 c) double_zero a = (x, a')" by fastforce
    have z: "value256 double_zero = 0" by (simp add: value256_def double_zero_def)
    have inv: "high a' = 0" "value256 x * unat c + value256 a' = value256 a"
      using div_loop_invariant [OF divisor_split [OF c] _ _ l] c value256_less [of a] by (simp_all add: z)
    have low: "value256 a' = unat (low a')" using inv(1) by (simp add: value256_def)
    have q: "value256 a div unat c = value256 x + unat (low a') div unat c" "value256 a mod unat c = unat (low a') mod unat c"
      using c by (simp_all add: inv(2) [symmetric] low)
    have "value256 (from_low (low a' div c)) = unat (low a') div unat c" by (simp add: value256_def from_low_def unat_div)
    moreover have "value256 x + unat (low a') div unat c < 2 ^ 256"
      using q(1) value256_less [of a] div_le_dividend [of "value256 a" "unat c"] by linarith
    ultimately show ?thesis using assms(2) False l q by (auto simp: double_div_def value256_add unat_mod)
  qed
  then show "value256 d = value256 a div unat c" "unat r = value256 a mod unat c" by simp_all
qed

section \<open>Rounded multiplication by a fraction\<close>

datatype rounding = Up | Down | NearestPrefUp | NearestPrefDown

fun round_remainder :: "rounding \<Rightarrow> u128 \<Rightarrow> u128 \<Rightarrow> bool" where
  "round_remainder Up c remainder = (0 < remainder)"
| "round_remainder NearestPrefUp c remainder = (c div 2 + c mod 2 \<le> remainder)"
| "round_remainder NearestPrefDown c remainder = (c div 2 < remainder)"
| "round_remainder Down c remainder = False"

definition checked_add128 :: "u128 \<Rightarrow> u128 \<Rightarrow> u128 option" where
  "checked_add128 a b = (case overflowing_add a b of (s, overflow) \<Rightarrow> if overflow then None else Some s)"

definition multiply_by_rational_with_rounding :: "u128 \<Rightarrow> u128 \<Rightarrow> u128 \<Rightarrow> rounding \<Rightarrow> u128 option" where
  "multiply_by_rational_with_rounding a b c r =
     (if c = 0 then None
      else case double_div (product_of a b) c of
        (d, remainder) \<Rightarrow>
          (case try_into_u128 d of
             None \<Rightarrow> None
           | Some result \<Rightarrow> if round_remainder r c remainder then checked_add128 result 1 else Some result))"

text \<open>What the rounding modes mean: \<open>m\<close> is \<open>n / c\<close> rounded up, down, or to the nearest integer with
  ties broken up or down.\<close>

fun rounds :: "rounding \<Rightarrow> nat \<Rightarrow> nat \<Rightarrow> nat \<Rightarrow> bool" where
  "rounds Up n c m \<longleftrightarrow> n \<le> m * c \<and> m * c < n + c"
| "rounds Down n c m \<longleftrightarrow> m * c \<le> n \<and> n < m * c + c"
| "rounds NearestPrefUp n c m \<longleftrightarrow> 2 * (m * c) \<le> 2 * n + c \<and> 2 * n < 2 * (m * c) + c"
| "rounds NearestPrefDown n c m \<longleftrightarrow> 2 * (m * c) < 2 * n + c \<and> 2 * n \<le> 2 * (m * c) + c"

lemma round_remainder_unat:
  "round_remainder r c x \<longleftrightarrow>
     (case r of Up \<Rightarrow> 0 < unat x | Down \<Rightarrow> False | NearestPrefUp \<Rightarrow> unat c \<le> 2 * unat x | NearestPrefDown \<Rightarrow> unat c < 2 * unat x)"
proof -
  have "unat (c div 2 + c mod 2) = unat c div 2 + unat c mod 2"
    using unat_lt128 [of c] by (simp add: unat_word_ariths unat_div unat_mod)
  then have "c div 2 + c mod 2 \<le> x \<longleftrightarrow> unat c div 2 + unat c mod 2 \<le> unat x" by (simp add: word_le_nat_alt)
  moreover have "c div 2 < x \<longleftrightarrow> unat c div 2 < unat x" by (simp add: word_less_nat_alt unat_div)
  moreover have "0 < x \<longleftrightarrow> 0 < unat x" by (simp add: word_less_nat_alt)
  moreover have "unat c div 2 + unat c mod 2 \<le> unat x \<longleftrightarrow> unat c \<le> 2 * unat x" "unat c div 2 < unat x \<longleftrightarrow> unat c < 2 * unat x"
    by presburger+
  ultimately show ?thesis by (cases r) simp_all
qed

lemma rounds_quotient:
  assumes "0 < c"
  shows "rounds r n c (n div c + (if (case r of Up \<Rightarrow> 0 < n mod c | Down \<Rightarrow> False
      | NearestPrefUp \<Rightarrow> c \<le> 2 * (n mod c) | NearestPrefDown \<Rightarrow> c < 2 * (n mod c)) then 1 else 0))"
proof -
  define q where "q = n div c"
  define k where "k = n mod c"
  have "n = q * c + k" "k < c" using assms by (simp_all add: q_def k_def)
  then show ?thesis by (cases r) (auto simp: q_def [symmetric] k_def [symmetric] algebra_simps)
qed

lemma rounds_unique: "0 < c \<Longrightarrow> rounds r n c m \<Longrightarrow> rounds r n c m' \<Longrightarrow> m = m'"
proof -
  assume a: "0 < c" "rounds r n c m" "rounds r n c m'"
  have "m * c < m' * c + c" "m' * c < m * c + c" using a(2,3) by (cases r; simp)+
  then have "m * c < (m' + 1) * c" "m' * c < (m + 1) * c" by simp_all
  then have "m < m' + 1" "m' < m + 1" by (simp_all only: mult_less_cancel2)
  then show ?thesis by simp
qed

lemma checked_add128_unat:
  "checked_add128 a 1 = (if unat a + 1 < 2 ^ 128 then Some (a + 1) else None)"
  "unat a + 1 < 2 ^ 128 \<Longrightarrow> unat (a + 1 :: u128) = unat a + 1"
  using overflow_unat [of a 1] by (simp_all add: checked_add128_def overflowing_add_def not_le unat_word_ariths)

lemma value256_small: "value256 d < 2 ^ 128 \<longleftrightarrow> high d = 0"
  using unat_lt128 [of "low d"] unat_gt_0 [of "high d"] by (cases "high d = 0") (simp_all add: value256_def)

lemma multiply_by_rational_val:
  "case multiply_by_rational_with_rounding a b c r of
     Some m \<Rightarrow> c \<noteq> 0 \<and> rounds r (unat a * unat b) (unat c) (unat m)
   | None \<Rightarrow> c = 0 \<or> (\<exists>m. rounds r (unat a * unat b) (unat c) m \<and> 2 ^ 128 \<le> m)"
proof (cases "c = 0")
  case False
  then have c: "0 < unat c" by (simp add: unat_gt_0)
  obtain d x where dd: "double_div (product_of a b) c = (d, x)" by fastforce
  let ?n = "unat a * unat b"
  let ?up = "if round_remainder r c x then 1 else 0 :: nat"
  have v: "value256 d = ?n div unat c" "unat x = ?n mod unat c"
    using double_div_correct [OF False dd] by (simp_all add: value256_product)
  have ok: "rounds r ?n (unat c) (value256 d + ?up)"
    unfolding round_remainder_unat v by (rule rounds_quotient [OF c])
  show ?thesis
  proof (cases "high d = 0")
    case True
    then have d: "value256 d = unat (low d)" by (simp add: value256_def)
    have m: "multiply_by_rational_with_rounding a b c r =
        (if round_remainder r c x then checked_add128 (low d) 1 else Some (low d))"
      using \<open>c \<noteq> 0\<close> dd True by (simp add: multiply_by_rational_with_rounding_def try_into_u128_def)
    show ?thesis
    proof (cases "round_remainder r c x")
      case True
      show ?thesis using ok \<open>c \<noteq> 0\<close> by (auto simp: m True d checked_add128_unat)
    next
      case False
      then show ?thesis using ok \<open>c \<noteq> 0\<close> d by (simp add: m)
    qed
  next
    case False
    then have "2 ^ 128 \<le> value256 d" using value256_small [of d] by simp
    then show ?thesis using False \<open>c \<noteq> 0\<close> dd ok
      by (auto simp: multiply_by_rational_with_rounding_def try_into_u128_def intro!: exI [of _ "value256 d + ?up"])
  qed
qed (simp add: multiply_by_rational_with_rounding_def)

text \<open>C4: The rounded product with a fraction is exact: the result is \<open>a * b / c\<close>, computed
  without loss of precision and rounded as asked, and there is none exactly if the divisor is
  zero or that number does not fit into 128 bits.\<close>

theorem multiply_by_rational_exact:
  "case multiply_by_rational_with_rounding a b c r of
     Some m \<Rightarrow> c \<noteq> 0 \<and> rounds r (unat a * unat b) (unat c) (unat m)
   | None \<Rightarrow> c = 0 \<or> (\<exists>m. rounds r (unat a * unat b) (unat c) m \<and> 2 ^ 128 \<le> m)"
  by (rule multiply_by_rational_val)

section \<open>Square root\<close>

text \<open>\<open>u128::leading_zeros\<close>: the bits above the highest one.\<close>

definition leading_zeros128 :: "u128 \<Rightarrow> u32" where
  "leading_zeros128 n = of_nat (128 - length (dropWhile (\<lambda>i. \<not> bit n i) (rev [0..<128])))"

function sqrt_loop :: "u128 \<Rightarrow> u128 \<Rightarrow> u128 \<Rightarrow> u128" where
  "sqrt_loop n result b =
     (if b \<noteq> 0 then
        if result + b \<le> n
        then sqrt_loop (n - (result + b)) (drop_bit 1 result + b) (drop_bit 2 b)
        else sqrt_loop n (drop_bit 1 result) (drop_bit 2 b)
      else result)"
  by pat_completeness auto

lemma unat_quarter: "unat (drop_bit 2 (w :: u128)) = unat w div 4"
  by (simp add: unat_div drop_bit_eq_div)

termination sqrt_loop
  by (relation "measure (\<lambda>(n, result, b). unat b)") (simp_all add: unat_quarter unat_gt_0)

declare sqrt_loop.simps [simp del]

definition sqrt128 :: "u128 \<Rightarrow> u128" where
  "sqrt128 n =
     (if n = 0 then 0
      else let max_shift = leading_zeros128 0 - 1;
               shift = (max_shift - leading_zeros128 n) AND NOT 1
        in sqrt_loop n 0 (push_bit (unat shift) 1))"

lemma top_bit:
  "(\<exists>i<m. P i) \<Longrightarrow> \<exists>k<m. length (dropWhile (\<lambda>i. \<not> P i) (rev [0..<m])) = Suc k \<and> P k \<and> (\<forall>j<m. k < j \<longrightarrow> \<not> P j)"
proof (induction m)
  case (Suc m)
  show ?case
  proof (cases "P m")
    case True
    then show ?thesis by auto
  next
    case False
    then have "\<exists>i<m. P i" using Suc.prems by (metis less_SucE)
    from Suc.IH [OF this] show ?thesis using False by (auto simp: less_Suc_eq)
  qed
qed simp

lemma word_highest_bit:
  fixes n :: "'a :: len word"
  assumes "n \<noteq> 0"
  obtains k where "k < LENGTH('a)" "length (dropWhile (\<lambda>i. \<not> bit n i) (rev [0..<LENGTH('a)])) = Suc k"
    "2 ^ k \<le> unat n" "unat n < 2 ^ Suc k"
proof -
  have "\<exists>i<LENGTH('a). bit n i"
  proof (rule ccontr)
    assume "\<not> (\<exists>i<LENGTH('a). bit n i)"
    then have "n = 0" by (intro bit_word_eqI) simp
    with assms show False ..
  qed
  then obtain k where k: "k < LENGTH('a)" "length (dropWhile (\<lambda>i. \<not> bit n i) (rev [0..<LENGTH('a)])) = Suc k" "bit n k"
    "\<forall>j<LENGTH('a). k < j \<longrightarrow> \<not> bit n j" using top_bit [of "LENGTH('a)" "bit n"] by blast
  show thesis
  proof (rule that [OF k(1,2)])
    have "bit (unat n) k" using k(1,3) by (simp add: bit_unsigned_iff)
    then have "odd (unat n div 2 ^ k)" by (simp add: bit_iff_odd)
    then show "2 ^ k \<le> unat n" by (metis div_less dvd_0_right not_le)
    have "take_bit (Suc k) n = n"
      by (rule bit_word_eqI) (use k(4) in \<open>auto simp: bit_take_bit_iff not_less_eq\<close>)
    then have "unat n = take_bit (Suc k) (unat n)" by (metis unsigned_take_bit_eq)
    then show "unat n < 2 ^ Suc k" by (metis take_bit_nat_less_exp)
  qed
qed

lemma highest_bit:
  assumes "n \<noteq> 0"
  obtains k where "k < 128" "leading_zeros128 n = of_nat (127 - k)" "2 ^ k \<le> unat n" "unat n < 2 ^ Suc k"
  by (rule word_highest_bit [OF assms]) (auto simp: leading_zeros128_def)

lemma root_step_bound:
  assumes "R * R \<le> N" "N < 2 ^ 128" "2 ^ Suc k dvd R" "4 ^ k < (2 ^ 128 :: nat)"
  shows "R + 2 ^ k < (2 ^ 64 :: nat)"
proof -
  have R: "R < 2 ^ 64"
  proof (rule ccontr)
    assume "\<not> R < 2 ^ 64"
    then have "2 ^ 64 * 2 ^ 64 \<le> R * R" by (intro mult_le_mono) simp_all
    with assms(1,2) show False by simp
  qed
  have "(2 :: nat) ^ (2 * k) < 2 ^ 128" using assms(4) by (simp add: power_mult)
  then have "2 * k < 128" by (rule power_less_imp_less_exp [rotated]) simp
  then have k: "k < 64" by simp
  then have "(2 :: nat) ^ Suc k dvd 2 ^ 64" by (intro le_imp_power_dvd) simp
  then obtain m p where m: "R = 2 ^ Suc k * m" "(2 :: nat) ^ 64 = 2 ^ Suc k * p" using assms(3) by (auto elim!: dvdE)
  have "m < p" using R m(1) unfolding m(2) by simp
  then have "2 ^ Suc k * (m + 1) \<le> 2 ^ Suc k * p" by (intro mult_le_mono) simp_all
  then have "R + 2 ^ Suc k \<le> 2 ^ 64" by (simp only: m) (simp add: algebra_simps)
  moreover have "(2 :: nat) ^ k < 2 ^ Suc k" by simp
  ultimately show ?thesis by linarith
qed

lemma sqrt_step:
  assumes "unat b = 4 ^ k" "unat n + R * R = N" "unat result = R * 2 ^ Suc k" "2 ^ Suc k dvd R"
    "N < (R + 2 ^ Suc k) * (R + 2 ^ Suc k)" "N < 2 ^ 128"
  obtains n' result' R' where "sqrt_loop n result b = sqrt_loop n' result' (drop_bit 2 b)"
    "unat n' + R' * R' = N" "unat result' = R' * 2 ^ k" "2 ^ k dvd R'" "N < (R' + 2 ^ k) * (R' + 2 ^ k)"
proof -
  define T where "T = (2 ^ k :: nat)"
  have T: "(4 :: nat) ^ k = T * T" "2 ^ Suc k = 2 * T" by (simp_all add: T_def power_mult_distrib [symmetric])
  have b0: "b \<noteq> 0" using assms(1) by auto
  have "R + T < 2 ^ 64"
    unfolding T_def by (rule root_step_bound [of _ N]) (use assms unat_lt128 [of b] in auto)
  then have "(R + T) * (R + T) < 2 ^ 64 * 2 ^ 64" by (intro mult_strict_mono) simp_all
  then have sq: "(R + T) * (R + T) < 2 ^ 128" by simp
  have exp: "(R + T) * (R + T) = R * R + (R * (2 * T) + T * T)" by (simp add: algebra_simps)
  have res: "unat result = R * (2 * T)" using assms(3) by (simp add: T_def)
  have rb: "unat (result + b) = R * (2 * T) + T * T"
    using sq exp assms(1) res by (simp add: unat_word_ariths T(1))
  have half: "unat (drop_bit 1 result) = R * T" using res by (simp add: unat_half mult.left_commute [of R 2])
  have dvd: "T dvd R" using assms(4) by (simp add: T_def) (rule dvd_mult_right)
  show thesis
  proof (cases "result + b \<le> n")
    case True
    then have le: "R * (2 * T) + T * T \<le> unat n" using rb by (simp add: word_le_nat_alt)
    show thesis
    proof (rule that)
      show "sqrt_loop n result b = sqrt_loop (n - (result + b)) (drop_bit 1 result + b) (drop_bit 2 b)"
        using True b0 by (simp add: sqrt_loop.simps [of n result b])
      have "unat (n - (result + b)) = unat n - (R * (2 * T) + T * T)" using True rb by (simp add: unat_sub)
      then show "unat (n - (result + b)) + (R + T) * (R + T) = N" using le assms(2) unfolding exp by simp
      have "R * T + T * T \<le> R * (2 * T) + T * T" by simp
      then have "R * T + T * T < 2 ^ 128" using sq unfolding exp by simp
      then have "unat (drop_bit 1 result + b) = R * T + T * T"
        using half assms(1) T(1) by (simp add: unat_word_ariths)
      then show "unat (drop_bit 1 result + b) = (R + T) * 2 ^ k" by (simp add: T_def distrib_right)
      show "2 ^ k dvd R + T" using dvd by (simp add: T_def)
      show "N < (R + T + 2 ^ k) * (R + T + 2 ^ k)" using assms(5) by (simp add: T_def mult_2 add.assoc)
    qed
  next
    case False
    then have less: "unat n < R * (2 * T) + T * T" using rb by (simp add: word_le_nat_alt not_le)
    show thesis
    proof (rule that)
      show "sqrt_loop n result b = sqrt_loop n (drop_bit 1 result) (drop_bit 2 b)"
        using False b0 by (simp add: sqrt_loop.simps [of n result b])
      show "unat n + R * R = N" by (rule assms(2))
      show "unat (drop_bit 1 result) = R * 2 ^ k" using half by (simp add: T_def)
      show "2 ^ k dvd R" using dvd by (simp add: T_def)
      show "N < (R + 2 ^ k) * (R + 2 ^ k)" using less assms(2) exp by (simp add: T_def [symmetric])
    qed
  qed
qed

lemma sqrt_loop_correct:
  assumes "unat b = 4 ^ k" "unat n + R * R = N" "unat result = R * 2 ^ Suc k" "2 ^ Suc k dvd R"
    "N < (R + 2 ^ Suc k) * (R + 2 ^ Suc k)" "N < 2 ^ 128"
  shows "unat (sqrt_loop n result b) * unat (sqrt_loop n result b) \<le> N \<and>
    N < (unat (sqrt_loop n result b) + 1) * (unat (sqrt_loop n result b) + 1)"
  using assms
proof (induction k arbitrary: n result b R)
  case 0
  obtain n' result' R' where s: "sqrt_loop n result b = sqrt_loop n' result' (drop_bit 2 b)"
    "unat n' + R' * R' = N" "unat result' = R' * 2 ^ 0" "N < (R' + 2 ^ 0) * (R' + 2 ^ 0)"
    by (rule sqrt_step [OF 0]) blast
  have "unat (drop_bit 2 b) = 0" using 0(1) by (simp add: unat_quarter)
  then have "sqrt_loop n result b = result'" by (simp add: s(1) sqrt_loop.simps [of n' result'] unat_eq_zero)
  then show ?case using s(2,3,4) by simp
next
  case (Suc k)
  obtain n' result' R' where s: "sqrt_loop n result b = sqrt_loop n' result' (drop_bit 2 b)"
    "unat n' + R' * R' = N" "unat result' = R' * 2 ^ Suc k" "2 ^ Suc k dvd R'" "N < (R' + 2 ^ Suc k) * (R' + 2 ^ Suc k)"
    by (rule sqrt_step [OF Suc.prems])
  have "unat (drop_bit 2 b) = 4 ^ k" using Suc.prems(1) by (simp add: unat_quarter)
  from Suc.IH [OF this s(2-5) Suc.prems(6)] show ?case by (simp only: s(1))
qed

lemma clear_low_bits: "w AND NOT (mask m) = push_bit m (drop_bit m (w :: u32))"
  by (rule bit_word_eqI) (auto simp: bit_simps)

text \<open>C31: The integer square root is exact: the result is the largest number whose square is at
  most the argument, for all 128-bit arguments.\<close>

theorem sqrt128_correct:
  "unat (sqrt128 n) * unat (sqrt128 n) \<le> unat n \<and> unat n < (unat (sqrt128 n) + 1) * (unat (sqrt128 n) + 1)"
proof (cases "n = 0")
  case False
  obtain k where k: "k < 128" "leading_zeros128 n = of_nat (127 - k)" "2 ^ k \<le> unat n" "unat n < 2 ^ Suc k"
    using highest_bit [OF False] .
  define j where "j = k div 2"
  have e: "dropWhile (\<lambda>i. \<not> bit (0 :: u128) i) (rev [0..<128]) = []" by (simp add: dropWhile_eq_Nil_conv)
  have "leading_zeros128 0 = 128" unfolding leading_zeros128_def e by simp
  then have "leading_zeros128 0 - 1 - leading_zeros128 n = of_nat k"
    using k(1) by (simp add: k(2) of_nat_diff)
  moreover have "of_nat k AND NOT 1 = push_bit 1 (drop_bit 1 (of_nat k :: u32))"
    using clear_low_bits [of "of_nat k" 1] by simp
  moreover have "push_bit 1 (drop_bit 1 (of_nat k :: u32)) = of_nat (2 * j)"
    using k(1) by (simp add: word_unat_eq_iff unat_word_ariths unat_div push_bit_eq_mult drop_bit_eq_div unat_of_nat32 j_def)
  ultimately have shift: "(leading_zeros128 0 - 1 - leading_zeros128 n) AND NOT 1 = of_nat (2 * j)" by metis
  have "unat (of_nat (2 * j) :: u32) = 2 * j" using k(1) by (intro unat_of_nat32) (simp add: j_def)
  then have sq: "sqrt128 n = sqrt_loop n 0 (push_bit (2 * j) 1)"
    using False unfolding sqrt128_def Let_def shift by simp
  have j: "j < 64" "k \<le> 2 * j + 1" using k(1) by (simp_all add: j_def)
  have b: "unat (push_bit (2 * j) 1 :: u128) = 4 ^ j"
  proof -
    have "unat (push_bit (2 * j) 1 :: u128) = 2 ^ (2 * j)" unfolding unsigned_push_bit_eq using j(1) by simp
    then show ?thesis by (simp add: power_mult)
  qed
  have "(2 :: nat) ^ Suc k \<le> 2 ^ (2 * Suc j)" by (rule power_increasing) (use j(2) in simp_all)
  then have "unat n < 2 ^ Suc j * 2 ^ Suc j" using k(4) by (simp only: mult_2 power_add)
  then show ?thesis
    unfolding sq by (intro sqrt_loop_correct [OF b, of n 0]) (use unat_lt128 [of n] in simp_all)
qed (simp add: sqrt128_def)

end
