(* ===== verification/Biguint.thy ===== *)
theory Biguint
  imports Helpers_128bit "HOL-Library.Monad_Syntax"
begin

text \<open>
  Natural numbers of any size, \<open>primitives/arithmetic/src/biguint.rs\<close>: lists of 32-bit limbs with
  the schoolbook algorithms of Knuth. An index outside the limbs and a division by zero panic in
  the source; they are \<open>None\<close> here, so that a theorem that gives \<open>Some\<close> also says that the code
  does not panic. The loops are recursions over the list of the indices they run through.
  Double limbs are 64-bit words. The second half shows that each operation computes the number
  it should.
\<close>


section \<open>Limbs\<close>

text \<open>The base, in the type of two limbs.\<close>

definition SHIFT :: nat where
  "SHIFT = 32"

definition BASE :: u64 where
  "BASE = ucast (- 1 :: u32) + 1"

definition split_double :: "u64 \<Rightarrow> u32 \<times> u32" where
  "split_double a = (ucast (drop_bit SHIFT a), ucast a)"

definition mul_single :: "u32 \<Rightarrow> u32 \<Rightarrow> u64" where
  "mul_single a b = ucast a * ucast b"

definition add_single :: "u32 \<Rightarrow> u32 \<Rightarrow> u32 \<times> u32" where
  "add_single a b = (case split_double (ucast a + ucast b) of (carry, r) \<Rightarrow> (r, carry))"

text \<open>Division by zero panics.\<close>

definition div_single :: "u64 \<Rightarrow> u32 \<Rightarrow> (u64 \<times> u32) option" where
  "div_single a b = (if b = 0 then None else Some (a div ucast b, ucast (a mod ucast b)))"

section \<open>Numbers\<close>

text \<open>The most significant limb comes first; indices count from the least significant one.\<close>

datatype biguint = BigUint (digits: "u32 list")

definition with_capacity :: "nat \<Rightarrow> biguint" where
  "with_capacity n = BigUint (replicate (max n 1) 0)"

definition big_zero :: biguint where
  "big_zero = BigUint [0]"

definition big_one :: biguint where
  "big_one = BigUint [1]"

definition from_limbs :: "u32 list \<Rightarrow> biguint" where
  "from_limbs ls = (if ls \<noteq> [] then BigUint ls else big_zero)"

definition big_len :: "biguint \<Rightarrow> nat" where
  "big_len b = length (digits b)"

definition big_get :: "biguint \<Rightarrow> nat \<Rightarrow> u32 option" where
  "big_get b index = (if index < big_len b then Some (digits b ! (big_len b - 1 - index)) else None)"

definition checked_get :: "biguint \<Rightarrow> nat \<Rightarrow> u32 option" where
  "checked_get b index =
     (if big_len b = 0 then None
      else let i = big_len b - 1 in
        if i < index then None
        else let j = i - index in if j < big_len b then Some (digits b ! j) else None)"

definition big_set :: "biguint \<Rightarrow> nat \<Rightarrow> u32 \<Rightarrow> biguint option" where
  "big_set b index v =
     (if index < big_len b then Some (BigUint ((digits b)[big_len b - 1 - index := v])) else None)"

definition big_lsb :: "biguint \<Rightarrow> u32 option" where
  "big_lsb b = (if digits b = [] then None else Some (digits b ! (big_len b - 1)))"

definition big_msb :: "biguint \<Rightarrow> u32 option" where
  "big_msb b = (if digits b = [] then None else Some (digits b ! 0))"

definition big_is_zero :: "biguint \<Rightarrow> bool" where
  "big_is_zero b = list_all (\<lambda>d. d = 0) (digits b)"

text \<open>\<open>iter().position(|&elem| elem != 0)\<close>.\<close>

fun first_nonzero :: "u32 list \<Rightarrow> nat option" where
  "first_nonzero [] = None"
| "first_nonzero (d # ds) = (if d \<noteq> 0 then Some 0 else map_option Suc (first_nonzero ds))"

definition lstrip :: "biguint \<Rightarrow> biguint" where
  "lstrip b =
     (if big_len b = 0 then b
      else let index = (case first_nonzero (digits b) of None \<Rightarrow> big_len b - 1 | Some i \<Rightarrow> i)
        in if 0 < index then BigUint (drop index (digits b)) else b)"

definition lpad :: "biguint \<Rightarrow> nat \<Rightarrow> biguint" where
  "lpad b n = (if n \<le> big_len b then b else BigUint (replicate (n - big_len b) 0 @ digits b))"

section \<open>Comparison\<close>

datatype ordering = Less | Equal | Greater

definition cmp_nat :: "nat \<Rightarrow> nat \<Rightarrow> ordering" where
  "cmp_nat a b = (if a < b then Less else if a = b then Equal else Greater)"

fun cmp_slices :: "u32 list \<Rightarrow> u32 list \<Rightarrow> ordering" where
  "cmp_slices [] [] = Equal"
| "cmp_slices [] (_ # _) = Less"
| "cmp_slices (_ # _) [] = Greater"
| "cmp_slices (a # as) (b # bs) = (if a < b then Less else if b < a then Greater else cmp_slices as bs)"

definition big_cmp :: "biguint \<Rightarrow> biguint \<Rightarrow> ordering" where
  "big_cmp a b =
     (case (first_nonzero (digits a), first_nonzero (digits b)) of
        (None, None) \<Rightarrow> Equal
      | (Some _, None) \<Rightarrow> Greater
      | (None, Some _) \<Rightarrow> Less
      | (Some i, Some j) \<Rightarrow>
          let lhs = drop i (digits a); rhs = drop j (digits b);
              len_cmp = cmp_nat (length lhs) (length rhs)
          in if len_cmp = Equal then cmp_slices lhs rhs else len_cmp)"

section \<open>Addition and subtraction\<close>

definition limb_or_zero :: "biguint \<Rightarrow> nat \<Rightarrow> u64" where
  "limb_or_zero b j = (case checked_get b j of None \<Rightarrow> 0 | Some d \<Rightarrow> ucast d)"

fun add_loop :: "biguint \<Rightarrow> biguint \<Rightarrow> nat list \<Rightarrow> u64 \<Rightarrow> biguint \<Rightarrow> (u64 \<times> biguint) option" where
  "add_loop u v [] k w = Some (k, w)"
| "add_loop u v (j # js) k w =
     (let s = limb_or_zero u j + limb_or_zero v j + k in
      do { w' \<leftarrow> big_set w j (ucast (s mod BASE)); add_loop u v js (s div BASE) w' })"

definition big_add :: "biguint \<Rightarrow> biguint \<Rightarrow> biguint option" where
  "big_add u v =
     (let n = max (big_len u) (big_len v) in
      do { (k, w) \<leftarrow> add_loop u v [0..<n] 0 (with_capacity (n + 1)); big_set w n (ucast k) })"

definition checked_sub64 :: "u64 \<Rightarrow> u64 \<Rightarrow> u64 option" where
  "checked_sub64 a b = (if b \<le> a then Some (a - b) else None)"

fun sub_loop :: "biguint \<Rightarrow> biguint \<Rightarrow> nat list \<Rightarrow> u64 \<Rightarrow> biguint \<Rightarrow> (u64 \<times> biguint) option" where
  "sub_loop u v [] k w = Some (k, w)"
| "sub_loop u v (j # js) k w =
     (let a = limb_or_zero u j; b = limb_or_zero v j;
          (s, k') = (case Option.bind (checked_sub64 a b) (\<lambda>v1. checked_sub64 v1 k) of
                       Some v2 \<Rightarrow> (v2, 0)
                     | None \<Rightarrow> (a + BASE - b - k, 1))
      in do { w' \<leftarrow> big_set w j (ucast s); sub_loop u v js k' w' })"

text \<open>\<open>Inr\<close> is \<open>Ok\<close>, \<open>Inl\<close> is \<open>Err\<close>.\<close>

definition big_sub :: "biguint \<Rightarrow> biguint \<Rightarrow> (biguint + biguint) option" where
  "big_sub u v =
     (let n = max (big_len u) (big_len v) in
      do { (k, w) \<leftarrow> sub_loop u v [0..<n] 0 (with_capacity n); Some (if k = 0 then Inr w else Inl w) })"

section \<open>Multiplication\<close>

fun mul_inner :: "biguint \<Rightarrow> biguint \<Rightarrow> nat \<Rightarrow> nat list \<Rightarrow> u32 \<Rightarrow> biguint \<Rightarrow> (u32 \<times> biguint) option" where
  "mul_inner u v j [] k w = Some (k, w)"
| "mul_inner u v j (i # is) k w =
     do { a \<leftarrow> big_get u j; b \<leftarrow> big_get v i; c \<leftarrow> big_get w (i + j);
          let t = mul_single a b + ucast c + ucast k;
          w' \<leftarrow> big_set w (i + j) (ucast (t mod BASE));
          mul_inner u v j is (ucast (t div BASE)) w' }"

fun mul_outer :: "biguint \<Rightarrow> biguint \<Rightarrow> nat list \<Rightarrow> biguint \<Rightarrow> biguint option" where
  "mul_outer u v [] w = Some w"
| "mul_outer u v (j # js) w =
     do { a \<leftarrow> big_get u j;
          if a = 0 then mul_outer u v js w
          else do { (k, w') \<leftarrow> mul_inner u v j [0..<big_len v] 0 w;
                    w'' \<leftarrow> big_set w' (j + big_len v) k;
                    mul_outer u v js w'' } }"

definition big_mul :: "biguint \<Rightarrow> biguint \<Rightarrow> biguint option" where
  "big_mul u v = mul_outer u v [0..<big_len u] (with_capacity (big_len v + big_len u))"

section \<open>Division by one limb\<close>

fun div_unit_loop :: "biguint \<Rightarrow> u32 \<Rightarrow> nat list \<Rightarrow> u32 \<Rightarrow> biguint \<Rightarrow> biguint option" where
  "div_unit_loop u other [] r out = Some out"
| "div_unit_loop u other (d # ds) r out =
     do { x \<leftarrow> big_get u d;
          (q, rr) \<leftarrow> div_single (ucast r * BASE + ucast x) other;
          out' \<leftarrow> big_set out d (ucast q);
          div_unit_loop u other ds rr out' }"

definition div_unit :: "biguint \<Rightarrow> u32 \<Rightarrow> biguint option" where
  "div_unit u other =
     div_unit_loop u (max other 1) (rev [0..<big_len u]) 0 (with_capacity (big_len u))"

section \<open>Conversions\<close>

definition from_u32 :: "u32 \<Rightarrow> biguint" where
  "from_u32 a = BigUint [a]"

definition from_u64 :: "u64 \<Rightarrow> biguint" where
  "from_u64 a = (case split_double a of (ah, al) \<Rightarrow> BigUint [ah, al])"

definition split128 :: "u128 \<Rightarrow> u64 \<times> u64" where
  "split128 a = (ucast (drop_bit 64 a), ucast a)"

definition to_big_uint :: "u128 \<Rightarrow> biguint" where
  "to_big_uint x =
     (case split128 x of (xh, xl) \<Rightarrow> case split_double xh of (xhh, xhl) \<Rightarrow> case split_double xl of (xlh, xll) \<Rightarrow>
        lstrip (from_limbs [xhh, xhl, xlh, xll]))"

definition big_try_into_u128 :: "biguint \<Rightarrow> u128 option" where
  "big_try_into_u128 b =
     (let v = lstrip b in
      if 128 < big_len v * SHIFT then None
      else Some (fold (\<lambda>(i, d) acc. acc + push_bit (SHIFT * i) (ucast d)) (enumerate 0 (rev (digits v))) 0))"

definition big_try_into_u64 :: "biguint \<Rightarrow> u64 option" where
  "big_try_into_u64 b =
     (let v = lstrip b in
      if 64 < big_len v * SHIFT then None
      else Some (fold (\<lambda>(i, d) acc. acc + push_bit (SHIFT * i) (ucast d)) (enumerate 0 (rev (digits v))) 0))"

text \<open>\<open>ops::Sub\<close> ignores the borrow.\<close>

definition big_sub_wrapping :: "biguint \<Rightarrow> biguint \<Rightarrow> biguint option" where
  "big_sub_wrapping u v = map_option (\<lambda>r. case r of Inr w \<Rightarrow> w | Inl w \<Rightarrow> w) (big_sub u v)"

section \<open>Long division\<close>

definition leading_zeros32 :: "u32 \<Rightarrow> u32" where
  "leading_zeros32 n = of_nat (32 - length (dropWhile (\<lambda>i. \<not> bit n i) (rev [0..<32])))"

definition overflowing_shl :: "u32 \<Rightarrow> u32 \<Rightarrow> u32" where
  "overflowing_shl w k = push_bit (unat k mod 32) w"

text \<open>The closure \<open>test\<close> of step D3: whether the estimate was too large, and the corrected one.\<close>

definition qhat_test :: "u32 \<Rightarrow> u32 \<Rightarrow> u32 \<Rightarrow> u64 \<Rightarrow> u64 \<Rightarrow> bool \<times> u64 \<times> u64" where
  "qhat_test v1 v2 x2 qhat rhat =
     (let predicate_1 = BASE \<le> qhat;
          predicate_2 = BASE * rhat + ucast x2 < qhat * ucast v2
      in if predicate_1 \<or> predicate_2 then (True, qhat - 1, rhat + ucast v1) else (False, qhat, rhat))"

partial_function (option) qhat_loop :: "u32 \<Rightarrow> u32 \<Rightarrow> u32 \<Rightarrow> u64 \<Rightarrow> u64 \<Rightarrow> u64 option" where
  "qhat_loop v1 v2 x2 qhat rhat =
     (if rhat < BASE then
        let t = qhat_test v1 v2 x2 qhat rhat
        in if fst t then qhat_loop v1 v2 x2 (fst (snd t)) (snd (snd t)) else Some qhat
      else Some qhat)"

text \<open>The limbs \<open>j\<close> to \<open>j + n\<close> as a number, and writing them back.\<close>

definition window :: "biguint \<Rightarrow> nat \<Rightarrow> nat \<Rightarrow> biguint option" where
  "window s j n = map_option BigUint (those (map (big_get s) (rev [j..<Suc (j + n)])))"

fun set_window :: "nat \<Rightarrow> biguint \<Rightarrow> nat list \<Rightarrow> biguint \<Rightarrow> biguint option" where
  "set_window j sub [] s = Some s"
| "set_window j sub (d # ds) s = do { x \<leftarrow> big_get sub (d - j); s' \<leftarrow> big_set s d x; set_window j sub ds s' }"

text \<open>Step D3: the estimate of one digit of the quotient.\<close>

definition estimate_digit :: "biguint \<Rightarrow> nat \<Rightarrow> nat \<Rightarrow> biguint \<Rightarrow> u64 option" where
  "estimate_digit v n j s =
     do { x0 \<leftarrow> big_get s (j + n); x1 \<leftarrow> big_get s (j + n - 1); v1 \<leftarrow> big_get v (n - 1);
          (qhat, rhat) \<leftarrow> div_single (ucast x0 * BASE + ucast x1) v1;
          v2 \<leftarrow> big_get v (n - 2); x2 \<leftarrow> big_get s (j + n - 2);
          let t = qhat_test v1 v2 x2 qhat (ucast rhat);
          qhat_loop v1 v2 x2 (fst (snd t)) (snd (snd t)) }"

text \<open>Steps D4 to D6 for the digit \<open>j\<close>.\<close>

definition div_step :: "biguint \<Rightarrow> nat \<Rightarrow> nat \<Rightarrow> biguint \<Rightarrow> biguint \<Rightarrow> (biguint \<times> biguint) option" where
  "div_step v n j s q =
     do { qhat \<leftarrow> estimate_digit v n j s;
          lhs \<leftarrow> window s j n;
          rhs \<leftarrow> big_mul v (from_u64 qhat);
          maybe_sub \<leftarrow> big_sub lhs rhs;
          let (sub, negative) = (case maybe_sub of Inr t \<Rightarrow> (t, False) | Inl t \<Rightarrow> (t, True));
          s1 \<leftarrow> set_window j sub [j..<Suc (j + n)] s;
          q1 \<leftarrow> big_set q j (ucast qhat);
          if negative then do {
            qj \<leftarrow> big_get q1 j;
            q2 \<leftarrow> big_set q1 j (qj - 1);
            u \<leftarrow> window s1 j n;
            r \<leftarrow> big_add v u;
            s2 \<leftarrow> set_window j r (rev [j..<Suc (j + n)]) s1;
            Some (s2, q2) }
          else Some (s1, q1) }"

fun div_steps :: "biguint \<Rightarrow> nat \<Rightarrow> nat list \<Rightarrow> biguint \<Rightarrow> biguint \<Rightarrow> (biguint \<times> biguint) option" where
  "div_steps v n [] s q = Some (s, q)"
| "div_steps v n (j # js) s q = do { (s', q') \<leftarrow> div_step v n j s q; div_steps v n js s' q' }"

text \<open>Undoing the normalisation of the remainder.\<close>

fun shift_limbs :: "u32 \<Rightarrow> biguint \<Rightarrow> nat list \<Rightarrow> biguint \<Rightarrow> biguint option" where
  "shift_limbs nb s [] r = Some r"
| "shift_limbs nb s (d # ds) r =
     do { x \<leftarrow> big_get s d; y \<leftarrow> big_get s (d + 1);
          r' \<leftarrow> big_set r d (drop_bit (unat nb) x OR overflowing_shl y (of_nat SHIFT - nb));
          shift_limbs nb s ds r' }"

definition unnormalize :: "u32 \<Rightarrow> nat \<Rightarrow> biguint \<Rightarrow> biguint option" where
  "unnormalize nb n s =
     (if 0 < nb then
        do { r \<leftarrow> shift_limbs nb s [0..<n - 1] (with_capacity n);
             x \<leftarrow> big_get s (n - 1);
             big_set r (n - 1) (drop_bit (unat nb) x) }
      else Some s)"

text \<open>The outer \<open>None\<close> is a panic, the inner one the \<open>None\<close> of the source.\<close>

definition big_div :: "biguint \<Rightarrow> biguint \<Rightarrow> bool \<Rightarrow> (biguint \<times> biguint) option option" where
  "big_div u v rm =
     (if big_len v \<le> 1 then Some None
      else do { vm \<leftarrow> big_msb v;
        if vm = 0 then Some None
        else do { um \<leftarrow> big_msb u;
          if um = 0 \<or> big_len u \<le> big_len v then Some None
          else do {
            let n = big_len v;
            let m = big_len u - n;
            let normalizer_bits = leading_zeros32 vm;
            let normalizer = 2 ^ unat normalizer_bits;
            un \<leftarrow> big_mul u (from_u32 normalizer);
            vn \<leftarrow> big_mul v (from_u32 normalizer);
            (s, q) \<leftarrow> div_steps (lstrip vn) n (rev [0..<Suc m]) (lpad un (n + m + 1)) (with_capacity (m + 1));
            r \<leftarrow> (if rm then unnormalize normalizer_bits n s else Some (with_capacity n));
            Some (Some (q, r)) } } })"

section \<open>Values\<close>

text \<open>The number that limbs stand for: \<open>val f n\<close> reads the first \<open>n\<close> limbs given by \<open>f\<close>, the least
  significant one first.\<close>

definition base :: nat where
  "base = 2 ^ 32"

definition val :: "(nat \<Rightarrow> nat) \<Rightarrow> nat \<Rightarrow> nat" where
  "val f n = (\<Sum>i<n. f i * base ^ i)"

definition limb :: "biguint \<Rightarrow> nat \<Rightarrow> nat" where
  "limb b i = (case big_get b i of None \<Rightarrow> 0 | Some x \<Rightarrow> unat x)"

definition big_value :: "biguint \<Rightarrow> nat" where
  "big_value b = val (limb b) (big_len b)"

lemma base_pos [simp]: "0 < base" "1 < base" "Suc 0 < base"
  by (simp_all add: base_def)

lemma val_0 [simp]: "val f 0 = 0"
  by (simp add: val_def)

lemma val_Suc: "val f (Suc n) = val f n + f n * base ^ n"
  by (simp add: val_def)

lemma val_cong: "(\<And>i. i < n \<Longrightarrow> f i = g i) \<Longrightarrow> val f n = val g n"
  by (simp add: val_def)

lemma val_split: "val f (m + n) = val f m + base ^ m * val (\<lambda>i. f (m + i)) n"
  by (induction n) (simp_all add: val_Suc power_add algebra_simps)

lemma val_less: "(\<And>i. i < n \<Longrightarrow> f i < base) \<Longrightarrow> val f n < base ^ n"
proof (induction n)
  case (Suc n)
  have "val f n < base ^ n" "f n \<le> base - 1" using Suc by (force simp: less_Suc_eq)+
  then have "val f (Suc n) < base ^ n + (base - 1) * base ^ n" unfolding val_Suc by (intro add_less_le_mono mult_le_mono1)
  also have "\<dots> = base ^ Suc n" by (simp add: base_def algebra_simps)
  finally show ?case .
qed simp

lemma val_update_above [simp]: "n \<le> i \<Longrightarrow> val (f(i := x)) n = val f n"
  by (rule val_cong) simp

lemma val_update:
  assumes "i < n"
  shows "val (f(i := x)) n + f i * base ^ i = val f n + x * base ^ i"
proof -
  have i: "i \<in> {..<n}" using assms by simp
  show ?thesis
    using sum.remove [OF _ i, of "\<lambda>j. f j * base ^ j"] sum.remove [OF _ i, of "\<lambda>j. (f(i := x)) j * base ^ j"]
    by (simp add: val_def)
qed

lemma val_trailing: "m \<le> n \<Longrightarrow> (\<And>i. m \<le> i \<Longrightarrow> i < n \<Longrightarrow> f i = 0) \<Longrightarrow> val f n = val f m"
proof (induction n)
  case (Suc n)
  then show ?case by (cases "m = Suc n") (simp_all add: val_Suc)
qed simp

subsection \<open>Accessors\<close>

lemma unat32_less [simp]: "unat (x :: u32) < base"
  using unsigned_less [of x] by (simp add: base_def)

lemma big_get_None: "big_get b i = None \<longleftrightarrow> big_len b \<le> i"
  by (simp add: big_get_def not_less)

lemma limb_beyond [simp]: "big_len b \<le> i \<Longrightarrow> limb b i = 0"
  by (simp add: limb_def big_get_def)

lemma big_getE:
  assumes "i < big_len b"
  obtains x where "big_get b i = Some x" "unat x = limb b i"
  using assms by (auto simp: big_get_def limb_def)

lemma limb_less [simp]: "limb b i < base"
  by (cases "big_get b i") (simp_all add: limb_def)

lemma limb_digits: "limb b j = (if j < length (digits b) then unat (digits b ! (length (digits b) - Suc j)) else 0)"
  by (simp add: limb_def big_get_def big_len_def)

lemma big_setE:
  assumes "i < big_len b"
  obtains b' where "big_set b i v = Some b'" "big_len b' = big_len b" "limb b' = (limb b)(i := unat v)"
proof -
  let ?n = "length (digits b)"
  let ?b = "BigUint ((digits b)[?n - Suc i := v])"
  have i: "i < ?n" using assms by (simp add: big_len_def)
  have "limb ?b j = ((limb b)(i := unat v)) j" for j
  proof (cases "j < ?n")
    case True
    then have "?n - Suc i = ?n - Suc j \<longleftrightarrow> i = j" "?n - Suc j < ?n" using i by auto
    then show ?thesis using True by (auto simp: limb_digits nth_list_update)
  qed (use i in \<open>auto simp: limb_digits\<close>)
  then have "limb ?b = (limb b)(i := unat v)" by (rule ext)
  then show thesis using that [of ?b] i by (simp add: big_set_def big_len_def)
qed

lemma with_capacity_simps [simp]: "big_len (with_capacity n) = max n 1" "limb (with_capacity n) i = 0"
  by (auto simp: with_capacity_def big_len_def limb_def big_get_def)

lemma checked_get_eq: "checked_get b i = big_get b i"
  by (auto simp: checked_get_def big_get_def Let_def)

lemma BASE_eq: "BASE = 4294967296"
  by code_simp

lemma unat_BASE [simp]: "unat BASE = base"
  by (simp add: BASE_eq base_def)

lemma unat_ucast_up [simp]: "unat (ucast (x :: u32) :: u64) = unat x"
proof -
  have "unat x < 2 ^ 64" by (rule less_trans [OF unat32_less]) (simp add: base_def)
  then show ?thesis by (simp add: unsigned_ucast_eq take_bit_nat_eq_self)
qed

lemma unat_limb_or_zero [simp]: "unat (limb_or_zero b j) = limb b j"
  by (cases "big_get b j") (simp_all add: limb_or_zero_def checked_get_eq limb_def)

lemma val_beyond: "big_len b \<le> n \<Longrightarrow> val (limb b) n = big_value b"
  unfolding big_value_def by (rule val_trailing) simp_all

lemma big_value_less: "big_value b < base ^ big_len b"
  unfolding big_value_def by (rule val_less) simp

subsection \<open>Words\<close>

lemma base_square: "base * base = 2 ^ 64"
  by (simp add: base_def)

lemma unat64_add: "unat a + unat b < base * base \<Longrightarrow> unat (a + b :: u64) = unat a + unat b"
  by (simp add: base_def unat_word_ariths)

lemma unat64_mult: "unat a * unat b < base * base \<Longrightarrow> unat (a * b :: u64) = unat a * unat b"
  by (simp add: base_def unat_word_ariths)

lemma unat_ucast_down: "unat (ucast (x :: u64) :: u32) = unat x mod base"
  by (simp add: unsigned_ucast_eq base_def take_bit_eq_mod)

subsection \<open>Addition\<close>

lemma digit_carry:
  assumes "s = r + base * q" "r < base"
  shows "s mod base = r" "s div base = q"
  using assms by simp_all

lemma add_step:
  assumes "unat k \<le> 1" and s: "s = limb_or_zero u j + limb_or_zero v j + k"
  shows "unat s = limb u j + limb v j + unat k" "unat (s div BASE) \<le> 1"
    "unat (ucast (s mod BASE) :: u32) + base * unat (s div BASE) = limb u j + limb v j + unat k"
proof -
  have b: "limb u j \<le> base - 1" "limb v j \<le> base - 1" using limb_less [of u j] limb_less [of v j] by linarith+
  have "limb u j + limb v j + unat k < base * base" using b assms(1) by (simp add: base_def)
  then show u: "unat s = limb u j + limb v j + unat k" unfolding s by (simp add: unat64_add)
  have "unat s < 2 * base" using b assms(1) by (simp add: u base_def)
  then have "unat s div base < 2" by (simp add: less_mult_imp_div_less)
  then show "unat (s div BASE) \<le> 1" by (simp add: unat_div)
  show "unat (ucast (s mod BASE) :: u32) + base * unat (s div BASE) = limb u j + limb v j + unat k"
    by (simp add: unat_ucast_down unat_mod unat_div flip: u)
qed

lemma add_loop_val:
  assumes "unat k \<le> 1" "j \<le> n" "n \<le> big_len w"
  shows "\<exists>k' w'. add_loop u v [j..<n] k w = Some (k', w') \<and> big_len w' = big_len w \<and> unat k' \<le> 1 \<and>
    (\<forall>i. i < j \<or> n \<le> i \<longrightarrow> limb w' i = limb w i) \<and>
    val (limb w') n + unat k' * base ^ n + (val (limb u) j + val (limb v) j) =
      val (limb w) j + unat k * base ^ j + (val (limb u) n + val (limb v) n)"
  using assms
proof (induction "n - j" arbitrary: j k w)
  case 0
  then show ?case by simp
next
  case (Suc d)
  then have j: "j < n" "d = n - Suc j" by simp_all
  define s where "s = limb_or_zero u j + limb_or_zero v j + k"
  note st = add_step [OF Suc.prems(1) s_def]
  obtain w1 where w1: "big_set w j (ucast (s mod BASE)) = Some w1" "big_len w1 = big_len w"
    "limb w1 = (limb w)(j := unat (ucast (s mod BASE) :: u32))"
    by (rule big_setE [of j w "ucast (s mod BASE)"]) (use j Suc.prems in simp_all)
  obtain k' w' where w': "add_loop u v [Suc j..<n] (s div BASE) w1 = Some (k', w')" "big_len w' = big_len w1" "unat k' \<le> 1"
    "\<forall>i. i < Suc j \<or> n \<le> i \<longrightarrow> limb w' i = limb w1 i"
    "val (limb w') n + unat k' * base ^ n + (val (limb u) (Suc j) + val (limb v) (Suc j)) =
      val (limb w1) (Suc j) + unat (s div BASE) * base ^ Suc j + (val (limb u) n + val (limb v) n)"
    using Suc.hyps(1) [OF j(2) st(2), of w1] j w1(2) Suc.prems by auto
  have "add_loop u v [j..<n] k w = Some (k', w')"
    using j w1(1) w'(1) by (simp add: upt_conv_Cons s_def [symmetric] Let_def)
  moreover have "\<forall>i. i < j \<or> n \<le> i \<longrightarrow> limb w' i = limb w i" using w'(4) j(1) by (auto simp: w1(3))
  moreover have "val (limb w1) (Suc j) + unat (s div BASE) * base ^ Suc j =
      val (limb w) j + (limb u j + limb v j + unat k) * base ^ j"
    unfolding st(3) [symmetric] val_Suc w1(3) by (simp add: algebra_simps)
  then have "val (limb w') n + unat k' * base ^ n + (val (limb u) j + val (limb v) j) =
      val (limb w) j + unat k * base ^ j + (val (limb u) n + val (limb v) n)"
    using w'(5) unfolding val_Suc [of "limb u" j] val_Suc [of "limb v" j] by (simp add: algebra_simps)
  ultimately show ?case using w'(2,3) w1(2) by auto
qed

lemma big_add_val:
  "\<exists>w. big_add u v = Some w \<and> big_len w = max (big_len u) (big_len v) + 1 \<and>
     big_value w = big_value u + big_value v"
proof -
  define n where "n = max (big_len u) (big_len v)"
  have le: "big_len u \<le> n" "big_len v \<le> n" by (simp_all add: n_def)
  have c: "big_len (with_capacity (n + 1)) = n + 1" by simp
  obtain k w where w: "add_loop u v [0..<n] 0 (with_capacity (n + 1)) = Some (k, w)" "big_len w = n + 1" "unat k \<le> 1"
    "\<forall>i\<ge>n. limb w i = 0" "val (limb w) n + unat k * base ^ n = val (limb u) n + val (limb v) n"
    using add_loop_val [of 0 0 n "with_capacity (n + 1)" u v] unfolding c by auto
  obtain w' where w': "big_set w n (ucast k) = Some w'" "big_len w' = big_len w" "limb w' = (limb w)(n := unat (ucast k :: u32))"
    by (rule big_setE [of n w "ucast k"]) (use w(2) in simp_all)
  have "unat (ucast k :: u32) = unat k" using w(3) le_less_trans [OF w(3) base_pos(2)] by (simp add: unat_ucast_down)
  then have "big_value w' = val (limb w) n + unat k * base ^ n"
    unfolding big_value_def w'(2,3) w(2) Suc_eq_plus1 [symmetric] val_Suc by simp
  then show ?thesis using w w' le by (simp add: big_add_def n_def [symmetric] val_beyond)
qed

subsection \<open>Subtraction\<close>

lemma sub_step:
  fixes k' :: u64
  assumes k: "unat k \<le> 1" and s: "(s, k') = (case Option.bind (checked_sub64 (limb_or_zero u j) (limb_or_zero v j)) (\<lambda>v1. checked_sub64 v1 k) of
      Some v2 \<Rightarrow> (v2, 0) | None \<Rightarrow> (limb_or_zero u j + BASE - limb_or_zero v j - k, 1))"
  shows "unat k' \<le> 1" "unat (ucast s :: u32) + limb v j + unat k = limb u j + base * unat k'"
proof -
  let ?a = "limb_or_zero u j" and ?b = "limb_or_zero v j"
  note lt = limb_less [of u j] limb_less [of v j]
  show "unat k' \<le> 1" using s by (auto split: option.splits)
  show "unat (ucast s :: u32) + limb v j + unat k = limb u j + base * unat k'"
  proof (cases "limb v j + unat k \<le> limb u j")
    case True
    then have b: "?b \<le> ?a" by (simp add: word_le_nat_alt)
    then have "unat (?a - ?b) = limb u j - limb v j" by (simp add: unat_sub)
    moreover from this have k': "k \<le> ?a - ?b" using True by (simp add: word_le_nat_alt)
    ultimately have "unat (?a - ?b - k) = limb u j - limb v j - unat k" by (simp add: unat_sub)
    moreover have "limb u j - (limb v j + unat k) < base" using lt by linarith
    ultimately show ?thesis using s b k' True by (simp add: checked_sub64_def unat_ucast_down)
  next
    case False
    have "Option.bind (checked_sub64 ?a ?b) (\<lambda>v1. checked_sub64 v1 k) = None"
    proof (cases "?b \<le> ?a")
      case True
      then have "unat (?a - ?b) = limb u j - limb v j" by (simp add: unat_sub)
      then show ?thesis using True False by (auto simp: checked_sub64_def word_le_nat_alt)
    qed (simp add: checked_sub64_def)
    then have sk: "s = ?a + BASE - ?b - k" "k' = 1" using s by simp_all
    have "limb u j + base < base * base" using lt(1) unfolding base_def by simp
    then have ab: "unat (?a + BASE) = limb u j + base" by (simp add: unat64_add)
    then have "unat (?a + BASE - ?b) = limb u j + base - limb v j" using less_imp_le [OF lt(2)] by (subst unat_sub) (simp_all add: word_le_nat_alt)
    moreover have "unat k \<le> limb u j + base - limb v j" using lt k by linarith
    ultimately have "unat s = limb u j + base - limb v j - unat k"
      unfolding sk by (subst unat_sub) (simp_all add: word_le_nat_alt)
    moreover have "limb u j + base - limb v j - unat k < base" using False base_pos(1) by linarith
    ultimately have "unat (ucast s :: u32) = limb u j + base - limb v j - unat k" by (simp add: unat_ucast_down)
    moreover have "limb v j + unat k \<le> limb u j + base" using lt k by linarith
    ultimately show ?thesis using sk(2) by simp
  qed
qed

lemma sub_loop_val:
  assumes "unat k \<le> 1" "j \<le> n" "n \<le> big_len w"
  shows "\<exists>k' w'. sub_loop u v [j..<n] k w = Some (k', w') \<and> big_len w' = big_len w \<and> unat k' \<le> 1 \<and>
    (\<forall>i. i < j \<or> n \<le> i \<longrightarrow> limb w' i = limb w i) \<and>
    val (limb w') n + val (limb v) n + unat k * base ^ j + val (limb u) j =
      val (limb w) j + val (limb v) j + val (limb u) n + unat k' * base ^ n"
  using assms
proof (induction "n - j" arbitrary: j k w)
  case 0
  then show ?case by simp
next
  case (Suc d)
  then have j: "j < n" "d = n - Suc j" by simp_all
  obtain s and k1 :: u64 where s: "(s, k1) = (case Option.bind (checked_sub64 (limb_or_zero u j) (limb_or_zero v j)) (\<lambda>v1. checked_sub64 v1 k) of
      Some v2 \<Rightarrow> (v2, 0) | None \<Rightarrow> (limb_or_zero u j + BASE - limb_or_zero v j - k, 1))" by (metis prod.exhaust)
  note st = sub_step [OF Suc.prems(1) s]
  obtain w1 where w1: "big_set w j (ucast s) = Some w1" "big_len w1 = big_len w" "limb w1 = (limb w)(j := unat (ucast s :: u32))"
    by (rule big_setE [of j w "ucast s"]) (use j Suc.prems in simp_all)
  obtain k' w' where w': "sub_loop u v [Suc j..<n] k1 w1 = Some (k', w')" "big_len w' = big_len w1" "unat k' \<le> 1"
    "\<forall>i. i < Suc j \<or> n \<le> i \<longrightarrow> limb w' i = limb w1 i"
    "val (limb w') n + val (limb v) n + unat k1 * base ^ Suc j + val (limb u) (Suc j) =
      val (limb w1) (Suc j) + val (limb v) (Suc j) + val (limb u) n + unat k' * base ^ n"
    using Suc.hyps(1) [OF j(2) st(1), of w1] j w1(2) Suc.prems by auto
  have "sub_loop u v [j..<n] k w = Some (k', w')"
    using j w1(1) w'(1) by (simp add: upt_conv_Cons Let_def s [symmetric])
  moreover have "\<forall>i. i < j \<or> n \<le> i \<longrightarrow> limb w' i = limb w i" using w'(4) j(1) by (auto simp: w1(3))
  moreover have "val (limb w1) (Suc j) = val (limb w) j + unat (ucast s :: u32) * base ^ j" unfolding val_Suc w1(3) by simp
  then have "val (limb w1) (Suc j) + limb v j * base ^ j + unat k * base ^ j = val (limb w) j + (limb u j + base * unat k1) * base ^ j"
    unfolding st(2) [symmetric] by (simp add: algebra_simps)
  then have "val (limb w') n + val (limb v) n + unat k * base ^ j + val (limb u) j =
      val (limb w) j + val (limb v) j + val (limb u) n + unat k' * base ^ n"
    using w'(5) unfolding val_Suc [of "limb u" j] val_Suc [of "limb v" j] by (simp add: algebra_simps)
  ultimately show ?case using w'(2,3) w1(2) by auto
qed

text \<open>With a length of at least one on both sides: the difference, or the difference plus the next
  power of the base if it is negative.\<close>

lemma big_sub_val:
  assumes "0 < big_len u"
  shows "\<exists>w. big_len w = max (big_len u) (big_len v) \<and>
    big_sub u v = Some (if big_value v \<le> big_value u then Inr w else Inl w) \<and>
    big_value w + big_value v = big_value u + (if big_value v \<le> big_value u then 0 else base ^ max (big_len u) (big_len v))"
proof -
  define n where "n = max (big_len u) (big_len v)"
  have le: "big_len u \<le> n" "big_len v \<le> n" "0 < n" using assms by (simp_all add: n_def)
  have c: "big_len (with_capacity n) = n" using le(3) by simp
  obtain k w where w: "sub_loop u v [0..<n] 0 (with_capacity n) = Some (k, w)" "big_len w = n" "unat k \<le> 1"
    "val (limb w) n + val (limb v) n = val (limb u) n + unat k * base ^ n"
    using sub_loop_val [of 0 0 n "with_capacity n" u v] unfolding c by auto
  have v: "big_value w + big_value v = big_value u + unat k * base ^ n"
    using w(4) val_beyond [OF le(1)] val_beyond [OF le(2)] by (simp add: big_value_def [of w] w(2))
  have "big_value w < base ^ n" using big_value_less [of w] w(2) by simp
  then have "big_value v \<le> big_value u \<longleftrightarrow> unat k = 0"
    using v w(3) by (cases "unat k = 0") (auto simp: le_Suc_eq)
  moreover have "unat k = 1" if "unat k \<noteq> 0" using that w(3) by linarith
  ultimately show ?thesis using v w by (intro exI [of _ w]) (auto simp: big_sub_def n_def [symmetric] unat_eq_zero)
qed

subsection \<open>Multiplication\<close>

lemma mul_single_val:
  fixes a b c k :: u32
  shows "unat (mul_single a b + ucast c + ucast k) = unat a * unat b + unat c + unat k"
proof -
  define x where "x = base - 1"
  have x: "unat a \<le> x" "unat b \<le> x" "unat c \<le> x" "unat k \<le> x"
    using unat32_less [of a] unat32_less [of b] unat32_less [of c] unat32_less [of k] unfolding x_def by linarith+
  have "unat a * unat b \<le> x * x" using x by (intro mult_le_mono)
  moreover have "x * x + x + x < base * base" by (simp add: x_def base_def)
  ultimately have s: "unat a * unat b + unat c + unat k < base * base" using x by linarith
  then have "unat (mul_single a b) = unat a * unat b" by (simp add: mul_single_def unat64_mult)
  then show ?thesis using s by (simp add: unat64_add)
qed

lemma mul_inner_val:
  assumes "j < big_len u" "big_len v + j \<le> N" "N \<le> big_len w" "i \<le> big_len v"
  shows "\<exists>k' w'. mul_inner u v j [i..<big_len v] k w = Some (k', w') \<and> big_len w' = big_len w \<and>
    (\<forall>t. big_len v + j \<le> t \<longrightarrow> limb w' t = limb w t) \<and>
    val (limb w') N + unat k' * base ^ (big_len v + j) + limb u j * val (limb v) i * base ^ j =
      val (limb w) N + unat k * base ^ (i + j) + limb u j * val (limb v) (big_len v) * base ^ j"
  using assms(3,4)
proof (induction "big_len v - i" arbitrary: i k w)
  case 0
  then show ?case by simp
next
  case (Suc d)
  then have i: "i < big_len v" "d = big_len v - Suc i" by simp_all
  have ij: "i + j < N" "i + j < big_len w" using i(1) assms(2) Suc.prems(1) by simp_all
  obtain a where a: "big_get u j = Some a" "unat a = limb u j" by (rule big_getE [OF assms(1)])
  obtain b where b: "big_get v i = Some b" "unat b = limb v i" by (rule big_getE [OF i(1)])
  obtain c where c: "big_get w (i + j) = Some c" "unat c = limb w (i + j)" by (rule big_getE [OF ij(2)])
  define t where "t = mul_single a b + ucast c + ucast k"
  have t: "unat t = limb u j * limb v i + limb w (i + j) + unat k" by (simp add: t_def mul_single_val a b c)
  define Q where "Q = unat t div base"
  define R where "R = unat t mod base"
  have QR: "Q * base + R = limb u j * limb v i + limb w (i + j) + unat k" unfolding t [symmetric] Q_def R_def by simp
  have "unat t < base * base" using unsigned_less [of t] by (simp add: base_def)
  then have "unat t div base < base" by (simp add: less_mult_imp_div_less)
  then have q: "unat (ucast (t div BASE) :: u32) = Q" by (simp add: unat_ucast_down unat_div Q_def)
  have r: "unat (ucast (t mod BASE) :: u32) = R" by (simp add: unat_ucast_down unat_mod R_def)
  obtain w1 where w1: "big_set w (i + j) (ucast (t mod BASE)) = Some w1" "big_len w1 = big_len w"
    "limb w1 = (limb w)(i + j := R)"
    by (rule big_setE [OF ij(2), of "ucast (t mod BASE)"]) (simp add: r)
  obtain k' w' where w': "mul_inner u v j [Suc i..<big_len v] (ucast (t div BASE)) w1 = Some (k', w')" "big_len w' = big_len w1"
    "\<forall>t. big_len v + j \<le> t \<longrightarrow> limb w' t = limb w1 t"
    "val (limb w') N + unat k' * base ^ (big_len v + j) + limb u j * val (limb v) (Suc i) * base ^ j =
      val (limb w1) N + Q * base ^ (Suc i + j) + limb u j * val (limb v) (big_len v) * base ^ j"
    using Suc.hyps(1) [OF i(2), of w1 "ucast (t div BASE)"] i w1(2) Suc.prems unfolding q by auto
  have "mul_inner u v j [i..<big_len v] k w = Some (k', w')"
    using i(1) a(1) b(1) c(1) w1(1) w'(1) by (simp add: upt_conv_Cons t_def [symmetric] Let_def)
  moreover have "\<forall>t. big_len v + j \<le> t \<longrightarrow> limb w' t = limb w t" using w'(3) i(1) by (auto simp: w1(3))
  moreover have "val (limb w1) N + limb w (i + j) * base ^ (i + j) = val (limb w) N + R * base ^ (i + j)"
    unfolding w1(3) by (rule val_update [OF ij(1)])
  then have "val (limb w1) N + limb w (i + j) * base ^ (i + j) + Q * base ^ (Suc i + j) =
      val (limb w) N + (Q * base + R) * base ^ (i + j)" by (simp add: algebra_simps)
  then have "val (limb w1) N + Q * base ^ (Suc i + j) =
      val (limb w) N + (limb u j * limb v i + unat k) * base ^ (i + j)"
    unfolding QR by (simp add: algebra_simps)
  then have "val (limb w') N + unat k' * base ^ (big_len v + j) + limb u j * val (limb v) i * base ^ j =
      val (limb w) N + unat k * base ^ (i + j) + limb u j * val (limb v) (big_len v) * base ^ j"
    using w'(4) unfolding val_Suc [of "limb v" i] by (simp add: algebra_simps power_add)
  ultimately show ?case using w'(2) w1(2) by auto
qed

lemma mul_outer_val:
  assumes "j \<le> big_len u" "big_len u + big_len v \<le> big_len w" "\<And>t. j + big_len v \<le> t \<Longrightarrow> limb w t = 0"
    "big_value w = val (limb u) j * big_value v"
  shows "\<exists>w'. mul_outer u v [j..<big_len u] w = Some w' \<and> big_len w' = big_len w \<and> big_value w' = big_value u * big_value v"
  using assms
proof (induction "big_len u - j" arbitrary: j w)
  case 0
  then show ?case by (simp add: big_value_def)
next
  case (Suc d)
  then have j: "j < big_len u" "d = big_len u - Suc j" by simp_all
  obtain a where a: "big_get u j = Some a" "unat a = limb u j" by (rule big_getE [OF j(1)])
  show ?case
  proof (cases "a = 0")
    case True
    then have "limb u j = 0" using a(2) by simp
    then have "big_value w = val (limb u) (Suc j) * big_value v" using Suc.prems(4) by (simp add: val_Suc)
    then obtain w' where w': "mul_outer u v [Suc j..<big_len u] w = Some w'" "big_len w' = big_len w"
      "big_value w' = big_value u * big_value v"
      using Suc.hyps(1) [OF j(2), of w] j Suc.prems(2,3) by auto
    then show ?thesis using j a True by (simp add: upt_conv_Cons)
  next
    case False
    let ?N = "big_len w" and ?m = "big_len v"
    have N: "?m + j \<le> ?N" "j + ?m < ?N" using j(1) Suc.prems(2) by simp_all
    obtain k w1 where w1: "mul_inner u v j [0..<?m] 0 w = Some (k, w1)" "big_len w1 = ?N"
      "\<And>t. ?m + j \<le> t \<Longrightarrow> limb w1 t = limb w t"
      "val (limb w1) ?N + unat k * base ^ (?m + j) = val (limb w) ?N + limb u j * val (limb v) ?m * base ^ j"
      using mul_inner_val [OF j(1) N(1), of w 0 0] by auto
    obtain w2 where w2: "big_set w1 (j + ?m) k = Some w2" "big_len w2 = ?N" "limb w2 = (limb w1)(j + ?m := unat k)"
      by (rule big_setE [of "j + ?m" w1 k]) (use N(2) w1(2) in simp_all)
    have "limb w1 (j + ?m) = 0" using w1(3) [of "j + ?m"] Suc.prems(3) [of "j + ?m"] by simp
    then have "big_value w2 = val (limb w1) ?N + unat k * base ^ (?m + j)"
      using val_update [OF N(2), of "limb w1" "unat k"] by (simp add: big_value_def w2 add.commute)
    then have "big_value w2 = val (limb u) (Suc j) * big_value v"
      using w1(4) Suc.prems(4) by (simp add: val_Suc big_value_def algebra_simps)
    moreover have "limb w2 t = 0" if "Suc j + ?m \<le> t" for t using that w1(3) [of t] Suc.prems(3) [of t] by (simp add: w2(3))
    ultimately obtain w' where w': "mul_outer u v [Suc j..<big_len u] w2 = Some w'" "big_len w' = big_len w2"
      "big_value w' = big_value u * big_value v"
      using Suc.hyps(1) [OF j(2), of w2] j Suc.prems(2) w2(2) by auto
    then show ?thesis using j a(1) False w1(1) w2(1,2) by (simp add: upt_conv_Cons)
  qed
qed

lemma big_mul_val:
  "\<exists>w. big_mul u v = Some w \<and> big_len w = max (big_len u + big_len v) 1 \<and> big_value w = big_value u * big_value v"
proof -
  have z: "big_value (with_capacity n) = 0" for n by (simp add: big_value_def val_def)
  show ?thesis
    using mul_outer_val [of 0 u v "with_capacity (big_len v + big_len u)"] by (simp add: big_mul_def z add.commute)
qed

subsection \<open>Division by one limb\<close>

text \<open>The limbs from \<open>d\<close> on as a number.\<close>

definition upper :: "biguint \<Rightarrow> nat \<Rightarrow> nat" where
  "upper b d = val (\<lambda>i. limb b (d + i)) (big_len b - d)"

lemma upper_step: "d < big_len b \<Longrightarrow> upper b d = limb b d + base * upper b (Suc d)"
  using val_split [of "\<lambda>i. limb b (d + i)" 1 "big_len b - Suc d"]
  by (simp add: upper_def val_def Suc_diff_Suc [symmetric] del: sum.lessThan_Suc)

lemma two_digits': "a < n \<Longrightarrow> b < base \<Longrightarrow> a * base + b < n * base"
proof -
  assume "a < n" "b < base"
  then have "a * base + b < (a + 1) * base" by simp
  also have "\<dots> \<le> n * base" using \<open>a < n\<close> by (intro mult_le_mono1) simp
  finally show ?thesis .
qed

lemmas two_digits = two_digits' [of _ base]

lemma div_unit_loop_val:
  assumes "0 < other" "unat r < unat other" "d \<le> big_len u" "big_len out = big_len u"
    "upper u d = upper out d * unat other + unat r"
  shows "\<exists>q r'. div_unit_loop u other (rev [0..<d]) r out = Some q \<and> big_len q = big_len u \<and>
    big_value u = big_value q * unat other + r' \<and> r' < unat other"
  using assms(2-)
proof (induction d arbitrary: r out)
  case 0
  then show ?case by (auto simp: upper_def big_value_def)
next
  case (Suc d)
  then have d: "d < big_len u" by simp
  obtain x where x: "big_get u d = Some x" "unat x = limb u d" by (rule big_getE [OF d])
  define n where "n = ucast r * BASE + ucast x"
  have "unat r * base + unat x < base * base" by (rule two_digits) simp_all
  then have n: "unat n = unat r * base + limb u d" by (simp add: n_def unat64_add unat64_mult x)
  define Q where "Q = unat n div unat other"
  define R where "R = unat n mod unat other"
  have QR: "unat r * base + limb u d = Q * unat other + R" "R < unat other"
    using assms(1) by (simp_all add: n [symmetric] Q_def R_def unat_gt_0)
  have "unat n < unat other * base" using Suc.prems(1) by (simp add: n) (rule two_digits', simp_all)
  then have "Q < base" by (simp add: Q_def less_mult_imp_div_less mult.commute)
  then have q: "unat (ucast (n div ucast other) :: u32) = Q" by (simp add: unat_ucast_down unat_div Q_def)
  have "R < base" by (rule less_trans [OF QR(2)]) simp
  then have r: "unat (ucast (n mod ucast other) :: u32) = R" by (simp add: unat_ucast_down unat_mod R_def)
  obtain out1 where o1: "big_set out d (ucast (n div ucast other)) = Some out1" "big_len out1 = big_len u"
    "limb out1 = (limb out)(d := Q)"
    by (rule big_setE [of d out "ucast (n div ucast other)"]) (use d Suc.prems(3) in \<open>simp_all add: q\<close>)
  have u: "upper out1 (Suc d) = upper out (Suc d)" by (simp add: upper_def o1 Suc.prems(3))
  have "upper u d = upper out1 d * unat other + R"
    unfolding upper_step [OF d] upper_step [OF d [folded o1(2)]] u Suc.prems(4) o1(3)
    using QR(1) by (simp add: algebra_simps)
  then obtain z r' where z: "div_unit_loop u other (rev [0..<d]) (ucast (n mod ucast other)) out1 = Some z" "big_len z = big_len u"
    "big_value u = big_value z * unat other + r'" "r' < unat other"
    using Suc.IH [of "ucast (n mod ucast other)" out1] QR(2) d o1(2) by (auto simp: r)
  have "div_unit_loop u other (rev [0..<Suc d]) r out = Some z"
    using x(1) o1(1) z(1) assms(1) by (simp add: div_single_def n_def [symmetric])
  then show ?case using z by blast
qed

lemma div_unit_val:
  "\<exists>q. div_unit u other = Some q \<and> big_len q = max (big_len u) 1 \<and> big_value q = big_value u div unat (max other 1)"
proof (cases "big_len u = 0")
  case True
  then show ?thesis by (simp add: div_unit_def big_value_def val_def)
next
  case False
  define c where "c = max other 1"
  have "1 \<le> c" by (simp add: c_def)
  then have c: "0 < c" by (simp add: word_le_nat_alt word_less_nat_alt)
  have "upper u (big_len u) = upper (with_capacity (big_len u)) (big_len u) * unat c + unat (0 :: u32)"
    by (simp add: upper_def val_def)
  then obtain q r where q: "div_unit_loop u c (rev [0..<big_len u]) 0 (with_capacity (big_len u)) = Some q" "big_len q = big_len u"
    "big_value u = big_value q * unat c + r" "r < unat c"
    using div_unit_loop_val [OF c, of 0 "big_len u" u "with_capacity (big_len u)"] c False by (auto simp: unat_gt_0)
  then have "big_value u div unat c = big_value q" by simp
  then show ?thesis using q False by (simp add: div_unit_def c_def [symmetric])
qed

subsection \<open>Stripping and padding\<close>

lemma value_cong: "limb a = limb b \<Longrightarrow> big_value a = big_value b"
  using val_beyond [of a "max (big_len a) (big_len b)"] val_beyond [of b "max (big_len a) (big_len b)"] by simp

lemma limb_lpad [simp]: "limb (lpad b n) = limb b"
  by (rule ext) (auto simp: limb_digits lpad_def big_len_def nth_append)

lemma big_len_lpad [simp]: "big_len (lpad b n) = max (big_len b) n"
  by (simp add: lpad_def big_len_def)

lemma big_value_lpad [simp]: "big_value (lpad b n) = big_value b"
  by (rule value_cong) simp

lemma first_nonzero_Some: "first_nonzero ds = Some i \<Longrightarrow> i < length ds \<and> ds ! i \<noteq> 0 \<and> (\<forall>k<i. ds ! k = 0)"
  by (induction ds arbitrary: i) (auto simp: less_Suc_eq_0_disj split: if_splits)

lemma first_nonzero_None: "first_nonzero ds = None \<longleftrightarrow> (\<forall>d\<in>set ds. d = 0)"
  by (induction ds) auto

lemma limb_drop:
  assumes "\<forall>k<n. digits b ! k = 0" "n \<le> length (digits b)"
  shows "limb (BigUint (drop n (digits b))) = limb b"
proof
  fix i
  show "limb (BigUint (drop n (digits b))) i = limb b i"
  proof (cases "i < length (digits b) - n")
    case True
    then have "n + (length (digits b) - n - Suc i) = length (digits b) - Suc i" by simp
    moreover have "i < length (digits b)" using True by simp
    ultimately show ?thesis using True assms(2) by (simp add: limb_digits)
  next
    case False
    show ?thesis
    proof (cases "i < length (digits b)")
      case True
      then have "length (digits b) - Suc i < n" using False assms(2) by simp
      then show ?thesis using assms(1) False True by (simp add: limb_digits)
    qed (use False in \<open>simp add: limb_digits\<close>)
  qed
qed

lemma limb_lstrip [simp]: "limb (lstrip b) = limb b"
proof (cases "first_nonzero (digits b)")
  case None
  then have "\<forall>k<length (digits b) - 1. digits b ! k = 0" unfolding first_nonzero_None by simp
  from limb_drop [OF this] show ?thesis by (simp add: lstrip_def None big_len_def)
next
  case (Some i)
  from limb_drop [of i b] first_nonzero_Some [OF Some] show ?thesis by (auto simp: lstrip_def Some)
qed

lemma big_value_lstrip [simp]: "big_value (lstrip b) = big_value b"
  by (rule value_cong) simp

text \<open>A stripped number has no leading zero, unless it is zero.\<close>

lemma lstrip_msb: "first_nonzero (digits b) = Some i \<Longrightarrow> big_len (lstrip b) = big_len b - i \<and> limb b (big_len b - i - 1) \<noteq> 0"
  using first_nonzero_Some [of "digits b" i]
  by (auto simp: lstrip_def big_len_def limb_digits unat_gt_0)

lemma big_len_lstrip:
  assumes "big_len b = Suc (Suc p)" "limb b (Suc p) = 0" "limb b p \<noteq> 0"
  shows "big_len (lstrip b) = Suc p"
proof -
  obtain x y ds where d: "digits b = x # y # ds" "length ds = p"
    using assms(1) by (auto simp: big_len_def length_Suc_conv)
  have "x = 0" "y \<noteq> 0" using assms(2,3) d by (auto simp: limb_digits unat_eq_zero)
  then have "first_nonzero (digits b) = Some 1" using d by simp
  then show ?thesis using assms(1) by (simp add: lstrip_def big_len_def)
qed

end
