(* ===== verification/Biguint_Div.thy ===== *)
theory Biguint_Div
  imports Biguint
begin

text \<open>
  Long division of numbers of any size: \<open>BigUint::div\<close> of \<open>primitives/arithmetic/src/biguint.rs\<close>,
  Knuth's algorithm D, computes the quotient and the remainder. The estimate of a digit is at most
  one too large, the loop that corrects it ends, and no index is out of range. The last sections
  show that the comparison is that of the numbers and that the conversions are exact.
\<close>


section \<open>The estimate of a digit\<close>

text \<open>The arithmetic behind step D3. \<open>X\<close> is the part of the dividend at hand, \<open>V\<close> the normalised
  divisor; \<open>x0\<close>, \<open>x1\<close>, \<open>x2\<close> and \<open>v1\<close>, \<open>v2\<close> are their leading limbs, \<open>P\<close> the weight of the
  last of these.\<close>

lemma estimate_lower:
  fixes X V P x0 x1 x2 v1 v2 q :: nat
  assumes X: "X < ((x0 * base + x1) * base + x2 + 1) * P" and V: "(v1 * base + v2) * P \<le> V"
    and q: "(x0 * base + x1) * base + x2 < q * (v1 * base + v2)"
  shows "X < q * V"
proof -
  have "X < q * (v1 * base + v2) * P"
    by (rule less_le_trans [OF X]) (intro mult_le_mono1, use q in simp)
  also have "\<dots> \<le> q * V" unfolding mult.assoc by (intro mult_le_mono2 V)
  finally show ?thesis .
qed

lemma estimate_upper:
  fixes X V P T W q :: nat
  assumes "q * W * P \<le> X" "V < (W + 1) * P" "q \<le> W + 1" "0 < q"
  shows "(q - 1) * V \<le> X"
proof -
  have "(q - 1) * V \<le> (q - 1) * ((W + 1) * P)" using assms(2) by (intro mult_le_mono2) simp
  also have "\<dots> = ((q - 1) * (W + 1)) * P" by (simp only: mult.assoc)
  also have "(q - 1) * (W + 1) \<le> q * W"
  proof -
    obtain p where p: "q = Suc p" using assms(4) by (cases q) simp_all
    then show ?thesis using assms(3) by simp
  qed
  then have "((q - 1) * (W + 1)) * P \<le> q * W * P" by (rule mult_le_mono1)
  also have "\<dots> \<le> X" by (rule assms(1))
  finally show ?thesis .
qed

text \<open>One correction.\<close>

lemma qhat_test_val:
  fixes v1 v2 x2 :: u32
  assumes "unat qhat \<le> base + 1" "unat rhat < base"
  shows "qhat_test v1 v2 x2 qhat rhat =
    (if base \<le> unat qhat \<or> base * unat rhat + unat x2 < unat qhat * unat v2
     then (True, qhat - 1, rhat + ucast v1) else (False, qhat, rhat))"
proof -
  have "base * unat rhat + unat x2 < base * base"
    using two_digits [OF assms(2) unat32_less [of x2]] by (simp add: mult.commute)
  moreover have "unat (BASE * rhat) = base * unat rhat" using assms(2) by (simp add: unat64_mult)
  ultimately have r: "unat (BASE * rhat + ucast x2) = base * unat rhat + unat x2"
    using unat64_add [of "BASE * rhat" "ucast x2"] by simp
  have "unat v2 \<le> base - 1" using unat32_less [of v2] by linarith
  then have "unat qhat * unat v2 \<le> (base + 1) * (base - 1)" using assms(1) by (intro mult_le_mono)
  also have "\<dots> < base * base" by (simp add: base_def)
  finally have q: "unat (qhat * ucast v2) = unat qhat * unat v2" by (simp add: unat64_mult)
  show ?thesis by (simp add: qhat_test_def Let_def word_le_nat_alt word_less_nat_alt r q)
qed

text \<open>What the estimate of a digit relies on.\<close>

definition digit_frame :: "nat \<Rightarrow> nat \<Rightarrow> nat \<Rightarrow> u32 \<Rightarrow> u32 \<Rightarrow> u32 \<Rightarrow> u32 \<Rightarrow> u32 \<Rightarrow> bool" where
  "digit_frame X V P x0 x1 x2 v1 v2 \<longleftrightarrow>
     base \<le> 2 * unat v1 \<and> unat x0 \<le> unat v1 \<and> X < base * V \<and>
     (unat v1 * base + unat v2) * P \<le> V \<and> V < (unat v1 * base + unat v2 + 1) * P \<and>
     ((unat x0 * base + unat x1) * base + unat x2) * P \<le> X \<and> X < ((unat x0 * base + unat x1) * base + unat x2 + 1) * P"

definition good_estimate :: "nat \<Rightarrow> nat \<Rightarrow> u32 \<Rightarrow> u32 \<Rightarrow> u32 \<Rightarrow> u32 \<Rightarrow> u32 \<Rightarrow> u64 \<Rightarrow> bool" where
  "good_estimate X V x0 x1 x2 v1 v2 q \<longleftrightarrow>
     X div V \<le> unat q \<and> unat q < base \<and>
     unat q * (unat v1 * base + unat v2) \<le> (unat x0 * base + unat x1) * base + unat x2"

lemma test_step:
  assumes f: "digit_frame X V P x0 x1 x2 v1 v2"
    and q: "unat qhat * unat v1 + unat rhat = unat x0 * base + unat x1" "X div V \<le> unat qhat" "unat qhat \<le> base + 1"
      "unat rhat < base"
  obtains (again) "qhat_test v1 v2 x2 qhat rhat = (True, qhat - 1, rhat + ucast v1)" "0 < unat qhat"
      "unat (qhat - 1) = unat qhat - 1" "X div V \<le> unat (qhat - 1)"
      "unat (qhat - 1) * unat v1 + unat (rhat + ucast v1) = unat x0 * base + unat x1"
    | (stop) "qhat_test v1 v2 x2 qhat rhat = (False, qhat, rhat)" "good_estimate X V x0 x1 x2 v1 v2 qhat"
proof (cases "base \<le> unat qhat \<or> base * unat rhat + unat x2 < unat qhat * unat v2")
  case True
  let ?W = "unat v1 * base + unat v2" and ?D = "unat x0 * base + unat x1"
  have pos: "0 < unat qhat" using True base_pos(1) by (cases "unat qhat = 0") auto
  have "0 < V" using f by (cases V) (simp_all add: digit_frame_def)
  have less: "X < unat qhat * V"
  proof (cases "base \<le> unat qhat")
    case True
    then have "base * V \<le> unat qhat * V" by (rule mult_le_mono1)
    then show ?thesis using f unfolding digit_frame_def by linarith
  next
    case False
    then have "base * unat rhat + unat x2 < unat qhat * unat v2" using True by simp
    then have "(unat qhat * unat v1 + unat rhat) * base + unat x2 < unat qhat * ?W" by (simp add: algebra_simps)
    then show ?thesis unfolding q(1) by (rule estimate_lower [where P = P, rotated 2]) (use f in \<open>simp_all add: digit_frame_def\<close>)
  qed
  then have "X div V < unat qhat" by (simp add: less_mult_imp_div_less)
  moreover have u: "unat (qhat - 1) = unat qhat - 1" using pos by (simp add: unat_sub word_le_nat_alt)
  moreover have "unat rhat + unat v1 < base + base" using q(4) unat32_less [of v1] by linarith
  then have "unat (rhat + ucast v1) = unat rhat + unat v1" by (subst unat64_add) (simp_all add: base_def)
  moreover obtain p where "unat qhat = Suc p" using pos by (cases "unat qhat") simp_all
  ultimately show thesis using again [OF _ pos u] True q by (simp add: qhat_test_val)
next
  case False
  then have "unat qhat * (unat v1 * base + unat v2) \<le> (unat qhat * unat v1 + unat rhat) * base + unat x2"
    by (simp add: algebra_simps)
  then have "good_estimate X V x0 x1 x2 v1 v2 qhat" using False q by (simp add: good_estimate_def)
  then show thesis using stop False q by (simp add: qhat_test_val)
qed

lemma qhat_loop_val:
  assumes f: "digit_frame X V P x0 x1 x2 v1 v2"
    and q: "unat qhat * unat v1 + unat rhat = unat x0 * base + unat x1" "X div V \<le> unat qhat" "unat qhat \<le> base"
  shows "\<exists>q. qhat_loop v1 v2 x2 qhat rhat = Some q \<and> good_estimate X V x0 x1 x2 v1 v2 q"
  using q
proof (induction "unat qhat" arbitrary: qhat rhat rule: less_induct)
  case less
  show ?case
  proof (cases "unat rhat < base")
    case True
    have "unat qhat \<le> base + 1" using less.prems(3) by simp
    show ?thesis
    proof (cases rule: test_step [OF f less.prems(1,2) \<open>unat qhat \<le> base + 1\<close> True, case_names again stop])
      case again
      have "\<exists>q. qhat_loop v1 v2 x2 (qhat - 1) (rhat + ucast v1) = Some q \<and> good_estimate X V x0 x1 x2 v1 v2 q"
        by (rule less.hyps [OF _ again(5,4)]) (use again(2,3) less.prems(3) in simp_all)
      then show ?thesis using True again(1) by (subst qhat_loop.simps) (simp add: word_less_nat_alt)
    next
      case stop
      then show ?thesis using True by (subst qhat_loop.simps) (simp add: word_less_nat_alt)
    qed
  next
    case False
    have "unat qhat \<noteq> base"
    proof
      assume "unat qhat = base"
      then have "unat v1 * base + unat rhat = unat x0 * base + unat x1" using less.prems(1) by (simp add: mult.commute)
      moreover have "unat x0 * base \<le> unat v1 * base" using f by (simp add: digit_frame_def)
      ultimately show False using False unat32_less [of x1] by linarith
    qed
    then have b: "unat qhat < base" using less.prems(3) by simp
    have "unat qhat * unat v2 \<le> base * base" by (intro mult_le_mono less_imp_le [OF b] less_imp_le [OF unat32_less])
    also have "\<dots> \<le> unat rhat * base" using False by simp
    finally have "unat qhat * (unat v1 * base + unat v2) \<le> (unat qhat * unat v1 + unat rhat) * base + unat x2"
      by (simp add: algebra_simps)
    then have "good_estimate X V x0 x1 x2 v1 v2 qhat" using b less.prems by (simp add: good_estimate_def)
    then show ?thesis using False by (subst qhat_loop.simps) (simp add: word_less_nat_alt)
  qed
qed

lemma good_estimate_close:
  assumes f: "digit_frame X V P x0 x1 x2 v1 v2" and g: "good_estimate X V x0 x1 x2 v1 v2 q"
  shows "X div V \<le> unat q" "unat q \<le> X div V + 1" "unat q < base"
proof -
  let ?W = "unat v1 * base + unat v2" and ?T = "(unat x0 * base + unat x1) * base + unat x2"
  show "X div V \<le> unat q" "unat q < base" using g by (simp_all add: good_estimate_def)
  have V: "0 < V" using f by (cases V) (simp_all add: digit_frame_def)
  show "unat q \<le> X div V + 1"
  proof (cases "unat q = 0")
    case False
    have "unat q * ?W * P \<le> ?T * P" using g by (intro mult_le_mono1) (simp add: good_estimate_def)
    also have "\<dots> \<le> X" using f by (simp add: digit_frame_def)
    finally have 1: "unat q * ?W * P \<le> X" .
    have "1 \<le> unat v1" using f base_pos(2) unfolding digit_frame_def by linarith
    then have "base \<le> unat v1 * base" by simp
    then have 2: "unat q \<le> ?W + 1" using g unfolding good_estimate_def by linarith
    have "(unat q - 1) * V \<le> X"
      by (rule estimate_upper [OF 1 _ 2]) (use f False in \<open>simp_all add: digit_frame_def\<close>)
    then have "unat q - 1 \<le> X div V" using V by (simp add: less_eq_div_iff_mult_less_eq)
    then show ?thesis by simp
  qed simp
qed

lemma val_top2: "val f (Suc (Suc p)) = val f p + base ^ p * (f (Suc p) * base + f p)"
  by (simp add: val_Suc algebra_simps)

lemma val_top3: "val f (Suc (Suc (Suc p))) = val f p + base ^ p * ((f (Suc (Suc p)) * base + f (Suc p)) * base + f p)"
  by (simp add: val_Suc algebra_simps)

lemma leading_bounds:
  fixes lo P W X :: nat
  assumes "X = lo + P * W" "lo < P"
  shows "W * P \<le> X" "X < (W + 1) * P"
  using assms by (simp_all add: algebra_simps)

text \<open>The limbs \<open>j\<close> to \<open>j + n\<close> of \<open>s\<close> as a number.\<close>

abbreviation wval :: "biguint \<Rightarrow> nat \<Rightarrow> nat \<Rightarrow> nat" where
  "wval s j n \<equiv> val (\<lambda>i. limb s (j + i)) (Suc n)"

lemma digit_frame_limbs:
  assumes n: "n = Suc (Suc p)" "big_len v = n" and norm: "base \<le> 2 * limb v (n - 1)"
    and X: "wval s j n < base * big_value v"
    and x: "unat x0 = limb s (j + n)" "unat x1 = limb s (j + n - 1)" "unat x2 = limb s (j + n - 2)"
      "unat v1 = limb v (n - 1)" "unat v2 = limb v (n - 2)"
  shows "digit_frame (wval s j n) (big_value v) (base ^ p) x0 x1 x2 v1 v2"
proof -
  let ?f = "\<lambda>i. limb s (j + i)"
  have V: "big_value v = val (limb v) p + base ^ p * (unat v1 * base + unat v2)"
    using n x by (simp add: big_value_def val_top2)
  have S: "wval s j n = val ?f p + base ^ p * ((unat x0 * base + unat x1) * base + unat x2)"
    using n x by (simp add: val_top3)
  have lo: "val (limb v) p < base ^ p" "val ?f p < base ^ p" by (simp_all add: val_less)
  note bV = leading_bounds [OF V lo(1)] and bS = leading_bounds [OF S lo(2)]
  have "unat x0 * base ^ n \<le> base ^ p * ((unat x0 * base + unat x1) * base + unat x2)" by (simp add: n algebra_simps)
  also have "\<dots> \<le> wval s j n" unfolding S by (rule le_add2)
  also have "\<dots> < base * big_value v" by (rule X)
  also have "\<dots> \<le> base * ((unat v1 * base + unat v2 + 1) * base ^ p)" using bV(2) by simp
  also have "\<dots> \<le> base * (((unat v1 + 1) * base) * base ^ p)"
    by (intro mult_le_mono2 mult_le_mono1) (simp add: Suc_le_eq)
  also have "\<dots> = (unat v1 + 1) * base ^ n" by (simp add: n algebra_simps)
  finally have "unat x0 < unat v1 + 1" by (simp only: mult_less_cancel2)
  then show ?thesis using norm X bV bS x(4) by (simp add: digit_frame_def)
qed

lemma first_estimate:
  assumes f: "digit_frame X V P x0 x1 x2 v1 v2"
  obtains qhat rhat where "div_single (ucast x0 * BASE + ucast x1) v1 = Some (qhat, rhat)"
    "unat qhat * unat v1 + unat rhat = unat x0 * base + unat x1" "X div V \<le> unat qhat" "unat qhat \<le> base + 1"
proof -
  let ?a = "ucast x0 * BASE + ucast x1 :: u64" and ?D = "unat x0 * base + unat x1"
  have v1: "0 < unat v1" using f base_pos(1) unfolding digit_frame_def by linarith
  have D: "?D < base * base" by (rule two_digits) simp_all
  then have m: "unat x0 * base < base * base" by linarith
  have "unat (ucast x0 * BASE :: u64) = unat x0 * base" using m unat64_mult [of "ucast x0" BASE] by simp
  then have a: "unat ?a = ?D" using D unat64_add [of "ucast x0 * BASE" "ucast x1"] by simp
  have "unat (?a mod ucast v1) < base"
    using v1 unat32_less [of v1] less_trans [OF mod_less_divisor [OF v1]] by (simp add: unat_mod a)
  then have r: "unat (ucast (?a mod ucast v1) :: u32) = ?D mod unat v1" by (simp add: unat_ucast_down unat_mod a)
  have "unat x0 * base \<le> unat v1 * base" "base \<le> 2 * unat v1" using f by (simp_all add: digit_frame_def)
  moreover have "(base + 2) * unat v1 = unat v1 * base + 2 * unat v1" by (simp add: algebra_simps)
  ultimately have "?D < (base + 2) * unat v1" using unat32_less [of x1] by linarith
  then have le: "?D div unat v1 \<le> base + 1" using less_mult_imp_div_less [of ?D "base + 2" "unat v1"] by simp
  let ?q = "?D div unat v1"
  have "?D + 1 \<le> (?q + 1) * unat v1" using v1 dividend_less_times_div [OF v1, of ?D] by (simp add: algebra_simps)
  then have "(?D + 1) * base \<le> (?q + 1) * unat v1 * base" by (rule mult_le_mono1)
  moreover have "(?D + 1) * base = ?D * base + base"
    "(?q + 1) * (unat v1 * base + unat v2) = (?q + 1) * unat v1 * base + (?q + 1) * unat v2"
    by (simp_all add: algebra_simps)
  ultimately have "?D * base + unat x2 < (?q + 1) * (unat v1 * base + unat v2)"
    using unat32_less [of x2] by linarith
  then have "X < (?q + 1) * V"
    by (rule estimate_lower [where P = P, rotated 2]) (use f in \<open>simp_all add: digit_frame_def\<close>)
  then have "X div V < ?q + 1" by (rule less_mult_imp_div_less)
  then have "X div V \<le> ?q" by linarith
  moreover have "v1 \<noteq> 0" using v1 by (simp add: unat_gt_0)
  ultimately show thesis
    using that [of "?a div ucast v1" "ucast (?a mod ucast v1)"] v1 le r
    by (auto simp: div_single_def unat_div a)
qed

lemma estimate_digit_val:
  assumes n: "n = Suc (Suc p)" "big_len v = n" "j + n < big_len s" and norm: "base \<le> 2 * limb v (n - 1)"
    and X: "wval s j n < base * big_value v"
  obtains q where "estimate_digit v n j s = Some q" "wval s j n div big_value v \<le> unat q"
    "unat q \<le> wval s j n div big_value v + 1" "unat q < base"
proof -
  obtain x0 where x0: "big_get s (j + n) = Some x0" "unat x0 = limb s (j + n)" using n by (auto elim: big_getE)
  obtain x1 where x1: "big_get s (j + n - 1) = Some x1" "unat x1 = limb s (j + n - 1)" by (rule big_getE [of "j + n - 1" s]) (use n in simp_all)
  obtain x2 where x2: "big_get s (j + n - 2) = Some x2" "unat x2 = limb s (j + n - 2)" by (rule big_getE [of "j + n - 2" s]) (use n in simp_all)
  obtain v1 where v1: "big_get v (n - 1) = Some v1" "unat v1 = limb v (n - 1)" by (rule big_getE [of "n - 1" v]) (use n in simp_all)
  obtain v2 where v2: "big_get v (n - 2) = Some v2" "unat v2 = limb v (n - 2)" by (rule big_getE [of "n - 2" v]) (use n in simp_all)
  note f = digit_frame_limbs [OF n(1,2) norm X x0(2) x1(2) x2(2) v1(2) v2(2)]
  obtain qhat rhat where d: "div_single (ucast x0 * BASE + ucast x1) v1 = Some (qhat, rhat)"
    and q: "unat qhat * unat v1 + unat (ucast rhat :: u64) = unat x0 * base + unat x1" "wval s j n div big_value v \<le> unat qhat"
      "unat qhat \<le> base + 1"
    by (rule first_estimate [OF f]) auto
  define t where "t = qhat_test v1 v2 x2 qhat (ucast rhat)"
  have "unat (ucast rhat :: u64) < base" by simp
  then have "\<exists>q'. qhat_loop v1 v2 x2 (fst (snd t)) (snd (snd t)) = Some q' \<and>
      good_estimate (wval s j n) (big_value v) x0 x1 x2 v1 v2 q'"
  proof (cases rule: test_step [OF f q, case_names r again stop])
    case again
    show ?thesis by (rule qhat_loop_val [OF f]) (use again q in \<open>simp_all add: t_def\<close>)
  next
    case stop
    show ?thesis by (rule qhat_loop_val [OF f]) (use stop q in \<open>simp_all add: t_def good_estimate_def\<close>)
  qed simp
  then obtain q' where "qhat_loop v1 v2 x2 (fst (snd t)) (snd (snd t)) = Some q'"
    and g: "good_estimate (wval s j n) (big_value v) x0 x1 x2 v1 v2 q'" by blast
  then have "estimate_digit v n j s = Some q'"
    using x0 x1 x2 v1 v2 d by (simp add: estimate_digit_def t_def [symmetric])
  then show thesis using that good_estimate_close [OF f g] by blast
qed

section \<open>One digit of the quotient\<close>

lemma those_big_get:
  "(\<forall>i\<in>set is. i < big_len s) \<Longrightarrow> those (map (big_get s) is) = Some (map (\<lambda>i. digits s ! (big_len s - 1 - i)) is)"
  by (induction "is") (auto simp: big_get_def)

lemma window_val:
  assumes "j + n < big_len s"
  obtains w where "window s j n = Some w" "big_len w = Suc n" "big_value w = wval s j n"
proof -
  let ?ds = "map (\<lambda>i. digits s ! (big_len s - 1 - i)) (rev [j..<Suc (j + n)])"
  have w: "window s j n = Some (BigUint ?ds)"
    unfolding window_def by (subst those_big_get) (use assms in auto)
  have "limb (BigUint ?ds) i = limb s (j + i)" if "i < Suc n" for i
    using that assms by (auto simp: limb_digits rev_nth big_len_def simp del: upt_Suc)
  then have "big_value (BigUint ?ds) = wval s j n"
    unfolding big_value_def by (auto simp: big_len_def intro!: val_cong simp del: upt_Suc)
  then show thesis using that [OF w] by (simp add: big_len_def)
qed

lemma set_window_val:
  assumes "\<forall>d\<in>set ds. j \<le> d \<and> d - j < big_len sub \<and> d < big_len s"
  shows "\<exists>s'. set_window j sub ds s = Some s' \<and> big_len s' = big_len s \<and>
    limb s' = (\<lambda>i. if i \<in> set ds then limb sub (i - j) else limb s i)"
  using assms
proof (induction ds arbitrary: s)
  case (Cons d ds)
  obtain x where x: "big_get sub (d - j) = Some x" "unat x = limb sub (d - j)"
    using Cons.prems by (auto elim: big_getE)
  obtain s1 where s1: "big_set s d x = Some s1" "big_len s1 = big_len s" "limb s1 = (limb s)(d := unat x)"
    by (rule big_setE [of d s x]) (use Cons.prems in auto)
  obtain s' where "set_window j sub ds s1 = Some s'" "big_len s' = big_len s1"
    "limb s' = (\<lambda>i. if i \<in> set ds then limb sub (i - j) else limb s1 i)"
    using Cons.IH [of s1] Cons.prems s1(2) by auto
  then show ?case using x s1 by (auto simp: fun_eq_iff)
qed simp

lemma val_low: "m \<le> big_len w \<Longrightarrow> val (limb w) m = big_value w mod base ^ m"
  using val_split [of "limb w" m "big_len w - m"] val_less [of m "limb w"] by (simp add: big_value_def)

lemma set_window_low:
  assumes "set ds = {j..j + n}" "n < big_len sub" "j + n < big_len s"
  obtains s' where "set_window j sub ds s = Some s'" "big_len s' = big_len s"
    "\<forall>i. i < j \<or> j + n < i \<longrightarrow> limb s' i = limb s i" "wval s' j n = big_value sub mod base ^ Suc n"
proof -
  have "\<forall>d\<in>set ds. j \<le> d \<and> d - j < big_len sub \<and> d < big_len s" unfolding assms(1) using assms(2,3) by auto
  then obtain s' where s': "set_window j sub ds s = Some s'" "big_len s' = big_len s"
    "limb s' = (\<lambda>i. if i \<in> set ds then limb sub (i - j) else limb s i)" using set_window_val by blast
  have "wval s' j n = val (limb sub) (Suc n)" by (rule val_cong) (simp add: s' assms(1))
  also have "\<dots> = big_value sub mod base ^ Suc n" by (rule val_low) (use assms in simp)
  finally show thesis by (rule that [OF s'(1,2), rotated]) (use assms in \<open>auto simp: s'\<close>)
qed

lemma unat_split_double: "unat (fst (split_double a)) = unat a div base" "unat (snd (split_double a)) = unat a mod base"
proof -
  have "unat a < base * base" using unsigned_less [of a] by (simp add: base_square)
  then have "unat a div base < base" by (simp add: less_mult_imp_div_less)
  moreover have "drop_bit SHIFT a = a div BASE" by (simp add: SHIFT_def drop_bit_eq_div BASE_eq)
  ultimately show "unat (fst (split_double a)) = unat a div base" by (simp add: split_double_def unat_ucast_down unat_div)
  show "unat (snd (split_double a)) = unat a mod base" by (simp add: split_double_def unat_ucast_down)
qed

lemma from_u64_val: "big_len (from_u64 a) = 2" "big_value (from_u64 a) = unat a"
proof -
  obtain h l where s: "split_double a = (h, l)" by fastforce
  then have "unat h = unat a div base" "unat l = unat a mod base" using unat_split_double [of a] by simp_all
  moreover have "limb (from_u64 a) 0 = unat l" "limb (from_u64 a) (Suc 0) = unat h"
    by (simp_all add: from_u64_def s limb_digits)
  ultimately show "big_value (from_u64 a) = unat a"
    by (simp add: big_value_def from_u64_def s big_len_def numeral_2_eq_2 val_Suc)
  show "big_len (from_u64 a) = 2" by (simp add: from_u64_def s big_len_def)
qed

text \<open>What subtracting the estimated multiple leaves: the remainder, or, where the estimate was one
  too large, the remainder less the divisor, modulo the base.\<close>

lemma estimate_exact:
  fixes X V q w N :: nat
  assumes "X div V \<le> q" "q \<le> X div V + 1" "V * q \<le> X" "w + V * q = X" "0 < V" "V \<le> N"
  shows "q = X div V" "w mod N = X mod V"
proof -
  have "q \<le> X div V" using assms(3,5) by (simp add: less_eq_div_iff_mult_less_eq mult.commute)
  then show q: "q = X div V" using assms(1) by simp
  have "w = X mod V" using assms(4) mult_div_mod_eq [of V X] unfolding q by linarith
  then show "w mod N = X mod V" using assms(5,6) mod_less_divisor [OF assms(5), of X] by simp
qed

lemma estimate_over:
  fixes X V q w N :: nat
  assumes "X div V \<le> q" "q \<le> X div V + 1" "\<not> V * q \<le> X" "w + V * q = X + N * B" "0 < V" "V \<le> N" "0 < B"
  shows "q = X div V + 1" "(V + w mod N) mod N = X mod V"
proof -
  have "V * (X div V) \<le> X" by simp
  then have "q \<noteq> X div V" using assms(3) by blast
  then show q: "q = X div V + 1" using assms(1,2) by simp
  have m: "X mod V < V" using assms(5) by simp
  note X = mult_div_mod_eq [of V X]
  have "w + V = X mod V + N * B" using assms(4) X unfolding q distrib_left mult_1_right by linarith
  have "(V + w mod N) mod N = (V + w) mod N" by (simp add: mod_add_right_eq)
  also have "V + w = X mod V + N * B" using \<open>w + V = X mod V + N * B\<close> by simp
  also have "(X mod V + N * B) mod N = X mod V" using m assms(6) by simp
  finally show "(V + w mod N) mod N = X mod V" .
qed

lemma div_step_val:
  assumes n: "n = Suc (Suc p)" "big_len v = n" "j + n < big_len s" "j < big_len q" and norm: "base \<le> 2 * limb v (n - 1)"
    and X: "wval s j n < base * big_value v"
  obtains s' q' where "div_step v n j s q = Some (s', q')" "big_len s' = big_len s" "big_len q' = big_len q"
    "limb q' = (limb q)(j := wval s j n div big_value v)"
    "\<forall>i. i < j \<or> j + n < i \<longrightarrow> limb s' i = limb s i" "wval s' j n = wval s j n mod big_value v"
proof -
  let ?X = "wval s j n" and ?V = "big_value v" and ?N = "base ^ Suc n"
  obtain h where h: "estimate_digit v n j s = Some h" "?X div ?V \<le> unat h" "unat h \<le> ?X div ?V + 1" "unat h < base"
    by (rule estimate_digit_val [OF n(1-3) norm X])
  obtain lhs where lhs: "window s j n = Some lhs" "big_len lhs = Suc n" "big_value lhs = ?X" by (rule window_val [OF n(3)])
  obtain rhs where rhs: "big_mul v (from_u64 h) = Some rhs" "big_len rhs = n + 2" "big_value rhs = ?V * unat h"
    using big_mul_val [of v "from_u64 h"] by (auto simp: from_u64_val n)
  have mx: "max (big_len lhs) (big_len rhs) = n + 2" using lhs(2) rhs(2) by simp
  obtain w where w: "big_len w = n + 2" "big_sub lhs rhs = Some (if ?V * unat h \<le> ?X then Inr w else Inl w)"
    "big_value w + ?V * unat h = ?X + (if ?V * unat h \<le> ?X then 0 else base ^ (n + 2))"
    using big_sub_val [of lhs rhs] unfolding mx lhs(3) rhs(3) using lhs(2) by auto
  have "?V < base ^ n" using big_value_less [of v] n(2) by simp
  also have "\<dots> \<le> ?N" by (rule power_increasing) (simp_all add: Suc_le_eq)
  finally have N: "?V \<le> ?N" by simp
  have V: "0 < ?V" using X by (cases "?V = 0") simp_all
  have l: "set [j..<Suc (j + n)] = {j..j + n}" "set (rev [j..<Suc (j + n)]) = {j..j + n}" by auto
  obtain s1 where s1: "set_window j w [j..<Suc (j + n)] s = Some s1" "big_len s1 = big_len s"
    "\<forall>i. i < j \<or> j + n < i \<longrightarrow> limb s1 i = limb s i" "wval s1 j n = big_value w mod ?N"
    by (rule set_window_low [OF l(1), of w s]) (use w(1) n in auto)
  have c: "unat (ucast h :: u32) = unat h" using h(4) by (simp add: unat_ucast_down)
  obtain q1 where q1: "big_set q j (ucast h) = Some q1" "big_len q1 = big_len q" "limb q1 = (limb q)(j := unat h)"
    by (rule big_setE [of j q "ucast h"]) (use n c in auto)
  note st = div_step_def Let_def
  show thesis
  proof (cases "?V * unat h \<le> ?X")
    case True
    then have "big_value w + ?V * unat h = ?X" using w(3) by simp
    note e = estimate_exact [OF h(2,3) True this V N]
    have "div_step v n j s q = Some (s1, q1)" using h(1) lhs(1) rhs(1) w(2) s1(1) q1(1) True by (simp add: st)
    then show thesis by (rule that) (use s1 q1 e in simp_all)
  next
    case False
    then have "big_value w + ?V * unat h = ?X + ?N * base" using w(3) by (simp add: mult.commute)
    note e = estimate_over [OF h(2,3) False this V N base_pos(1)]
    obtain x where x: "big_get q1 j = Some x" "unat x = unat h" by (rule big_getE [of j q1]) (use n q1 in auto)
    have x1: "unat (x - 1) = ?X div ?V" using x(2) e(1) by (subst unat_sub) (simp_all add: word_le_nat_alt)
    obtain q2 where q2: "big_set q1 j (x - 1) = Some q2" "big_len q2 = big_len q1" "limb q2 = (limb q1)(j := unat (x - 1))"
      by (rule big_setE [of j q1 "x - 1"]) (use n q1 in auto)
    obtain u where u: "window s1 j n = Some u" "big_len u = Suc n" "big_value u = big_value w mod ?N"
      by (rule window_val [of j n s1]) (use n s1 in auto)
    obtain r where r: "big_add v u = Some r" "big_len r = n + 2" "big_value r = ?V + big_value w mod ?N"
      using big_add_val [of v u] n u by auto
    obtain s2 where s2: "set_window j r (rev [j..<Suc (j + n)]) s1 = Some s2" "big_len s2 = big_len s1"
      "\<forall>i. i < j \<or> j + n < i \<longrightarrow> limb s2 i = limb s1 i" "wval s2 j n = big_value r mod ?N"
      by (rule set_window_low [OF l(2), of r s1]) (use r(2) s1 n in auto)
    have "div_step v n j s q = Some (s2, q2)"
      using h(1) lhs(1) rhs(1) w(2) s1(1) q1(1) False x(1) q2(1) u(1) r(1) s2(1) by (simp add: st del: upt_Suc)
    then show thesis by (rule that) (use s1 q1 s2 q2 x1 r e in simp_all)
  qed
qed

section \<open>All digits\<close>

text \<open>Before the digit \<open>j\<close> the limbs of \<open>s\<close> from \<open>j\<close> on stand for a number below \<open>V * base\<close>; the
  digits found so far and \<open>s\<close> give the dividend back.\<close>

lemma upper_tail: "j \<le> big_len b \<Longrightarrow> big_value b = val (limb b) j + base ^ j * upper b j"
  using val_split [of "limb b" j "big_len b - j"] by (simp add: big_value_def upper_def)

lemma wval_upper:
  assumes "j + n < big_len s" "\<And>i. j + n < i \<Longrightarrow> limb s i = 0"
  shows "upper s j = wval s j n"
  unfolding upper_def by (rule val_trailing) (use assms in auto)

lemma div_steps_val:
  assumes n: "n = Suc (Suc p)" "big_len v = n" and norm: "base \<le> 2 * limb v (n - 1)"
    and "j + n \<le> big_len s" "j \<le> big_len q" "upper s j < big_value v"
  shows "\<exists>s' q'. div_steps v n (rev [0..<j]) s q = Some (s', q') \<and> big_len s' = big_len s \<and> big_len q' = big_len q \<and>
    (\<forall>i\<ge>j. limb q' i = limb q i) \<and> big_value s' < big_value v \<and>
    val (limb q') j * big_value v + big_value s' = big_value s"
  using assms(4-)
proof (induction j arbitrary: s q)
  case 0
  then show ?case by (simp add: upper_def big_value_def)
next
  case (Suc j)
  let ?V = "big_value v"
  have s0: "limb s i = 0" if "j + n < i" for i
  proof (rule ccontr)
    assume nz: "limb s i \<noteq> 0"
    then have i: "i < big_len s" by (meson limb_beyond not_less)
    have "base ^ n \<le> base ^ (i - Suc j)" using that by (intro power_increasing) (simp_all add: Suc_le_eq)
    also have "\<dots> \<le> limb s i * base ^ (i - Suc j)" using nz by simp
    also have "\<dots> \<le> upper s (Suc j)"
      using member_le_sum [of "i - Suc j" "{..<big_len s - Suc j}" "\<lambda>k. limb s (Suc j + k) * base ^ k"] that i
      by (simp add: upper_def val_def)
    also have "\<dots> < ?V" by (rule Suc.prems(3))
    also have "\<dots> < base ^ n" using big_value_less [of v] n(2) by simp
    finally show False .
  qed
  have jn: "j + n < big_len s" using Suc.prems(1) by simp
  have up: "upper s j = wval s j n" by (rule wval_upper [OF jn s0])
  have "upper s j = limb s j + base * upper s (Suc j)" using jn by (intro upper_step) simp
  also have "\<dots> < base + base * upper s (Suc j)" by simp
  also have "\<dots> \<le> base * ?V" using Suc.prems(3) mult_le_mono2 [of "Suc (upper s (Suc j))" ?V base] by simp
  finally have X: "wval s j n < base * ?V" by (simp add: up)
  have "j < big_len q" using Suc.prems(2) by simp
  then obtain s1 q1 where st: "div_step v n j s q = Some (s1, q1)"
    "big_len s1 = big_len s" "big_len q1 = big_len q" "limb q1 = (limb q)(j := wval s j n div ?V)"
    "\<forall>i. i < j \<or> j + n < i \<longrightarrow> limb s1 i = limb s i" "wval s1 j n = wval s j n mod ?V"
    by (rule div_step_val [OF n jn _ norm X])
  have up1: "upper s1 j = wval s j n mod ?V" using wval_upper [of j n s1] st jn s0 by simp
  have "upper s1 j < ?V" unfolding up1 using X by (intro mod_less_divisor) (cases "?V", simp_all)
  then obtain s' q' where ih: "div_steps v n (rev [0..<j]) s1 q1 = Some (s', q')" "big_len s' = big_len s1"
    "big_len q' = big_len q1" "\<forall>i\<ge>j. limb q' i = limb q1 i" "big_value s' < ?V"
    "val (limb q') j * ?V + big_value s' = big_value s1"
    using Suc.IH [of s1 q1] st Suc.prems by auto
  have "big_value s = val (limb s) j + base ^ j * wval s j n" using upper_tail [of j s] jn up by simp
  moreover have "big_value s1 = val (limb s1) j + base ^ j * (wval s j n mod ?V)" using upper_tail [of j s1] jn st(2) up1 by simp
  moreover have "val (limb s1) j = val (limb s) j" by (rule val_cong) (use st(5) in simp)
  moreover have "base ^ j * wval s j n = base ^ j * (wval s j n div ?V * ?V) + base ^ j * (wval s j n mod ?V)"
    unfolding distrib_left [symmetric] by simp
  moreover have "val (limb q') (Suc j) * ?V = val (limb q') j * ?V + base ^ j * (wval s j n div ?V * ?V)"
    using ih(4) st(4) by (simp add: val_Suc algebra_simps)
  ultimately have "val (limb q') (Suc j) * ?V + big_value s' = big_value s" using ih(6) by linarith
  then show ?case using st ih by auto
qed

section \<open>Normalisation\<close>

lemma leading_zeros32_val:
  assumes "x \<noteq> 0"
  obtains k where "leading_zeros32 x = of_nat k" "k < 32" "base \<le> 2 * (unat x * 2 ^ k)" "(unat x + 1) * 2 ^ k \<le> base"
proof -
  obtain m where m: "m < LENGTH(32)" "length (dropWhile (\<lambda>i. \<not> bit x i) (rev [0..<LENGTH(32)])) = Suc m"
    "2 ^ m \<le> unat x" "unat x < 2 ^ Suc m" by (rule word_highest_bit [OF assms])
  then have l: "leading_zeros32 x = of_nat (31 - m)" by (simp add: leading_zeros32_def)
  have b: "base = 2 * (2 ^ m * 2 ^ (31 - m))"
    using m(1) by (simp add: base_def power_add [symmetric] power_Suc [symmetric] del: power_Suc)
  have "2 ^ m * 2 ^ (31 - m) \<le> unat x * 2 ^ (31 - m)" using m(3) by (rule mult_le_mono1)
  then have 1: "base \<le> 2 * (unat x * 2 ^ (31 - m))" unfolding b by (rule mult_le_mono2)
  have "(unat x + 1) * 2 ^ (31 - m) \<le> 2 ^ Suc m * 2 ^ (31 - m)" using m(4) by (intro mult_le_mono1) simp
  then have "(unat x + 1) * 2 ^ (31 - m) \<le> base" unfolding b by simp
  then show thesis using that [OF l _ 1] by simp
qed

lemma upper_div: "j \<le> big_len b \<Longrightarrow> upper b j = big_value b div base ^ j"
  using upper_tail [of j b] val_less [of j "limb b"] by simp

lemma limb_div: "limb b j = big_value b div base ^ j mod base"
proof (cases "j < big_len b")
  case True
  then show ?thesis using upper_step [of j b] upper_div [of j b] by simp
next
  case False
  then have "base ^ big_len b \<le> base ^ j" by (intro power_increasing) (simp_all add: Suc_le_eq)
  then have "big_value b < base ^ j" using big_value_less [of b] by linarith
  then show ?thesis using False by simp
qed

lemma from_u32_val: "big_len (from_u32 a) = 1" "big_value (from_u32 a) = unat a"
  by (simp_all add: from_u32_def big_len_def big_value_def val_Suc limb_digits)

lemma big_msb_limb: "0 < big_len b \<Longrightarrow> \<exists>x. big_msb b = Some x \<and> unat x = limb b (big_len b - 1)"
  by (auto simp: big_msb_def big_len_def limb_digits)

lemma top_limb_bounds:
  assumes "big_len b = Suc p"
  shows "limb b p * base ^ p \<le> big_value b" "big_value b < (limb b p + 1) * base ^ p"
  using assms val_less [of p "limb b"] by (simp_all add: big_value_def val_Suc algebra_simps)

lemma unat_pow2: "k < 32 \<Longrightarrow> unat (2 ^ k :: u32) = 2 ^ k"
  using unat_of_nat32 [of "2 ^ k"] power_strict_increasing [of k 32 "2 :: nat"] by simp

text \<open>Multiplied by the normaliser, the divisor keeps its length, and its leading limb is at least half
  of the base.\<close>

lemma normalized_divisor:
  assumes v: "big_len v = Suc p" and k: "k < 32" "base \<le> 2 * (limb v p * 2 ^ k)" "(limb v p + 1) * 2 ^ k \<le> base"
  obtains vn where "big_mul v (from_u32 (2 ^ k)) = Some vn" "big_len (lstrip vn) = Suc p"
    "big_value (lstrip vn) = big_value v * 2 ^ k" "base \<le> 2 * limb (lstrip vn) p"
proof -
  have t: "unat (2 ^ k :: u32) = 2 ^ k" by (rule unat_pow2 [OF k(1)])
  obtain vn where vn: "big_mul v (from_u32 (2 ^ k)) = Some vn" "big_len vn = Suc (Suc p)" "big_value vn = big_value v * 2 ^ k"
    using big_mul_val [of v "from_u32 (2 ^ k)"] v by (auto simp: from_u32_val t)
  have "big_value vn < (limb v p + 1) * base ^ p * 2 ^ k" unfolding vn(3) using top_limb_bounds(2) [OF v] by simp
  also have "\<dots> = (limb v p + 1) * 2 ^ k * base ^ p" by (simp only: ac_simps)
  also have "\<dots> \<le> base * base ^ p" using k(3) by (rule mult_le_mono1)
  finally have hi: "big_value vn < base ^ Suc p" by simp
  have "limb v p * 2 ^ k * base ^ p = limb v p * base ^ p * 2 ^ k" by (simp only: ac_simps)
  also have "\<dots> \<le> big_value vn" unfolding vn(3) by (intro mult_le_mono1 top_limb_bounds(1) [OF v])
  finally have "limb v p * 2 ^ k \<le> big_value vn div base ^ p" by (simp add: less_eq_div_iff_mult_less_eq)
  moreover have "big_value vn div base ^ p < base" using hi by (simp add: less_mult_imp_div_less)
  then have l: "limb vn p = big_value vn div base ^ p" by (simp add: limb_div)
  ultimately have top: "base \<le> 2 * limb vn p" using k(2) by linarith
  then have "limb vn p \<noteq> 0" by (metis base_pos(1) mult_0_right not_le)
  moreover have "limb vn (Suc p) = 0" unfolding limb_div using hi by simp
  ultimately have "big_len (lstrip vn) = Suc p" using vn(2) by (intro big_len_lstrip)
  then show thesis using that vn top by simp
qed

section \<open>The remainder\<close>

text \<open>Shifting a number right, limb by limb.\<close>

definition shifted :: "nat \<Rightarrow> (nat \<Rightarrow> nat) \<Rightarrow> nat \<Rightarrow> nat" where
  "shifted k f d = f d div 2 ^ k + f (Suc d) mod 2 ^ k * 2 ^ (32 - k)"

lemma val_shifted:
  assumes "k \<le> 32"
  shows "2 ^ k * val (shifted k f) n + f 0 mod 2 ^ k = val f n + f n mod 2 ^ k * base ^ n"
proof (induction n)
  case (Suc n)
  have b: "2 ^ k * 2 ^ (32 - k) = base" using assms by (simp add: base_def power_add [symmetric])
  have "2 ^ k * shifted k f n = 2 ^ k * (f n div 2 ^ k) + f (Suc n) mod 2 ^ k * (2 ^ k * 2 ^ (32 - k))"
    by (simp add: shifted_def algebra_simps)
  then have "2 ^ k * shifted k f n + f n mod 2 ^ k = f n + f (Suc n) mod 2 ^ k * base" unfolding b by simp
  then have "(2 ^ k * shifted k f n + f n mod 2 ^ k) * base ^ n = (f n + f (Suc n) mod 2 ^ k * base) * base ^ n" by simp
  then show ?case using Suc.IH by (simp add: val_Suc algebra_simps)
qed simp

lemma unat_shift_right: "unat (drop_bit k (x :: u32)) = unat x div 2 ^ k"
  unfolding unat_drop_bit_eq by (rule drop_bit_eq_div)

lemma shift_left_low: "k \<le> 32 \<Longrightarrow> y * 2 ^ (32 - k) mod 2 ^ 32 = y mod 2 ^ k * 2 ^ (32 - k :: nat)" for y :: nat
  using mult_mod_left [of y "2 ^ k" "2 ^ (32 - k)"] by (simp add: power_add [symmetric] mult.commute)

lemma unat_shifted_limb:
  assumes "0 < k" "k < 32"
  shows "unat (drop_bit (unat (of_nat k :: u32)) x OR overflowing_shl y (of_nat SHIFT - of_nat k)) =
    shifted k (\<lambda>i. if i = d then unat x else unat y) d"
proof -
  have k: "unat (of_nat k :: u32) = k" using assms by (simp add: unat_of_nat32)
  have "of_nat SHIFT - of_nat k = (of_nat (32 - k) :: u32)" using assms by (simp add: SHIFT_def of_nat_diff)
  moreover have "unat (of_nat (32 - k) :: u32) = 32 - k" by (rule unat_of_nat32) simp
  then have "unat (of_nat (32 - k) :: u32) mod 32 = 32 - k" using assms by (simp del: of_nat_diff)
  ultimately have o: "overflowing_shl y (of_nat SHIFT - of_nat k) = push_bit (32 - k) y" by (simp add: overflowing_shl_def)
  have "unat (push_bit (32 - k) y) = unat y * 2 ^ (32 - k) mod 2 ^ 32"
    unfolding unsigned_push_bit_eq by (simp add: take_bit_eq_mod push_bit_eq_mult)
  also have "\<dots> = unat y mod 2 ^ k * 2 ^ (32 - k)" using assms by (intro shift_left_low) simp
  finally have p: "unat (push_bit (32 - k) y) = unat y mod 2 ^ k * 2 ^ (32 - k)" .
  have "drop_bit k x AND push_bit (32 - k) y = 0"
    by (rule bit_word_eqI) (auto simp: bit_simps dest: bit_imp_le_length)
  then have s: "drop_bit k x OR push_bit (32 - k) y = drop_bit k x + push_bit (32 - k) y" by (simp only: disjunctive_add_eq_or)
  have b: "2 ^ (32 - k) * 2 ^ k = (2 ^ 32 :: nat)" using assms by (simp add: power_add [symmetric])
  have "unat x < 2 ^ 32" using unsigned_less [of x] by simp
  then have "unat (drop_bit k x) < 2 ^ (32 - k)"
    unfolding unat_shift_right b [symmetric] by (rule less_mult_imp_div_less)
  moreover have "Suc (unat y mod 2 ^ k) * 2 ^ (32 - k) \<le> 2 ^ k * 2 ^ (32 - k)" by (intro mult_le_mono1) (simp add: Suc_le_eq)
  then have "2 ^ (32 - k) + unat (push_bit (32 - k) y) \<le> 2 ^ 32" unfolding p b [symmetric] by (simp add: mult.commute)
  ultimately have "unat (drop_bit k x + push_bit (32 - k) y) = unat (drop_bit k x) + unat (push_bit (32 - k) y)"
    by (subst unat_word_ariths) simp
  then show ?thesis unfolding k o s p unat_shift_right shifted_def by simp
qed

lemma shift_limbs_val:
  assumes k: "0 < k" "k < 32" and "\<forall>d\<in>set ds. Suc d < big_len s \<and> d < big_len r"
  shows "\<exists>r'. shift_limbs (of_nat k) s ds r = Some r' \<and> big_len r' = big_len r \<and>
    limb r' = (\<lambda>i. if i \<in> set ds then shifted k (limb s) i else limb r i)"
  using assms(3)
proof (induction ds arbitrary: r)
  case (Cons d ds)
  obtain x where x: "big_get s d = Some x" "unat x = limb s d" by (rule big_getE [of d s]) (use Cons.prems in auto)
  obtain y where y: "big_get s (d + 1) = Some y" "unat y = limb s (d + 1)" by (rule big_getE [of "d + 1" s]) (use Cons.prems in auto)
  let ?z = "drop_bit (unat (of_nat k :: u32)) x OR overflowing_shl y (of_nat SHIFT - of_nat k)"
  have z: "unat ?z = shifted k (limb s) d" unfolding unat_shifted_limb [OF k, where d = d] using x(2) y(2) by (simp add: shifted_def)
  obtain r1 where r1: "big_set r d ?z = Some r1" "big_len r1 = big_len r" "limb r1 = (limb r)(d := unat ?z)"
    by (rule big_setE [of d r ?z]) (use Cons.prems in auto)
  obtain r' where "shift_limbs (of_nat k) s ds r1 = Some r'" "big_len r' = big_len r1"
    "limb r' = (\<lambda>i. if i \<in> set ds then shifted k (limb s) i else limb r1 i)"
    using Cons.IH [of r1] Cons.prems r1(2) by auto
  then show ?case using x y r1 z by (auto simp: fun_eq_iff)
qed simp

lemma limb_high: "big_value s < base ^ n \<Longrightarrow> n \<le> i \<Longrightarrow> limb s i = 0"
proof -
  assume "big_value s < base ^ n" "n \<le> i"
  moreover from this have "base ^ n \<le> base ^ i" by (intro power_increasing) (simp_all add: Suc_le_eq)
  ultimately have "big_value s < base ^ i" by linarith
  then show ?thesis by (simp add: limb_div)
qed

lemma unnormalize_val:
  assumes n: "n = Suc p" "n \<le> big_len s" and s: "big_value s < base ^ n" and k: "k < 32"
  shows "\<exists>r. unnormalize (of_nat k) n s = Some r \<and> big_value r = big_value s div 2 ^ k"
proof (cases "k = 0")
  case True
  then show ?thesis by (simp add: unnormalize_def)
next
  case False
  have kz: "(0 :: u32) < of_nat k" "unat (of_nat k :: u32) = k" using False k by (simp_all add: word_less_nat_alt unat_of_nat32)
  obtain r where r: "shift_limbs (of_nat k) s [0..<n - 1] (with_capacity n) = Some r" "big_len r = n"
    "limb r = (\<lambda>i. if i < p then shifted k (limb s) i else limb (with_capacity n) i)"
    using shift_limbs_val [of k "[0..<n - 1]" s "with_capacity n"] False k n by auto
  obtain x where x: "big_get s (n - 1) = Some x" "unat x = limb s p" by (rule big_getE [of "n - 1" s]) (use n in auto)
  obtain r' where r': "big_set r (n - 1) (drop_bit k x) = Some r'" "big_len r' = n" "limb r' = (limb r)(n - 1 := unat (drop_bit k x))"
    by (rule big_setE [of "n - 1" r "drop_bit k x"]) (use n r in auto)
  have "limb s n = 0" by (rule limb_high [OF s]) simp
  then have top: "shifted k (limb s) p = unat (drop_bit k x)" using n by (simp add: shifted_def unat_shift_right x)
  have "big_value r' = val (shifted k (limb s)) n"
    unfolding big_value_def r'(2) by (rule val_cong) (use n r' r top in auto)
  moreover have "big_value s = val (limb s) n"
    unfolding big_value_def by (rule val_trailing [OF n(2)]) (rule limb_high [OF s])
  ultimately have "2 ^ k * big_value r' + limb s 0 mod 2 ^ k = big_value s"
    using val_shifted [of k "limb s" n] k \<open>limb s n = 0\<close> by simp
  then have "big_value s div 2 ^ k = big_value r'" by (metis div_mult_self4 add.commute mod_div_trivial add_0 power_not_zero zero_neq_numeral)
  moreover have "unnormalize (of_nat k) n s = Some r'" using r r' x kz by (simp add: unnormalize_def)
  ultimately show ?thesis by simp
qed

section \<open>Division\<close>

lemma quotient_unique:
  fixes Q W S :: nat
  assumes "S < W"
  shows "(Q * W + S) div W = Q" "(Q * W + S) mod W = S"
  using assms by simp_all

lemma normalized_quotient:
  fixes U V Q S T :: nat
  assumes "Q * (V * T) + S = U * T" "S < V * T" "0 < T"
  shows "Q = U div V" "S div T = U mod V"
proof -
  note qu = quotient_unique [OF assms(2), of Q, unfolded assms(1)]
  show "Q = U div V" using qu(1) assms(3) by simp
  have "S = U mod V * T" using qu(2) by (simp add: mult_mod_left)
  then show "S div T = U mod V" using assms(3) by simp
qed

lemma big_div_val:
  assumes "2 \<le> big_len v" "big_msb v = Some vm" "vm \<noteq> 0" "big_msb u = Some um" "um \<noteq> 0" "big_len v < big_len u"
  shows "\<exists>q r. big_div u v rm = Some (Some (q, r)) \<and> big_len q = big_len u - big_len v + 1 \<and>
    big_value q = big_value u div big_value v \<and> (rm \<longrightarrow> big_value r = big_value u mod big_value v)"
proof -
  define n m where "n = big_len v" and "m = big_len u - n"
  obtain p where p: "n = Suc (Suc p)" using assms(1) by (metis add_2_eq_Suc le_Suc_ex n_def)
  have lv: "big_len v = Suc (Suc p)" and lu: "big_len u = n + m" using p assms(6) by (simp_all add: n_def m_def)
  have vm: "unat vm = limb v (Suc p)" using big_msb_limb [of v] assms(2) lv by simp
  obtain k where k: "leading_zeros32 vm = of_nat k" "k < 32" "base \<le> 2 * (unat vm * 2 ^ k)" "(unat vm + 1) * 2 ^ k \<le> base"
    by (rule leading_zeros32_val [OF assms(3)])
  have uk: "unat (of_nat k :: u32) = k" using k(2) by (simp add: unat_of_nat32)
  obtain vn where vn: "big_mul v (from_u32 (2 ^ k)) = Some vn" "big_len (lstrip vn) = n"
    "big_value (lstrip vn) = big_value v * 2 ^ k" "base \<le> 2 * limb (lstrip vn) (n - 1)"
    using k by (auto simp: vm p intro: normalized_divisor [OF lv k(2)])
  obtain un where un: "big_mul u (from_u32 (2 ^ k)) = Some un" "big_len un = n + m + 1" "big_value un = big_value u * 2 ^ k"
    using big_mul_val [of u "from_u32 (2 ^ k)"] lu by (auto simp: from_u32_val unat_pow2 [OF k(2)])
  let ?s = "lpad un (n + m + 1)"
  have s: "big_len ?s = n + m + 1" "big_value ?s = big_value u * 2 ^ k" using un by simp_all
  have "1 \<le> limb v (Suc p)" using assms(3) unfolding vm [symmetric] by (simp add: Suc_le_eq unat_gt_0)
  then have lo: "base ^ Suc p \<le> big_value v" using top_limb_bounds(1) [OF lv] by (metis le_trans mult_1 mult_le_mono1)
  have "big_value u < base ^ (Suc p + Suc m)" using big_value_less [of u] by (simp add: lu p)
  then have "big_value u * 2 ^ k < base ^ Suc p * 2 ^ k * base ^ Suc m" by (simp add: power_add ac_simps)
  then have "upper ?s (Suc m) < base ^ Suc p * 2 ^ k" using s p by (simp add: upper_div less_mult_imp_div_less del: power_Suc)
  also have "\<dots> \<le> big_value (lstrip vn)" using lo unfolding vn(3) by (rule mult_le_mono1)
  finally have up: "upper ?s (Suc m) < big_value (lstrip vn)" .
  obtain s' q where sq: "div_steps (lstrip vn) n (rev [0..<Suc m]) ?s (with_capacity (m + 1)) = Some (s', q)"
    "big_len s' = n + m + 1" "big_len q = m + 1" "big_value s' < big_value v * 2 ^ k"
    "val (limb q) (Suc m) * (big_value v * 2 ^ k) + big_value s' = big_value u * 2 ^ k"
    using div_steps_val [OF p vn(2) vn(4), of "Suc m" ?s "with_capacity (m + 1)"] up s vn(3) by (auto simp del: upt_Suc)
  have q: "big_value q = val (limb q) (Suc m)" using sq(3) by (simp add: big_value_def)
  note d = normalized_quotient [OF sq(5) [folded q] sq(4), simplified]
  have "big_value s' < base ^ n" using sq(4) big_value_less [of "lstrip vn"] vn(2,3) by simp
  then obtain r where r: "unnormalize (of_nat k) n s' = Some r" "big_value r = big_value s' div 2 ^ k"
    using unnormalize_val [of n "Suc p" s' k] p k(2) sq(2) by auto
  have "big_div u v rm = Some (Some (q, if rm then r else with_capacity n))"
    using assms un(1) vn(1) sq(1) r(1) k(1) uk
    by (simp add: big_div_def Let_def n_def [symmetric] m_def [symmetric] del: upt_Suc)
  then show ?thesis using d r sq(3) by (auto simp: n_def m_def)
qed

section \<open>Comparison and conversion\<close>

lemma big_value_Nil [simp]: "big_value (BigUint []) = 0"
  by (simp add: big_value_def big_len_def)

lemma big_value_Cons: "big_value (BigUint (x # xs)) = unat x * base ^ length xs + big_value (BigUint xs)"
proof -
  have "val (limb (BigUint (x # xs))) (length xs) = val (limb (BigUint xs)) (length xs)"
    by (rule val_cong) (simp add: limb_digits Suc_diff_Suc)
  then show ?thesis by (simp add: big_value_def big_len_def val_Suc) (simp add: limb_digits)
qed

lemma big_value_list_less: "big_value (BigUint xs) < base ^ length xs"
  using big_value_less [of "BigUint xs"] by (simp add: big_len_def)

lemma cmp_nat_leading:
  assumes "x < y" "a < P"
  shows "cmp_nat (x * P + a) (y * P + b) = Less" "cmp_nat (y * P + b) (x * P + a) = Greater"
proof -
  have "Suc x * P \<le> y * P" using assms(1) by (intro mult_le_mono1) simp
  then have "x * P + a < y * P + b" using assms(2) by simp
  then show "cmp_nat (x * P + a) (y * P + b) = Less" "cmp_nat (y * P + b) (x * P + a) = Greater"
    by (simp_all add: cmp_nat_def)
qed

lemma cmp_slices_val:
  "length xs = length ys \<Longrightarrow> cmp_slices xs ys = cmp_nat (big_value (BigUint xs)) (big_value (BigUint ys))"
proof (induction xs ys rule: cmp_slices.induct)
  case (4 a as b bs)
  then have l: "length as = length bs" by simp
  have "cmp_nat (unat a * base ^ length bs + big_value (BigUint as)) (unat b * base ^ length bs + big_value (BigUint bs)) =
      (if a < b then Less else if b < a then Greater else cmp_nat (big_value (BigUint as)) (big_value (BigUint bs)))"
    using cmp_nat_leading [of "unat a" "unat b"] cmp_nat_leading [of "unat b" "unat a"]
      big_value_list_less [of as] big_value_list_less [of bs] l
    by (auto simp: word_less_nat_alt not_less cmp_nat_def dest: le_antisym)
  then show ?case using 4 l by (auto simp: big_value_Cons)
qed (simp_all add: cmp_nat_def)

lemma first_nonzero_val:
  assumes "first_nonzero (digits b) = Some i"
  shows "big_value (BigUint (drop i (digits b))) = big_value b" "i < length (digits b)"
    "base ^ (length (digits b) - i - 1) \<le> big_value b"
proof -
  note f = first_nonzero_Some [OF assms]
  show v: "big_value (BigUint (drop i (digits b))) = big_value b" by (rule value_cong [OF limb_drop]) (use f in auto)
  show i: "i < length (digits b)" using f ..
  have "drop i (digits b) = digits b ! i # drop (Suc i) (digits b)" using i by (simp add: Cons_nth_drop_Suc)
  then have "big_value b = unat (digits b ! i) * base ^ (length (digits b) - Suc i) + big_value (BigUint (drop (Suc i) (digits b)))"
    using v by (simp add: big_value_Cons)
  moreover have "1 \<le> unat (digits b ! i)" using f by (simp add: Suc_le_eq unat_gt_0)
  then have "base ^ (length (digits b) - Suc i) \<le> unat (digits b ! i) * base ^ (length (digits b) - Suc i)" by simp
  ultimately have "base ^ (length (digits b) - Suc i) \<le> big_value b" by linarith
  then show "base ^ (length (digits b) - i - 1) \<le> big_value b" by simp
qed

lemma first_nonzero_pos: "first_nonzero (digits b) = Some i \<Longrightarrow> 0 < big_value b"
  by (rule less_le_trans [OF _ first_nonzero_val(3)]) simp_all

lemma no_nonzero_val: "first_nonzero (digits b) = None \<Longrightarrow> big_value b = 0"
proof -
  assume "first_nonzero (digits b) = None"
  then have "limb b i = 0" for i by (simp add: first_nonzero_None limb_digits all_set_conv_all_nth)
  then show ?thesis by (simp add: big_value_def val_def)
qed

lemma length_decides:
  assumes "first_nonzero (digits a) = Some i" "first_nonzero (digits b) = Some j"
    "length (digits a) - i < length (digits b) - j"
  shows "big_value a < big_value b"
proof -
  have "big_value a < base ^ (length (digits a) - i)"
    using first_nonzero_val(1) [OF assms(1)] big_value_list_less [of "drop i (digits a)"] by simp
  also have "\<dots> \<le> base ^ (length (digits b) - j - 1)" using assms(3) by (intro power_increasing) (simp_all add: Suc_le_eq)
  also have "\<dots> \<le> big_value b" by (rule first_nonzero_val [OF assms(2)])
  finally show ?thesis .
qed

lemma big_cmp_val: "big_cmp a b = cmp_nat (big_value a) (big_value b)"
proof (cases "first_nonzero (digits a)"; cases "first_nonzero (digits b)")
  fix i assume "first_nonzero (digits a) = None" "first_nonzero (digits b) = Some i"
  moreover from this have "0 < big_value b" by (simp add: first_nonzero_pos)
  ultimately show ?thesis by (simp add: big_cmp_def no_nonzero_val cmp_nat_def)
next
  fix i assume "first_nonzero (digits a) = Some i" "first_nonzero (digits b) = None"
  moreover from this have "0 < big_value a" by (simp add: first_nonzero_pos)
  ultimately show ?thesis by (simp add: big_cmp_def no_nonzero_val cmp_nat_def)
next
  fix i j assume f: "first_nonzero (digits a) = Some i" "first_nonzero (digits b) = Some j"
  then show ?thesis
    using length_decides [OF f] length_decides [OF f(2,1)] first_nonzero_val(1) [OF f(1)] first_nonzero_val(1) [OF f(2)]
      cmp_slices_val [of "drop i (digits a)" "drop j (digits b)"]
    by (auto simp: big_cmp_def Let_def cmp_nat_def)
qed (simp add: big_cmp_def no_nonzero_val cmp_nat_def)

lemma push_bit_limb: "push_bit (SHIFT * i) (ucast (d :: u32)) = (of_nat (unat d * base ^ i) :: 'a :: len word)"
proof -
  have "(2 :: 'a word) ^ (SHIFT * i) = of_nat (base ^ i)" by (simp add: SHIFT_def base_def power_mult)
  moreover have "(ucast d :: 'a word) = of_nat (unat d)" by (simp add: of_nat_unat)
  ultimately show ?thesis by (simp add: push_bit_eq_mult)
qed

lemma fold_limbs:
  "fold (\<lambda>(i, d) acc. acc + push_bit (SHIFT * i) (ucast (d :: u32))) (enumerate 0 (rev ds)) 0 =
    (of_nat (big_value (BigUint ds)) :: 'a :: len word)"
proof (induction ds)
  case (Cons d ds)
  have "enumerate 0 (rev (d # ds)) = enumerate 0 (rev ds) @ [(length ds, d)]"
    using enumerate_append_eq [of 0 "rev ds" "[d]"] by simp
  then show ?case using Cons.IH by (simp add: big_value_Cons push_bit_limb add.commute)
qed simp

lemma stripped_len:
  assumes "0 < c"
  shows "big_len (lstrip b) \<le> c \<longleftrightarrow> big_value b < base ^ c"
proof (cases "first_nonzero (digits b)")
  case None
  then have "big_len (lstrip b) \<le> 1" by (simp add: lstrip_def big_len_def)
  then show ?thesis using None assms by (simp add: no_nonzero_val)
next
  case (Some i)
  define L where "L = big_len (lstrip b)"
  have L: "L = length (digits b) - i" using lstrip_msb [OF Some] by (simp add: L_def big_len_def)
  note f = first_nonzero_val [OF Some]
  show ?thesis
  proof (cases "L \<le> c")
    case True
    have "big_value b < base ^ L" using f(1) big_value_list_less [of "drop i (digits b)"] by (simp add: L)
    also have "\<dots> \<le> base ^ c" using True by (intro power_increasing) (simp_all add: Suc_le_eq)
    finally show ?thesis using True by (simp add: L_def)
  next
    case False
    then have "base ^ c \<le> base ^ (length (digits b) - i - 1)" unfolding L by (intro power_increasing) (simp_all add: Suc_le_eq)
    also have "\<dots> \<le> big_value b" by (rule f(3))
    finally show ?thesis using False by (simp add: L_def not_less)
  qed
qed

lemma big_try_into_u128_val: "big_try_into_u128 b = (if big_value b < 2 ^ 128 then Some (of_nat (big_value b)) else None)"
proof -
  have "128 < big_len (lstrip b) * SHIFT \<longleftrightarrow> \<not> big_len (lstrip b) \<le> 4" by (auto simp: SHIFT_def)
  moreover have "base ^ 4 = 2 ^ 128" by (simp add: base_def)
  ultimately show ?thesis using stripped_len [of 4 b] by (simp add: big_try_into_u128_def Let_def fold_limbs)
qed

lemma big_try_into_u64_val: "big_try_into_u64 b = (if big_value b < 2 ^ 64 then Some (of_nat (big_value b)) else None)"
proof -
  have "64 < big_len (lstrip b) * SHIFT \<longleftrightarrow> \<not> big_len (lstrip b) \<le> 2" by (auto simp: SHIFT_def)
  moreover have "base ^ 2 = 2 ^ 64" by (simp add: base_def)
  ultimately show ?thesis using stripped_len [of 2 b] by (simp add: big_try_into_u64_def Let_def fold_limbs)
qed

lemma split128_val:
  "unat (fst (split128 a)) = unat a div 2 ^ 64" "unat (snd (split128 a)) = unat a mod 2 ^ 64"
proof -
  have "unat a < 2 ^ 128" using unsigned_less [of a] by simp
  then have "unat a div 2 ^ 64 < 2 ^ 64" by (simp add: less_mult_imp_div_less)
  moreover have "unat (drop_bit 64 a) = unat a div 2 ^ 64" unfolding unat_drop_bit_eq by (rule drop_bit_eq_div)
  ultimately show "unat (fst (split128 a)) = unat a div 2 ^ 64"
    unfolding split128_def fst_conv unsigned_ucast_eq by (simp add: take_bit_nat_eq_self del: div_less)
  show "unat (snd (split128 a)) = unat a mod 2 ^ 64"
    by (simp add: split128_def unsigned_ucast_eq take_bit_eq_mod)
qed

lemma to_big_uint_val: "big_value (to_big_uint x) = unat x"
proof -
  obtain xh xl where s: "split128 x = (xh, xl)" by fastforce
  obtain a b where h: "split_double xh = (a, b)" by fastforce
  obtain c d where l: "split_double xl = (c, d)" by fastforce
  have "unat xh = unat x div (base * base)" "unat xl = unat x mod (base * base)"
    using split128_val [of x] by (simp_all add: s base_square)
  then have "unat x = unat xh * (base * base) + unat xl" by (simp only: div_mult_mod_eq)
  moreover have "unat xh = unat a * base + unat b" "unat xl = unat c * base + unat d"
    using unat_split_double [of xh] unat_split_double [of xl] by (simp_all add: h l)
  ultimately show ?thesis
    by (simp add: to_big_uint_def s h l from_limbs_def big_value_Cons power3_eq_cube power2_eq_square algebra_simps)
qed

section \<open>Results\<close>

text \<open>C15: On numbers that have a limb, addition, subtraction, multiplication and division by one limb
  compute what they say and never panic. A subtraction that would be negative is reported as an
  error that carries the difference modulo the base to the length; a division by zero divides by one.\<close>

theorem big_operations_correct:
  assumes "digits u \<noteq> []"
  shows "map_option big_value (big_add u v) = Some (big_value u + big_value v) \<and>
    map_option (map_sum big_value big_value) (big_sub u v) =
      Some (if big_value v \<le> big_value u then Inr (big_value u - big_value v)
            else Inl (big_value u + base ^ max (big_len u) (big_len v) - big_value v)) \<and>
    map_option big_value (big_mul u v) = Some (big_value u * big_value v) \<and>
    map_option big_value (div_unit u d) = Some (big_value u div (if d = 0 then 1 else unat d))"
proof -
  have "0 < big_len u" using assms by (simp add: big_len_def)
  from big_sub_val [OF this, of v] obtain w where
    w: "big_sub u v = Some (if big_value v \<le> big_value u then Inr w else Inl w)"
      "big_value w + big_value v = big_value u + (if big_value v \<le> big_value u then 0 else base ^ max (big_len u) (big_len v))"
    by blast
  have "unat (max d 1) = max (unat d) 1" by (simp add: max_def word_le_nat_alt)
  then have "unat (max d 1) = (if d = 0 then 1 else unat d)" using unat_gt_0 [of d] by (cases "d = 0") auto
  moreover have "map_option (map_sum big_value big_value) (big_sub u v) =
      Some (if big_value v \<le> big_value u then Inr (big_value u - big_value v)
            else Inl (big_value u + base ^ max (big_len u) (big_len v) - big_value v))"
    using w by (auto simp: add_implies_diff [symmetric] split: if_splits)
  ultimately show ?thesis
    using big_add_val [of u v] big_mul_val [of u v] div_unit_val [of u d] by auto
qed

theorem big_operations_correct_witness:
  "digits (BigUint [1, 0]) \<noteq> [] \<and>
    map_option (map_sum big_value big_value) (big_sub (BigUint [1, 0]) (BigUint [1])) =
      Some (if big_value (BigUint [1]) \<le> big_value (BigUint [1, 0]) then Inr (big_value (BigUint [1, 0]) - big_value (BigUint [1]))
            else Inl (big_value (BigUint [1, 0]) + base ^ max (big_len (BigUint [1, 0])) (big_len (BigUint [1])) - big_value (BigUint [1])))"
  using big_operations_correct [of "BigUint [1, 0]" "BigUint [1]" 0] by simp

lemma big_div_rem: "big_div u v False = Some (Some (q, r)) \<Longrightarrow> r = with_capacity (big_len v)"
  by (auto simp: big_div_def Let_def bind_eq_Some_conv split: if_splits)

text \<open>C2: Long division returns for every dividend that has a limb: it refuses exactly the arguments
  that its comment excludes (a divisor of fewer than two limbs or with a leading zero, a dividend
  with a leading zero or not longer than the divisor), and otherwise gives the quotient and, when
  it is asked for, the remainder. In particular the loop that corrects an estimated digit ends and
  no limb out of range is read or written.\<close>

theorem big_div_correct:
  assumes "digits u \<noteq> []"
  shows "(\<lambda>refused.
    case big_div u v rm of
      None \<Rightarrow> False
    | Some None \<Rightarrow> refused
    | Some (Some (q, r)) \<Rightarrow> \<not> refused \<and> big_value q = big_value u div big_value v \<and>
        big_len q = big_len u - big_len v + 1 \<and>
        (if rm then big_value r = big_value u mod big_value v else big_value r = 0))
    (big_len v < 2 \<or> limb v (big_len v - 1) = 0 \<or> limb u (big_len u - 1) = 0 \<or> big_len u \<le> big_len v)"
proof -
  let ?refused = "big_len v < 2 \<or> limb v (big_len v - 1) = 0 \<or> limb u (big_len u - 1) = 0 \<or> big_len u \<le> big_len v"
  have "0 < big_len u" using assms by (simp add: big_len_def)
  then obtain um where um: "big_msb u = Some um" "unat um = limb u (big_len u - 1)" using big_msb_limb by blast
  show ?thesis
  proof (cases ?refused)
    case True
    have "big_div u v rm = Some None"
    proof (cases "big_len v < 2")
      case False
      then obtain vm where vm: "big_msb v = Some vm" "unat vm = limb v (big_len v - 1)" using big_msb_limb [of v] by auto
      then show ?thesis using True False um by (auto simp: big_div_def unat_eq_zero [symmetric])
    qed (simp add: big_div_def)
    then show ?thesis using True by simp
  next
    case False
    then obtain vm where vm: "big_msb v = Some vm" "unat vm = limb v (big_len v - 1)" using big_msb_limb [of v] by auto
    have z: "big_value (with_capacity n) = 0" for n by (simp add: big_value_def val_def)
    have "2 \<le> big_len v" "vm \<noteq> 0" "um \<noteq> 0" "big_len v < big_len u" using False um vm by auto
    from big_div_val [OF this(1) vm(1) this(2) um(1) this(3,4), of rm] big_div_rem [of u v]
    show ?thesis using False by (auto simp: z)
  qed
qed

theorem big_div_correct_witness:
  "digits (BigUint [7, 0, 1]) \<noteq> [] \<and>
    (case big_div (BigUint [7, 0, 1]) (BigUint [3, 5]) True of
      None \<Rightarrow> False
    | Some None \<Rightarrow> False
    | Some (Some (q, r)) \<Rightarrow> big_value q = big_value (BigUint [7, 0, 1]) div big_value (BigUint [3, 5]) \<and>
        big_value r = big_value (BigUint [7, 0, 1]) mod big_value (BigUint [3, 5]))"
  using big_div_correct [of "BigUint [7, 0, 1]" "BigUint [3, 5]" True]
  by (auto simp: big_len_def limb_digits split: option.splits prod.splits)

text \<open>C26: A 128-bit number that is turned into limbs and back is unchanged, and any number converts back
  exactly when it fits: the result is the number, and a number of more than 128 or 64 bits is
  refused instead of being truncated.\<close>

theorem big_conversions:
  "big_try_into_u128 (to_big_uint x) = Some x \<and>
    (big_try_into_u128 b = Some y \<longleftrightarrow> big_value b = unat y) \<and>
    (big_try_into_u64 b = Some z \<longleftrightarrow> big_value b = unat z)"
proof (intro conjI)
  have y: "unat y < 2 ^ 128" for y :: u128 using unsigned_less [of y] by simp
  have z: "unat z < 2 ^ 64" for z :: u64 using unsigned_less [of z] by simp
  have "big_value b < 2 ^ 128 \<Longrightarrow> unat (of_nat (big_value b) :: u128) = big_value b" for b
    by (simp add: unat_of_nat)
  then show u: "big_try_into_u128 b = Some y \<longleftrightarrow> big_value b = unat y" for b y
    using y [of y] by (auto simp: big_try_into_u128_val)
  show "big_try_into_u128 (to_big_uint x) = Some x" unfolding u by (rule to_big_uint_val)
  have "big_value b < 2 ^ 64 \<Longrightarrow> unat (of_nat (big_value b) :: u64) = big_value b"
    by (simp add: unat_of_nat)
  then show "big_try_into_u64 b = Some z \<longleftrightarrow> big_value b = unat z"
    using z [of z] by (auto simp: big_try_into_u64_val)
qed

end
