(* ===== verification/Rational.thy ===== *)
theory Rational
  imports Biguint_Div Complex_Main
begin

text \<open>
  Fractions, \<open>primitives/arithmetic/src/rational.rs\<close>: pairs of 128-bit numbers and pairs of numbers
  of any size. They are built on the two components below them: the comparison multiplies with
  \<^const>\<open>big_mul\<close> of the theory Biguint, the checked operations scale with \<^const>\<open>gcd128\<close> and
  \<^const>\<open>multiply_by_rational_with_rounding\<close> of the theory Helpers_128bit. The results say that the
  operations agree with the arithmetic of the rational numbers.
\<close>


section \<open>Fractions of numbers of any size\<close>

datatype rational_infinite = RationalInfinite (inf_n: biguint) (inf_d: biguint)

text \<open>\<open>Ord::max\<close> of the standard library: the second argument unless the first is greater.\<close>

definition big_max :: "biguint \<Rightarrow> biguint \<Rightarrow> biguint" where
  "big_max a b = (if big_cmp a b = Greater then a else b)"

definition inf_from :: "biguint \<Rightarrow> biguint \<Rightarrow> rational_infinite" where
  "inf_from n d = RationalInfinite n (big_max d big_one)"

definition inf_zero :: rational_infinite where
  "inf_zero = RationalInfinite big_zero big_one"

definition inf_one :: rational_infinite where
  "inf_one = RationalInfinite big_one big_one"

text \<open>\<open>BigUint::eq\<close> is a comparison. The outer \<open>None\<close> is a panic of the multiplication.\<close>

definition inf_cmp :: "rational_infinite \<Rightarrow> rational_infinite \<Rightarrow> ordering option" where
  "inf_cmp a b =
     (if big_cmp (inf_d a) (inf_d b) = Equal then Some (big_cmp (inf_n a) (inf_n b))
      else if big_is_zero (inf_d a) then Some Greater
      else if big_is_zero (inf_d b) then Some Less
      else do { x \<leftarrow> big_mul (inf_n a) (inf_d b); y \<leftarrow> big_mul (inf_n b) (inf_d a); Some (big_cmp x y) })"

definition inf_eq :: "rational_infinite \<Rightarrow> rational_infinite \<Rightarrow> bool option" where
  "inf_eq a b = map_option (\<lambda>c. c = Equal) (inf_cmp a b)"

section \<open>Fractions of 128-bit numbers\<close>

datatype rational128 = Rational128 (rat_n: u128) (rat_d: u128)

definition rat_zero :: rational128 where
  "rat_zero = Rational128 0 1"

definition rat_one :: rational128 where
  "rat_one = Rational128 1 1"

definition rat_is_zero :: "rational128 \<Rightarrow> bool" where
  "rat_is_zero r = (rat_n r = 0)"

definition rat_from :: "u128 \<Rightarrow> u128 \<Rightarrow> rational128" where
  "rat_from n d = Rational128 n (max d 1)"

definition rat_from_unchecked :: "u128 \<Rightarrow> u128 \<Rightarrow> rational128" where
  "rat_from_unchecked n d = Rational128 n d"

definition inf_from_rational :: "rational128 \<Rightarrow> rational_infinite" where
  "inf_from_rational t = RationalInfinite (to_big_uint (rat_n t)) (to_big_uint (rat_d t))"

definition to_den :: "rational128 \<Rightarrow> u128 \<Rightarrow> rational128 option" where
  "to_den r den =
     (if den = rat_d r then Some r
      else map_option (\<lambda>n. Rational128 n den) (multiply_by_rational_with_rounding (rat_n r) den (rat_d r) NearestPrefDown))"

definition rat_lcm :: "rational128 \<Rightarrow> rational128 \<Rightarrow> u128 option" where
  "rat_lcm a b =
     (if rat_d a = rat_d b then Some (rat_d a)
      else let g = gcd128 (rat_d a) (rat_d b)
        in multiply_by_rational_with_rounding (rat_d a) (rat_d b) g NearestPrefDown)"

definition saturating_add128 :: "u128 \<Rightarrow> u128 \<Rightarrow> u128" where
  "saturating_add128 a b = (case checked_add128 a b of Some s \<Rightarrow> s | None \<Rightarrow> - 1)"

definition saturating_sub128 :: "u128 \<Rightarrow> u128 \<Rightarrow> u128" where
  "saturating_sub128 a b = (if b \<le> a then a - b else 0)"

definition checked_sub128 :: "u128 \<Rightarrow> u128 \<Rightarrow> u128 option" where
  "checked_sub128 a b = (if b \<le> a then Some (a - b) else None)"

definition lazy_saturating_add :: "rational128 \<Rightarrow> rational128 \<Rightarrow> rational128" where
  "lazy_saturating_add a b =
     (if rat_is_zero b then a else Rational128 (saturating_add128 (rat_n a) (rat_n b)) (rat_d a))"

definition lazy_saturating_sub :: "rational128 \<Rightarrow> rational128 \<Rightarrow> rational128" where
  "lazy_saturating_sub a b =
     (if rat_is_zero b then a else Rational128 (saturating_sub128 (rat_n a) (rat_n b)) (rat_d a))"

text \<open>The error messages of the source.\<close>

datatype rational_error = FailedToScale | OverflowAdding | OverflowSubtracting

definition rat_checked_add :: "rational128 \<Rightarrow> rational128 \<Rightarrow> rational_error + rational128" where
  "rat_checked_add a b =
     (case rat_lcm a b of
        None \<Rightarrow> Inl FailedToScale
      | Some l \<Rightarrow> case to_den a l of
          None \<Rightarrow> Inl FailedToScale
        | Some a' \<Rightarrow> case to_den b l of
            None \<Rightarrow> Inl FailedToScale
          | Some b' \<Rightarrow> case checked_add128 (rat_n a') (rat_n b') of
              None \<Rightarrow> Inl OverflowAdding
            | Some n \<Rightarrow> Inr (Rational128 n (rat_d a')))"

definition rat_checked_sub :: "rational128 \<Rightarrow> rational128 \<Rightarrow> rational_error + rational128" where
  "rat_checked_sub a b =
     (case rat_lcm a b of
        None \<Rightarrow> Inl FailedToScale
      | Some l \<Rightarrow> case to_den a l of
          None \<Rightarrow> Inl FailedToScale
        | Some a' \<Rightarrow> case to_den b l of
            None \<Rightarrow> Inl FailedToScale
          | Some b' \<Rightarrow> case checked_sub128 (rat_n a') (rat_n b') of
              None \<Rightarrow> Inl OverflowSubtracting
            | Some n \<Rightarrow> Inr (Rational128 n (rat_d a')))"

definition rat_min_value :: rational128 where
  "rat_min_value = Rational128 0 1"

definition rat_max_value :: rational128 where
  "rat_max_value = Rational128 (- 1) 1"

definition rat_cmp :: "rational128 \<Rightarrow> rational128 \<Rightarrow> ordering option" where
  "rat_cmp a b =
     (if rat_d a = rat_d b then Some (cmp_nat (unat (rat_n a)) (unat (rat_n b)))
      else if rat_d a = 0 then Some Greater
      else if rat_d b = 0 then Some Less
      else do { self_n \<leftarrow> big_mul (to_big_uint (rat_n a)) (to_big_uint (rat_d b));
                other_n \<leftarrow> big_mul (to_big_uint (rat_n b)) (to_big_uint (rat_d a));
                Some (big_cmp self_n other_n) })"

definition rat_eq :: "rational128 \<Rightarrow> rational128 \<Rightarrow> bool option" where
  "rat_eq a b =
     (if rat_d a = rat_d b then Some (rat_n a = rat_n b)
      else do { self_n \<leftarrow> big_mul (to_big_uint (rat_n a)) (to_big_uint (rat_d b));
                other_n \<leftarrow> big_mul (to_big_uint (rat_n b)) (to_big_uint (rat_d a));
                Some (big_cmp self_n other_n = Equal) })"

section \<open>Comparison\<close>

text \<open>The rational number a fraction stands for.\<close>

definition fraction :: "nat \<Rightarrow> nat \<Rightarrow> rat" where
  "fraction n d = of_nat n / of_nat d"

definition cmp_rat :: "rat \<Rightarrow> rat \<Rightarrow> ordering" where
  "cmp_rat x y = (if x < y then Less else if x = y then Equal else Greater)"

definition rat_value :: "rational128 \<Rightarrow> rat" where
  "rat_value r = fraction (unat (rat_n r)) (unat (rat_d r))"

definition inf_value :: "rational_infinite \<Rightarrow> rat" where
  "inf_value r = fraction (big_value (inf_n r)) (big_value (inf_d r))"

lemma cmp_fraction:
  assumes "0 < b" "0 < d"
  shows "cmp_rat (fraction a b) (fraction c d) = cmp_nat (a * d) (c * b)"
proof -
  have "(of_nat a :: rat) * of_nat d < of_nat c * of_nat b \<longleftrightarrow> a * d < c * b"
    unfolding of_nat_mult [symmetric] by (rule of_nat_less_iff)
  moreover have "(of_nat a :: rat) * of_nat d = of_nat c * of_nat b \<longleftrightarrow> a * d = c * b"
    unfolding of_nat_mult [symmetric] by (rule of_nat_eq_iff)
  ultimately show ?thesis
    using assms by (simp add: cmp_rat_def cmp_nat_def fraction_def frac_less_eq frac_eq_eq divide_less_eq less_divide_eq field_simps)
qed

lemma cmp_nat_mult [simp]: "0 < d \<Longrightarrow> cmp_nat (a * d) (c * d) = cmp_nat a c"
  by (simp add: cmp_nat_def)

lemma big_is_zero_val: "big_is_zero b \<longleftrightarrow> big_value b = 0"
proof (cases "first_nonzero (digits b)")
  case None
  then show ?thesis using no_nonzero_val [OF None] by (simp add: big_is_zero_def list_all_iff first_nonzero_None)
next
  case (Some i)
  have "\<not> big_is_zero b" using first_nonzero_None [of "digits b"] Some by (auto simp: big_is_zero_def list_all_iff)
  then show ?thesis using first_nonzero_pos [OF Some] by simp
qed

lemma cmp_nat_Equal: "cmp_nat a b = Equal \<longleftrightarrow> a = b"
  by (simp add: cmp_nat_def)

lemma inf_cmp_val:
  "0 < big_value (inf_d a) \<Longrightarrow> 0 < big_value (inf_d b) \<Longrightarrow> inf_cmp a b = Some (cmp_rat (inf_value a) (inf_value b))"
  using big_mul_val [of "inf_n a" "inf_d b"] big_mul_val [of "inf_n b" "inf_d a"]
  by (auto simp: inf_cmp_def big_cmp_val cmp_nat_Equal big_is_zero_val inf_value_def cmp_fraction)

lemma to_big_uint_product: "\<exists>w. big_mul (to_big_uint x) (to_big_uint y) = Some w \<and> big_value w = unat x * unat y"
  using big_mul_val [of "to_big_uint x" "to_big_uint y"] by (auto simp: to_big_uint_val)

lemma rat_cmp_val:
  assumes "rat_d a \<noteq> 0" "rat_d b \<noteq> 0"
  shows "rat_cmp a b = Some (cmp_rat (rat_value a) (rat_value b))" "rat_eq a b = Some (rat_value a = rat_value b)"
proof -
  have d: "0 < unat (rat_d a)" "0 < unat (rat_d b)" using assms by (simp_all add: unat_gt_0)
  obtain x where x: "big_mul (to_big_uint (rat_n a)) (to_big_uint (rat_d b)) = Some x" "big_value x = unat (rat_n a) * unat (rat_d b)"
    using to_big_uint_product by blast
  obtain y where y: "big_mul (to_big_uint (rat_n b)) (to_big_uint (rat_d a)) = Some y" "big_value y = unat (rat_n b) * unat (rat_d a)"
    using to_big_uint_product by blast
  show c: "rat_cmp a b = Some (cmp_rat (rat_value a) (rat_value b))"
    using assms d x y by (auto simp: rat_cmp_def rat_value_def cmp_fraction big_cmp_val)
  have "cmp_rat (rat_value a) (rat_value b) = Equal \<longleftrightarrow> rat_value a = rat_value b" by (simp add: cmp_rat_def)
  moreover have "rat_eq a b = map_option (\<lambda>c. c = Equal) (rat_cmp a b)"
    using assms x(1) y(1) by (simp add: rat_eq_def rat_cmp_def cmp_nat_Equal word_unat_eq_iff)
  ultimately show "rat_eq a b = Some (rat_value a = rat_value b)" using c by simp
qed

section \<open>Addition and subtraction\<close>

lemma rounds_exact: "0 < c \<Longrightarrow> rounds r (m * c) c k \<longleftrightarrow> k = m"
proof -
  assume c: "0 < c"
  have m: "m * c + c = Suc m * c" "k * c + c = Suc k * c" for m k by simp_all
  have d: "2 * (k * c) < 2 * (m * c) + c \<Longrightarrow> k \<le> m" for k m
  proof (rule ccontr)
    assume "2 * (k * c) < 2 * (m * c) + c" "\<not> k \<le> m"
    moreover from this have "Suc m * c \<le> k * c" by (intro mult_le_mono1) simp
    ultimately show False by simp
  qed
  have e: "2 * (k * c) \<le> 2 * (m * c) + c \<Longrightarrow> k \<le> m" for k m
  proof (rule ccontr)
    assume "2 * (k * c) \<le> 2 * (m * c) + c" "\<not> k \<le> m"
    moreover from this have "Suc m * c \<le> k * c" by (intro mult_le_mono1) simp
    ultimately show False using c by simp
  qed
  show ?thesis
    using c d [of k m] d [of m k] e [of k m] e [of m k] mult_le_cancel2 [of m c k] mult_le_cancel2 [of k c m]
    by (cases r) (auto simp: m simp del: mult_Suc intro: le_antisym)
qed

text \<open>Without rounding, the product with a fraction is exact or refused.\<close>

lemma multiply_by_rational_dvd:
  assumes "c \<noteq> 0" "unat a * unat b = m * unat c"
  shows "multiply_by_rational_with_rounding a b c r = (if m < 2 ^ 128 then Some (of_nat m) else None)"
proof -
  have c: "0 < unat c" using assms(1) by (simp add: unat_gt_0)
  note ex = multiply_by_rational_val [where a = a and b = b and c = c and r = r, unfolded assms(2)] and re = rounds_exact [OF c, of r m]
  show ?thesis
  proof (cases "multiply_by_rational_with_rounding a b c r")
    case None
    then show ?thesis using ex re assms(1) by auto
  next
    case (Some k)
    then have "unat k = m" using ex re by simp
    then have "m < 2 ^ 128" "k = of_nat m" using unat_lt128 [of k] by auto
    then show ?thesis using Some by simp
  qed
qed

lemma unat_of_nat128: "n < 2 ^ 128 \<Longrightarrow> unat (of_nat n :: u128) = n"
  by (simp add: unat_of_nat)

lemma rat_lcm_val:
  assumes "rat_d a \<noteq> 0" "rat_d b \<noteq> 0"
  shows "rat_lcm a b = (let l = lcm (unat (rat_d a)) (unat (rat_d b)) in if l < 2 ^ 128 then Some (of_nat l) else None)"
proof (cases "rat_d a = rat_d b")
  case True
  then show ?thesis using unat_lt128 [of "rat_d b"] by (simp add: rat_lcm_def)
next
  case False
  have "0 < gcd (unat (rat_d a)) (unat (rat_d b))" using assms by (simp add: unat_gt_0)
  then have "gcd128 (rat_d a) (rat_d b) \<noteq> 0" unfolding gcd128_val [symmetric] by (simp add: unat_gt_0)
  moreover have "unat (rat_d a) * unat (rat_d b) = lcm (unat (rat_d a)) (unat (rat_d b)) * unat (gcd128 (rat_d a) (rat_d b))"
    unfolding gcd128_val using prod_gcd_lcm_nat [of "unat (rat_d a)" "unat (rat_d b)"] by (simp only: mult.commute)
  ultimately show ?thesis
    unfolding rat_lcm_def Let_def using False by (simp only: if_False) (rule multiply_by_rational_dvd)
qed

lemma to_den_val:
  assumes "rat_d r \<noteq> 0" "unat den = unat (rat_d r) * k"
  shows "to_den r den =
    (if unat (rat_n r) * k < 2 ^ 128 then Some (Rational128 (of_nat (unat (rat_n r) * k)) den) else None)"
proof (cases "den = rat_d r")
  case True
  then have "k = 1" using assms by (auto simp: unat_eq_zero)
  then show ?thesis using True unat_lt128 [of "rat_n r"] by (cases r) (simp add: to_den_def)
next
  case False
  have "unat (rat_n r) * unat den = unat (rat_n r) * k * unat (rat_d r)" using assms(2) by (simp add: ac_simps)
  from multiply_by_rational_dvd [OF assms(1) this] show ?thesis using False by (simp add: to_den_def)
qed

text \<open>Two fractions over their least common denominator.\<close>

definition scaled :: "rational128 \<Rightarrow> rational128 \<Rightarrow> nat" where
  "scaled a b = unat (rat_n a) * (lcm (unat (rat_d a)) (unat (rat_d b)) div unat (rat_d a))"

lemma fraction_scaled:
  assumes "rat_d a \<noteq> 0" "rat_d b \<noteq> 0" "lcm (unat (rat_d a)) (unat (rat_d b)) = l"
  shows "fraction (scaled a b) l = rat_value a"
proof -
  have d: "0 < unat (rat_d a)" "0 < unat (rat_d b)" using assms by (simp_all add: unat_gt_0)
  obtain k where k: "l = unat (rat_d a) * k" using assms(3) by (metis dvd_lcm1 dvdE)
  then have "0 < k" using d assms(3) by (metis lcm_pos_nat mult_0_right neq0_conv)
  then show ?thesis using d k by (simp add: scaled_def assms(3) rat_value_def fraction_def)
qed

lemma scaling:
  fixes a b :: rational128
  assumes d: "rat_d a \<noteq> 0" "rat_d b \<noteq> 0"
  defines "l \<equiv> lcm (unat (rat_d a)) (unat (rat_d b))"
  shows "rat_lcm a b = (if l < 2 ^ 128 then Some (of_nat l) else None)"
    "l < 2 ^ 128 \<Longrightarrow> to_den a (of_nat l) = (if scaled a b < 2 ^ 128 then Some (Rational128 (of_nat (scaled a b)) (of_nat l)) else None)"
    "l < 2 ^ 128 \<Longrightarrow> to_den b (of_nat l) = (if scaled b a < 2 ^ 128 then Some (Rational128 (of_nat (scaled b a)) (of_nat l)) else None)"
proof -
  show "rat_lcm a b = (if l < 2 ^ 128 then Some (of_nat l) else None)" using rat_lcm_val [OF d] by (simp add: l_def)
  assume l: "l < 2 ^ 128"
  have "unat (of_nat l :: u128) = unat (rat_d a) * (l div unat (rat_d a))" "unat (of_nat l :: u128) = unat (rat_d b) * (l div unat (rat_d b))"
    using unat_of_nat128 [OF l] by (simp_all add: l_def)
  from to_den_val [OF d(1) this(1)] to_den_val [OF d(2) this(2)]
  show "to_den a (of_nat l) = (if scaled a b < 2 ^ 128 then Some (Rational128 (of_nat (scaled a b)) (of_nat l)) else None)"
    "to_den b (of_nat l) = (if scaled b a < 2 ^ 128 then Some (Rational128 (of_nat (scaled b a)) (of_nat l)) else None)"
    by (simp_all add: scaled_def l_def lcm.commute)
qed

lemma checked_add128_val:
  assumes "x < 2 ^ 128" "y < 2 ^ 128"
  shows "checked_add128 (of_nat x) (of_nat y) = (if x + y < 2 ^ 128 then Some (of_nat (x + y)) else None)"
  unfolding checked_add128_def overflowing_add_def case_prod_conv overflow_unat unat_of_nat128 [OF assms(1)] unat_of_nat128 [OF assms(2)]
  by (simp add: not_le)

lemma checked_sub128_val:
  assumes "x < 2 ^ 128" "y < 2 ^ 128"
  shows "checked_sub128 (of_nat x) (of_nat y) = (if y \<le> x then Some (of_nat (x - y)) else None)"
  using assms by (simp add: checked_sub128_def word_le_nat_alt unat_of_nat128 of_nat_diff)

lemma rat_value_scaled:
  "n < 2 ^ 128 \<Longrightarrow> l < 2 ^ 128 \<Longrightarrow> rat_value (Rational128 (of_nat n) (of_nat l)) = fraction n l"
  unfolding rat_value_def rational128.sel by (simp only: unat_of_nat128)

lemma fraction_add: "fraction x l + fraction y l = fraction (x + y) l"
  by (simp add: fraction_def add_divide_distrib)

lemma fraction_diff: "y \<le> x \<Longrightarrow> fraction x l - fraction y l = fraction (x - y) l"
  by (simp add: fraction_def diff_divide_distrib of_nat_diff)

section \<open>Results\<close>



text \<open>C17: The checked addition and subtraction of fractions with nonzero denominators are exact: a result
  is the sum or the difference of the two rational numbers, over their least common denominator. An
  error is returned exactly if that denominator, a scaled numerator or the new numerator is not a
  128-bit number.\<close>

theorem rational_checked_exact:
  assumes "rat_d a \<noteq> 0" "rat_d b \<noteq> 0"
  shows "(case rat_checked_add a b of
      Inr c \<Rightarrow> rat_value c = rat_value a + rat_value b \<and> unat (rat_d c) = lcm (unat (rat_d a)) (unat (rat_d b))
    | Inl e \<Rightarrow> 2 ^ 128 \<le> lcm (unat (rat_d a)) (unat (rat_d b)) \<or> 2 ^ 128 \<le> scaled a b + scaled b a) \<and>
    (case rat_checked_sub a b of
      Inr c \<Rightarrow> rat_value c = rat_value a - rat_value b \<and> unat (rat_d c) = lcm (unat (rat_d a)) (unat (rat_d b))
    | Inl e \<Rightarrow> 2 ^ 128 \<le> lcm (unat (rat_d a)) (unat (rat_d b)) \<or> 2 ^ 128 \<le> max (scaled a b) (scaled b a) \<or> scaled a b < scaled b a)"
proof -
  define l where "l = lcm (unat (rat_d a)) (unat (rat_d b))"
  note sc = scaling [OF assms, folded l_def]
  have f: "fraction (scaled a b) l = rat_value a" "fraction (scaled b a) l = rat_value b"
    using fraction_scaled [OF assms] fraction_scaled [OF assms(2,1)] by (simp_all add: l_def lcm.commute)
  show ?thesis
  proof (cases "l < 2 ^ 128 \<and> scaled a b < 2 ^ 128 \<and> scaled b a < 2 ^ 128")
    case True
    then have t: "l < 2 ^ 128" "scaled a b < 2 ^ 128" "scaled b a < 2 ^ 128" by auto
    have "rat_checked_add a b = (if scaled a b + scaled b a < 2 ^ 128
        then Inr (Rational128 (of_nat (scaled a b + scaled b a)) (of_nat l)) else Inl OverflowAdding)"
      using t by (simp add: rat_checked_add_def sc checked_add128_val)
    moreover have "rat_checked_sub a b = (if scaled b a \<le> scaled a b
        then Inr (Rational128 (of_nat (scaled a b - scaled b a)) (of_nat l)) else Inl OverflowSubtracting)"
      using t by (simp add: rat_checked_sub_def sc checked_sub128_val)
    moreover have "scaled a b - scaled b a < 2 ^ 128" using t(2) by simp
    ultimately show ?thesis
      using t rat_value_scaled [of _ l] unat_of_nat128 [OF t(1)] f fraction_add [of "scaled a b" l "scaled b a"]
        fraction_diff [of "scaled b a" "scaled a b" l] unfolding l_def [symmetric]
      by (auto simp del: of_nat_add of_nat_diff)
  next
    case False
    then have "\<exists>e. rat_checked_add a b = Inl e \<and> rat_checked_sub a b = Inl e"
      by (cases "l < 2 ^ 128"; cases "scaled a b < 2 ^ 128") (simp_all add: rat_checked_add_def rat_checked_sub_def sc)
    then show ?thesis using False unfolding l_def [symmetric] by (auto simp: not_less)
  qed
qed

theorem rational_checked_exact_witness:
  "rat_d (Rational128 1 6) \<noteq> 0 \<and> rat_d (Rational128 1 4) \<noteq> 0 \<and>
    (case rat_checked_add (Rational128 1 6) (Rational128 1 4) of
      Inr c \<Rightarrow> rat_value c = rat_value (Rational128 1 6) + rat_value (Rational128 1 4)
    | Inl e \<Rightarrow> 2 ^ 128 \<le> lcm (unat (6 :: u128)) (unat (4 :: u128)) \<or> 2 ^ 128 \<le> scaled (Rational128 1 6) (Rational128 1 4) + scaled (Rational128 1 4) (Rational128 1 6))"
  using rational_checked_exact [of "Rational128 1 6" "Rational128 1 4"] by (auto split: sum.splits)

text \<open>A fraction with the denominator zero, which \<open>from_unchecked\<close> builds: zero over zero is equal to
  every fraction by \<open>eq\<close> and greater than it by \<open>cmp\<close>.\<close>

lemma zero_over_zero:
  "d \<noteq> 0 \<Longrightarrow> rat_eq (rat_from_unchecked 0 0) (Rational128 n d) = Some True \<and>
    rat_cmp (rat_from_unchecked 0 0) (Rational128 n d) = Some Greater"
  using to_big_uint_product [of 0 d] to_big_uint_product [of n 0]
  by (auto simp: rat_eq_def rat_cmp_def rat_from_unchecked_def big_cmp_val cmp_nat_def)

end
