(* ===== verification/Spec2Isabelle.thy ===== *)
theory Spec2Isabelle
  imports Wasmedge Storage_Layers Balances_Issuance System_Refs Rational
begin

text \<open>
  Verification of the WasmEdge flavour of the Substrate node.
\<close>

end
